(* ===== verification/Prelude.thy ===== *)
theory Prelude
  imports Main "HOL-Library.Word" "HOL-Library.Monad_Syntax" "HOL-Library.Char_ord"
begin

text \<open>
  Shared vocabulary of the development.

  C memory is modelled as bounded arrays: a \<open>char buf[N]\<close> is a list of \<open>N\<close> characters and
  a pointer into it is an index. Every access goes through \<open>rd\<close> and \<open>wr\<close>, which give
  \<open>None\<close> outside the array; throughout the development the outer \<open>option\<close> of a
  definition reads "\<open>None\<close>: the C program has no defined behaviour here" (an access outside an
  object, a read of an indeterminate value, a signed overflow). A null pointer or an error code that
  the C code returns is an ordinary value inside that option. A C string is a \<open>string\<close> without
  the terminating NUL; inside a buffer it is the run of characters up to the next NUL.
\<close>

named_theorems c_mem "laws of bounded arrays and of C strings inside them"

type_synonym byte = "8 word"
type_synonym cbuf = "char list"

abbreviation NUL :: char where "NUL \<equiv> CHR 0x00"
abbreviation CR :: char where "CR \<equiv> CHR 0x0D"
abbreviation LF :: char where "LF \<equiv> CHR 0x0A"

section \<open>Bounded arrays\<close>

definition rd :: "'a list \<Rightarrow> nat \<Rightarrow> 'a option" where
  "rd xs i = (if i < length xs then Some (xs ! i) else None)"

definition wr :: "'a list \<Rightarrow> nat \<Rightarrow> 'a \<Rightarrow> 'a list option" where
  "wr xs i v = (if i < length xs then Some (xs[i := v]) else None)"

definition ub_unless :: "bool \<Rightarrow> unit option" where
  "ub_unless b = (if b then Some () else None)"

lemma rd_Some_iff [c_mem]: "rd xs i = Some v \<longleftrightarrow> i < length xs \<and> xs ! i = v"
  by (auto simp: rd_def)

lemma rd_None_iff [c_mem]: "rd xs i = None \<longleftrightarrow> length xs \<le> i"
  by (auto simp: rd_def)

lemma wr_Some_iff [c_mem]: "wr xs i v = Some ys \<longleftrightarrow> i < length xs \<and> ys = xs[i := v]"
  by (auto simp: wr_def)

lemma wr_None_iff [c_mem]: "wr xs i v = None \<longleftrightarrow> length xs \<le> i"
  by (auto simp: wr_def)

lemma rd_inside [simp]: "i < length xs \<Longrightarrow> rd xs i = Some (xs ! i)"
  by (simp add: rd_def)

lemma wr_inside [simp]: "i < length xs \<Longrightarrow> wr xs i v = Some (xs[i := v])"
  by (simp add: wr_def)

lemma wr_length: "wr xs i v = Some ys \<Longrightarrow> length ys = length xs"
  by (auto simp: wr_def split: if_splits)

lemma ub_unless_True [simp]: "ub_unless True = Some ()"
  by (simp add: ub_unless_def)

lemma ub_unless_False [simp]: "ub_unless False = None"
  by (simp add: ub_unless_def)

lemma ub_unless_Some_iff [c_mem]: "ub_unless b = Some u \<longleftrightarrow> b"
  by (simp add: ub_unless_def)

lemmas bind_Some_iff [c_mem] = Option.bind_eq_Some_conv

lemma bind_None_iff: "Option.bind f g = None \<longleftrightarrow> f = None \<or> (\<exists>x. f = Some x \<and> g x = None)"
  by (cases f) auto

lemma bind_Some_id [simp]: "Option.bind x Some = x"
  by (cases x) auto

declare Option.bind_cong [fundef_cong]

lemma update_append_at [c_mem]: "(xs @ y # ys)[length xs := v] = xs @ v # ys"
  by simp

section \<open>Reasoning about straight-line code\<close>

text \<open>A do-block is defined when each of its steps is.\<close>

lemma bind_defined: "f \<noteq> None \<Longrightarrow> (\<And>x. g x \<noteq> None) \<Longrightarrow> Option.bind f g \<noteq> None"
  by auto

lemma if_defined: "(c \<Longrightarrow> a \<noteq> None) \<Longrightarrow> (\<not> c \<Longrightarrow> b \<noteq> None) \<Longrightarrow> (if c then a else b) \<noteq> None"
  by simp

lemmas defined_intros = if_defined bind_defined option.distinct(2)

lemma bind_undefined: "(\<And>x. g x = None) \<Longrightarrow> Option.bind f g = None"
  by (cases f) auto

text \<open>\<open>wlp m P\<close>: if \<open>m\<close> is defined, its result satisfies \<open>P\<close>.\<close>

definition wlp :: "'a option \<Rightarrow> ('a \<Rightarrow> bool) \<Rightarrow> bool" where
  "wlp m P \<longleftrightarrow> (\<forall>v. m = Some v \<longrightarrow> P v)"

lemma wlp_bind: "(\<And>x. f = Some x \<Longrightarrow> wlp (g x) P) \<Longrightarrow> wlp (Option.bind f g) P"
  by (auto simp: wlp_def bind_Some_iff)

lemma wlp_if: "(c \<Longrightarrow> wlp a P) \<Longrightarrow> (\<not> c \<Longrightarrow> wlp b P) \<Longrightarrow> wlp (if c then a else b) P"
  by simp

lemma wlp_Some: "P v \<Longrightarrow> wlp (Some v) P"
  by (simp add: wlp_def)

lemma wlp_None: "wlp None P"
  by (simp add: wlp_def)

lemma wlp_case_prod: "(\<And>a b. x = (a, b) \<Longrightarrow> wlp (f a b) P) \<Longrightarrow> wlp (case x of (a, b) \<Rightarrow> f a b) P"
  by (cases x) simp

lemma wlpD: "wlp m P \<Longrightarrow> m = Some v \<Longrightarrow> P v"
  by (simp add: wlp_def)

lemma wlpI: "(\<And>v. m = Some v \<Longrightarrow> P v) \<Longrightarrow> wlp m P"
  by (simp add: wlp_def)

lemmas wlp_intros = wlp_bind wlp_if wlp_Some wlp_None wlp_case_prod

section \<open>C strings in buffers\<close>

text \<open>\<open>strlen\<close> and friends: the string that starts at an offset, \<open>None\<close> if the array ends
  before a NUL.\<close>

definition cstr_at :: "cbuf \<Rightarrow> nat \<Rightarrow> string option" where
  "cstr_at b i = (let s = drop i b in
     if NUL \<in> set s then Some (takeWhile (\<lambda>c. c \<noteq> NUL) s) else None)"

text \<open>\<open>!strncmp(b + i, name, strlen(name))\<close>: the comparison stops at the first difference, so
  it reads no further than that.\<close>

fun strncmp_eq :: "cbuf \<Rightarrow> nat \<Rightarrow> string \<Rightarrow> bool option" where
  "strncmp_eq b i [] = Some True"
| "strncmp_eq b i (c # cs) =
     do { x \<leftarrow> rd b i; if x = c then strncmp_eq b (Suc i) cs else Some False }"

text \<open>\<open>memcpy\<close>, one checked write per element, and the copy of a string with its terminator
  (what \<open>sprintf\<close> and \<open>strcpy\<close> do to their destination).\<close>

fun mem_write :: "'a list \<Rightarrow> nat \<Rightarrow> 'a list \<Rightarrow> 'a list option" where
  "mem_write b i [] = Some b"
| "mem_write b i (c # cs) = do { b' \<leftarrow> wr b i c; mem_write b' (Suc i) cs }"

definition str_write :: "cbuf \<Rightarrow> nat \<Rightarrow> string \<Rightarrow> cbuf option" where
  "str_write b i s = mem_write b i (s @ [NUL])"

definition nul_free :: "string \<Rightarrow> bool" where
  "nul_free s \<longleftrightarrow> NUL \<notin> set s"

lemma nul_free_simps [simp]:
  "nul_free []" "nul_free (c # s) \<longleftrightarrow> c \<noteq> NUL \<and> nul_free s"
  "nul_free (s @ t) \<longleftrightarrow> nul_free s \<and> nul_free t"
  by (auto simp: nul_free_def)

lemma takeWhile_nul_free: "nul_free s \<Longrightarrow> takeWhile (\<lambda>c. c \<noteq> NUL) (s @ NUL # t) = s"
  by (auto simp: nul_free_def takeWhile_append)

lemma cstr_at_append [c_mem]:
  "nul_free s \<Longrightarrow> cstr_at (pre @ s @ NUL # t) (length pre) = Some s"
  by (simp add: cstr_at_def takeWhile_nul_free)

lemma cstr_at_SomeD:
  assumes "cstr_at b i = Some s"
  shows "nul_free s" and "i + length s < length b" and "b ! (i + length s) = NUL"
    and "take (length s) (drop i b) = s"
proof -
  let ?P = "\<lambda>c. c \<noteq> NUL"
  from assms have "NUL \<in> set (drop i b)" and s: "s = takeWhile ?P (drop i b)"
    by (auto simp: cstr_at_def Let_def split: if_splits)
  then obtain u t where u: "drop i b = u @ NUL # t" and free_u: "NUL \<notin> set u"
    by (blast dest: split_list_first)
  then have "s = u" unfolding s by (simp add: takeWhile_nul_free nul_free_def)
  with u free_u have split: "drop i b = s @ NUL # t" and free: "NUL \<notin> set s" by simp_all
  show "nul_free s" using free by (simp add: nul_free_def)
  have len: "length (drop i b) = length s + Suc (length t)" by (simp add: split)
  then show "i + length s < length b" by simp
  have "b ! (i + length s) = drop i b ! length s" using len by simp
  then show "b ! (i + length s) = NUL" by (simp add: split)
  show "take (length s) (drop i b) = s" by (simp add: split)
qed

lemma mem_write_Some_iff:
  "mem_write b i s = Some b' \<longleftrightarrow>
     (s = [] \<and> b' = b) \<or> (i + length s \<le> length b \<and> b' = take i b @ s @ drop (i + length s) b)"
proof (induction b i s rule: mem_write.induct)
  case (1 b i)
  then show ?case by auto
next
  case (2 b i c cs)
  show ?case
  proof (cases "i < length b")
    case True
    have b: "b[i := c] = take i b @ c # drop (Suc i) b" by (rule upd_conv_take_nth_drop [OF True])
    have t: "take (Suc i) (b[i := c]) @ cs @ drop (Suc i + length cs) (b[i := c]) =
        take i b @ (c # cs) @ drop (i + length (c # cs)) b"
      unfolding b using True by (simp add: min_def ac_simps)
    show ?thesis
      using True 2 [of "b[i := c]"] by (cases cs) (auto simp: b ac_simps simp flip: t)
  next
    case False
    then show ?thesis by (simp add: wr_def)
  qed
qed

lemma mem_write_append [c_mem]:
  "length s = length old \<Longrightarrow> mem_write (pre @ old @ post) (length pre) s = Some (pre @ s @ post)"
  by (subst mem_write_Some_iff) auto

lemma mem_write_inside:
  "i + length s \<le> length b \<Longrightarrow>
    mem_write b i s = Some (take i b @ s @ drop (i + length s) b)"
  by (subst mem_write_Some_iff) auto

lemma mem_write_front:
  "length ys \<le> length zs \<Longrightarrow> mem_write (as @ zs) (length as) ys = Some (as @ ys @ drop (length ys) zs)"
  using mem_write_inside [of "length as" ys "as @ zs"] by simp

lemma mem_write_outside: "length b < i + length s \<Longrightarrow> s \<noteq> [] \<Longrightarrow> mem_write b i s = None"
  using mem_write_Some_iff [of b i s] by (cases "mem_write b i s") auto

lemma strncmp_eq_append:
  assumes "i \<le> length b" and "NUL \<in> set (drop i b)" and "nul_free name"
  shows "strncmp_eq b i name = Some (take (length name) (drop i b) = name)"
  using assms
proof (induction b i name rule: strncmp_eq.induct)
  case (1 b i)
  then show ?case by simp
next
  case (2 b i c cs)
  from "2.prems"(2) have i: "i < length b"
    by (cases "i < length b") auto
  have d: "drop i b = b ! i # drop (Suc i) b" using i by (simp add: Cons_nth_drop_Suc)
  show ?case
  proof (cases "b ! i = c")
    case True
    with "2.prems"(3) have "b ! i \<noteq> NUL" by simp
    with "2.prems"(2) have "NUL \<in> set (drop (Suc i) b)" by (subst (asm) d) simp
    with "2.IH" [OF rd_inside [OF i] True] "2.prems"(3) i True show ?thesis by (simp add: d)
  next
    case False
    with i show ?thesis by (simp add: d)
  qed
qed

section \<open>Lists\<close>

text \<open>Fields of a string separated by one character, the last one after the last separator.\<close>

fun split_fields :: "char \<Rightarrow> string \<Rightarrow> string list" where
  "split_fields sep [] = [[]]"
| "split_fields sep (c # cs) =
     (if c = sep then [] # split_fields sep cs
      else (case split_fields sep cs of [] \<Rightarrow> [[c]] | f # fs \<Rightarrow> (c # f) # fs))"

lemma split_fields_not_Nil [simp]: "split_fields sep s \<noteq> []"
  by (induction s) (auto split: list.splits)

lemma split_fields_no_sep: "sep \<notin> set s \<Longrightarrow> split_fields sep s = [s]"
  by (induction s) auto

lemma split_fields_append: "split_fields sep (s @ sep # t) = split_fields sep s @ split_fields sep t"
  by (induction s) (auto split: list.splits)

end
