(* ===== verification/C_Float.thy ===== *)
theory C_Float
  imports Prelude
begin

text \<open>
  The floating-point arithmetic of the C code: IEEE 754 \<open>float\<close> and \<open>double\<close>, kept as the bit
  patterns that the program copies to and from its byte buffers, with round-to-nearest-even
  arithmetic computed exactly on integers and rounded once. A result that is not a number is the
  default quiet NaN. The conversion to \<open>int\<close> saturates, as \<open>__aeabi_d2iz\<close> of the target
  (\<open>arm-none-linux-gnueabi\<close> in the Makefile) does.
\<close>

type_synonym double = "64 word"
type_synonym single = "32 word"

datatype fpval = Nan | Infinite bool | Finite bool nat int
  \<comment> \<open>sign, mantissa and exponent: \<open>(-1)^s * m * 2^e\<close>\<close>

section \<open>Formats\<close>

record fp_format =
  prec :: nat        \<comment> \<open>bits of the mantissa, the hidden one included\<close>
  emin :: int        \<comment> \<open>exponent of the last bit of a subnormal number\<close>
  expmax :: nat      \<comment> \<open>the exponent field of infinities and NaNs\<close>

definition dfmt :: fp_format where "dfmt = \<lparr>prec = 53, emin = - 1074, expmax = 2047\<rparr>"
definition sfmt :: fp_format where "sfmt = \<lparr>prec = 24, emin = - 149, expmax = 255\<rparr>"

text \<open>Reading the magnitude bits (the bits below the sign).\<close>

definition mag_val :: "fp_format \<Rightarrow> bool \<Rightarrow> nat \<Rightarrow> fpval" where
  "mag_val f s b =
     (let h = 2 ^ (prec f - 1); ex = b div h; fr = b mod h in
      if ex = expmax f then (if fr = 0 then Infinite s else Nan)
      else if ex = 0 then Finite s fr (emin f)
      else Finite s (h + fr) (emin f + int ex - 1))"

definition d_val :: "double \<Rightarrow> fpval" where
  "d_val w = mag_val dfmt (2 ^ 63 \<le> unat w) (unat w mod 2 ^ 63)"

definition s_val :: "single \<Rightarrow> fpval" where
  "s_val w = mag_val sfmt (2 ^ 31 \<le> unat w) (unat w mod 2 ^ 31)"

section \<open>Rounding\<close>

fun bitlen :: "nat \<Rightarrow> nat" where
  "bitlen n = (if n = 0 then 0 else Suc (bitlen (n div 2)))"

declare bitlen.simps [simp del]

text \<open>Quotient rounded to nearest, ties to even.\<close>

definition div_rne :: "nat \<Rightarrow> nat \<Rightarrow> nat" where
  "div_rne n d =
     (let q = n div d; r = n mod d in
      if 2 * r < d \<or> (2 * r = d \<and> even q) then q else q + 1)"

text \<open>The exponent of the last mantissa bit for the positive rational \<open>n / d\<close>.\<close>

definition ulp_exp :: "fp_format \<Rightarrow> nat \<Rightarrow> nat \<Rightarrow> int" where
  "ulp_exp f n d =
     (let e = int (bitlen n) - int (bitlen d) - int (prec f);
          e = (if n * 2 ^ nat (- e) \<ge> d * 2 ^ nat e * 2 ^ prec f then e + 1 else e)
      in max e (emin f))"

text \<open>Magnitude bits of \<open>n / d\<close> rounded to the format. The carry of a mantissa that rounds up to
  the next power of two moves into the exponent field by itself, and subnormal numbers have the
  exponent field 0.\<close>

definition round_mag :: "fp_format \<Rightarrow> nat \<Rightarrow> nat \<Rightarrow> nat" where
  "round_mag f n d =
     (if n = 0 then 0
      else
        let e = ulp_exp f n d;
            q = div_rne (n * 2 ^ nat (- e)) (d * 2 ^ nat e)
        in min (nat (e - emin f) * 2 ^ (prec f - 1) + q) (expmax f * 2 ^ (prec f - 1)))"

definition d_round :: "bool \<Rightarrow> nat \<Rightarrow> nat \<Rightarrow> double" where
  "d_round s n d = of_nat ((if s then 2 ^ 63 else 0) + round_mag dfmt n d)"

definition s_round :: "bool \<Rightarrow> nat \<Rightarrow> nat \<Rightarrow> single" where
  "s_round s n d = of_nat ((if s then 2 ^ 31 else 0) + round_mag sfmt n d)"

definition d_nan :: double where "d_nan = 0x7FF8000000000000"
definition d_inf :: "bool \<Rightarrow> double" where "d_inf s = (if s then 0xFFF0000000000000 else 0x7FF0000000000000)"
definition d_zero :: "bool \<Rightarrow> double" where "d_zero s = (if s then 0x8000000000000000 else 0)"
definition s_nan :: single where "s_nan = 0x7FC00000"
definition s_inf :: "bool \<Rightarrow> single" where "s_inf s = (if s then 0xFF800000 else 0x7F800000)"

section \<open>Conversions\<close>

text \<open>Numerator and denominator of \<open>m * 2^e\<close>.\<close>

definition scale_n :: "nat \<Rightarrow> int \<Rightarrow> nat" where "scale_n m e = m * 2 ^ nat e"
definition scale_d :: "int \<Rightarrow> nat" where "scale_d e = 2 ^ nat (- e)"

definition d_of_int :: "int \<Rightarrow> double" where
  "d_of_int i = d_round (i < 0) (nat \<bar>i\<bar>) 1"

definition d_of_val :: "fpval \<Rightarrow> double" where
  "d_of_val v = (case v of Nan \<Rightarrow> d_nan | Infinite s \<Rightarrow> d_inf s
     | Finite s m e \<Rightarrow> d_round s (scale_n m e) (scale_d e))"

definition s_to_d :: "single \<Rightarrow> double" where
  "s_to_d w = d_of_val (s_val w)"

definition d_to_s :: "double \<Rightarrow> single" where
  "d_to_s w = (case d_val w of Nan \<Rightarrow> s_nan | Infinite s \<Rightarrow> s_inf s
     | Finite s m e \<Rightarrow> s_round s (scale_n m e) (scale_d e))"

text \<open>\<open>(int)x\<close>: towards zero, saturating, 0 for NaN.\<close>

definition sat32 :: "int \<Rightarrow> int" where
  "sat32 i = max (- (2 ^ 31)) (min (2 ^ 31 - 1) i)"

definition signed_int :: "bool \<Rightarrow> nat \<Rightarrow> int" where
  "signed_int s n = (if s then - int n else int n)"

definition d_to_int :: "double \<Rightarrow> int" where
  "d_to_int w = (case d_val w of Nan \<Rightarrow> 0
     | Infinite s \<Rightarrow> (if s then - (2 ^ 31) else 2 ^ 31 - 1)
     | Finite s m e \<Rightarrow> sat32 (signed_int s (scale_n m e div scale_d e)))"

section \<open>Arithmetic\<close>

definition d_neg :: "double \<Rightarrow> double" where
  "d_neg w = w + 0x8000000000000000"

definition d_abs :: "double \<Rightarrow> double" where
  "d_abs w = of_nat (unat w mod 2 ^ 63)"

text \<open>An exact signed sum \<open>t * 2^e\<close>, rounded; an exact zero is negative only if both were.\<close>

definition d_of_sum :: "bool \<Rightarrow> int \<Rightarrow> int \<Rightarrow> double" where
  "d_of_sum negzero t e =
     (if t = 0 then d_zero negzero
      else d_round (t < 0) (scale_n (nat \<bar>t\<bar>) e) (scale_d e))"

definition d_add :: "double \<Rightarrow> double \<Rightarrow> double" where
  "d_add a b = (case (d_val a, d_val b) of
       (Nan, _) \<Rightarrow> d_nan
     | (_, Nan) \<Rightarrow> d_nan
     | (Infinite s, Infinite t) \<Rightarrow> (if s = t then d_inf s else d_nan)
     | (Infinite s, _) \<Rightarrow> d_inf s
     | (_, Infinite t) \<Rightarrow> d_inf t
     | (Finite s m e, Finite t n f) \<Rightarrow>
         (let g = min e f in
          d_of_sum (s \<and> t)
            (signed_int s (m * 2 ^ nat (e - g)) + signed_int t (n * 2 ^ nat (f - g))) g))"

definition d_sub :: "double \<Rightarrow> double \<Rightarrow> double" where
  "d_sub a b = d_add a (d_neg b)"

definition d_mul :: "double \<Rightarrow> double \<Rightarrow> double" where
  "d_mul a b = (case (d_val a, d_val b) of
       (Nan, _) \<Rightarrow> d_nan
     | (_, Nan) \<Rightarrow> d_nan
     | (Infinite s, Infinite t) \<Rightarrow> d_inf (s \<noteq> t)
     | (Infinite s, Finite t n f) \<Rightarrow> (if n = 0 then d_nan else d_inf (s \<noteq> t))
     | (Finite s m e, Infinite t) \<Rightarrow> (if m = 0 then d_nan else d_inf (s \<noteq> t))
     | (Finite s m e, Finite t n f) \<Rightarrow>
         d_round (s \<noteq> t) (scale_n (m * n) (e + f)) (scale_d (e + f)))"

definition d_div :: "double \<Rightarrow> double \<Rightarrow> double" where
  "d_div a b = (case (d_val a, d_val b) of
       (Nan, _) \<Rightarrow> d_nan
     | (_, Nan) \<Rightarrow> d_nan
     | (Infinite s, Infinite t) \<Rightarrow> d_nan
     | (Infinite s, Finite t n f) \<Rightarrow> d_inf (s \<noteq> t)
     | (Finite s m e, Infinite t) \<Rightarrow> d_zero (s \<noteq> t)
     | (Finite s m e, Finite t n f) \<Rightarrow>
         (if n = 0 then (if m = 0 then d_nan else d_inf (s \<noteq> t))
          else d_round (s \<noteq> t) (scale_n m (e - f)) (n * scale_d (e - f))))"

definition d_floor :: "double \<Rightarrow> double" where
  "d_floor w = (case d_val w of Nan \<Rightarrow> d_nan | Infinite s \<Rightarrow> d_inf s
     | Finite s m e \<Rightarrow>
         (let n = scale_n m e; d = scale_d e in
          if s then d_round True ((n + d - 1) div d) 1 else d_round False (n div d) 1))"

section \<open>Comparisons\<close>

text \<open>Sign of the exact difference; \<open>None\<close> when unordered.\<close>

definition fp_cmp :: "fpval \<Rightarrow> fpval \<Rightarrow> int option" where
  "fp_cmp a b = (case (a, b) of
       (Nan, _) \<Rightarrow> None
     | (_, Nan) \<Rightarrow> None
     | (Infinite s, Infinite t) \<Rightarrow> Some (if s = t then 0 else if s then -1 else 1)
     | (Infinite s, _) \<Rightarrow> Some (if s then -1 else 1)
     | (_, Infinite t) \<Rightarrow> Some (if t then 1 else -1)
     | (Finite s m e, Finite t n f) \<Rightarrow>
         (let g = min e f in
          Some (sgn (signed_int s (m * 2 ^ nat (e - g)) - signed_int t (n * 2 ^ nat (f - g))))))"

definition d_eq :: "double \<Rightarrow> double \<Rightarrow> bool" where
  "d_eq a b \<longleftrightarrow> fp_cmp (d_val a) (d_val b) = Some 0"

definition d_lt :: "double \<Rightarrow> double \<Rightarrow> bool" where
  "d_lt a b \<longleftrightarrow> fp_cmp (d_val a) (d_val b) = Some (-1)"

definition d_le :: "double \<Rightarrow> double \<Rightarrow> bool" where
  "d_le a b \<longleftrightarrow> d_lt a b \<or> d_eq a b"

section \<open>Doubles that are integers\<close>

lemma bitlen_0 [simp]: "bitlen 0 = 0"
  by (simp add: bitlen.simps)

lemma bitlen_pos: "0 < n \<Longrightarrow> bitlen n = Suc (bitlen (n div 2))"
  by (simp add: bitlen.simps [of n])

lemma bitlen_bounds: "0 < n \<Longrightarrow> 2 ^ (bitlen n - 1) \<le> n \<and> n < 2 ^ bitlen n \<and> 0 < bitlen n"
proof (induction n rule: bitlen.induct)
  case (1 n)
  show ?case
  proof (cases "n div 2 = 0")
    case True
    with "1.prems" have "n = 1" by auto
    then show ?thesis by (simp add: bitlen_pos)
  next
    case False
    with "1.IH" "1.prems" have "2 ^ (bitlen (n div 2) - 1) \<le> n div 2" "n div 2 < 2 ^ bitlen (n div 2)"
        "0 < bitlen (n div 2)"
      by auto
    then have "2 * 2 ^ (bitlen (n div 2) - 1) \<le> n" "n < 2 * 2 ^ bitlen (n div 2)" by linarith+
    moreover have "(2::nat) * 2 ^ (bitlen (n div 2) - 1) = 2 ^ bitlen (n div 2)"
      using \<open>0 < bitlen (n div 2)\<close> by (simp flip: power_Suc)
    ultimately show ?thesis using "1.prems" by (simp add: bitlen_pos)
  qed
qed

lemma bitlen_le: "n < 2 ^ k \<Longrightarrow> bitlen n \<le> k"
proof (cases "n = 0")
  case False
  assume "n < 2 ^ k"
  with False bitlen_bounds [of n] have "(2::nat) ^ (bitlen n - 1) < 2 ^ k" by linarith
  then show ?thesis by (simp add: power_strict_increasing_iff)
qed simp

lemma bitlen_double: "0 < n \<Longrightarrow> bitlen (2 * n) = Suc (bitlen n)"
  by (subst bitlen_pos) auto

lemma bitlen_shift: "0 < n \<Longrightarrow> bitlen (n * 2 ^ k) = bitlen n + k"
proof (induction k)
  case (Suc k)
  have "bitlen (2 * (n * 2 ^ k)) = Suc (bitlen (n * 2 ^ k))"
    using Suc.prems by (intro bitlen_double) simp
  with Suc show ?case by (simp add: ac_simps)
qed simp

lemma div_rne_cancel: "0 < c \<Longrightarrow> div_rne (n * c) (d * c) = div_rne n d"
  by (simp add: div_rne_def Let_def mult_mod_left mult.assoc [symmetric] del: mult_Suc mult_Suc_right)

lemma div_rne_one [simp]: "div_rne n (Suc 0) = n"
  by (simp add: div_rne_def)

lemma round_mag_cancel:
  assumes "0 < d"
  shows "round_mag f (n * 2 ^ k) (d * 2 ^ k) = round_mag f n d"
proof (cases "n = 0")
  case True
  then show ?thesis by (simp add: round_mag_def)
next
  case False
  then have e: "ulp_exp f (n * 2 ^ k) (d * 2 ^ k) = ulp_exp f n d"
    using assms by (simp add: ulp_exp_def Let_def bitlen_shift ac_simps)
  have "div_rne (n * 2 ^ k * 2 ^ a) (d * 2 ^ k * 2 ^ b) = div_rne (n * 2 ^ a) (d * 2 ^ b)" for a b
    using div_rne_cancel [of "2 ^ k" "n * 2 ^ a" "d * 2 ^ b"] by (simp add: ac_simps)
  with False show ?thesis by (simp add: round_mag_def Let_def e)
qed

lemma round_mag_exact:
  assumes "0 < n" and "n < 2 ^ 53"
  shows "round_mag dfmt n 1 = (bitlen n + 1021) * 2 ^ 52 + n * 2 ^ (53 - bitlen n)"
proof -
  let ?k = "bitlen n"
  have k: "0 < ?k" "?k \<le> 53" "2 ^ (?k - 1) \<le> n" "n < 2 ^ ?k"
    using bitlen_bounds [OF assms(1)] bitlen_le [OF assms(2)] by auto
  have one: "bitlen (Suc 0) = Suc 0" by (simp add: bitlen_pos)
  have "(2::nat) ^ (?k - 1) * 2 ^ (54 - ?k) = 2 ^ 53"
    using k by (simp flip: power_add)
  with k(3) have ge: "2 ^ 53 \<le> n * 2 ^ (54 - ?k)" by (metis mult_le_mono1)
  have e: "ulp_exp dfmt n 1 = int ?k - 53"
  proof -
    have "nat (- (int ?k - int (Suc 0) - 53)) = 54 - ?k" "nat (int ?k - int (Suc 0) - 53) = 0"
      using k by auto
    with ge k show ?thesis by (simp add: ulp_exp_def Let_def dfmt_def one)
  qed
  have "(n::nat) * 2 ^ (53 - ?k) < 2 ^ ?k * 2 ^ (53 - ?k)" using k by simp
  also have "\<dots> = 2 ^ 53" using k by (simp flip: power_add)
  finally have q: "n * 2 ^ (53 - ?k) < 2 ^ 53" .
  have "nat (- (int ?k - 53)) = 53 - ?k" "nat (int ?k - 53) = 0" "nat (int ?k - 53 + 1074) = ?k + 1021"
    using k by auto
  with e k q show ?thesis using assms(1)
    by (simp add: round_mag_def Let_def dfmt_def)
qed

lemma mag_val_normal:
  assumes "2 ^ 52 \<le> q" and "q < 2 ^ 53" and "E < 2046"
  shows "mag_val dfmt s (E * 2 ^ 52 + q) = Finite s q (int E - 1074)"
proof -
  have q: "q = 2 ^ 52 + (q - 2 ^ 52)" using assms(1) by simp
  have "(E * 2 ^ 52 + q) div 2 ^ 52 = Suc E" "(E * 2 ^ 52 + q) mod 2 ^ 52 = q - 2 ^ 52"
    using assms(2) by (subst q, simp)+
  then show ?thesis using assms by (simp add: mag_val_def dfmt_def Let_def)
qed

text \<open>\<open>w\<close> is a finite double of integral value \<open>i\<close>, below \<open>2^53\<close> in magnitude.\<close>

definition dint :: "double \<Rightarrow> int \<Rightarrow> bool" where
  "dint w i \<longleftrightarrow> \<bar>i\<bar> < 2 ^ 53 \<and>
     (\<exists>s k. d_val w = Finite s (nat \<bar>i\<bar> * 2 ^ k) (- int k) \<and> (i < 0 \<longrightarrow> s) \<and> (0 < i \<longrightarrow> \<not> s))"

lemma unat_of_nat_double: "N < 2 ^ 64 \<Longrightarrow> unat (of_nat N :: double) = N"
  by (simp add: unat_of_nat take_bit_nat_eq_self)

lemma d_round_unat:
  "unat (d_round s n d) = (if s then 2 ^ 63 else 0) + round_mag dfmt n d"
proof -
  have "round_mag dfmt n d \<le> 2047 * 2 ^ 52" by (simp add: round_mag_def dfmt_def Let_def)
  also have "\<dots> < (2::nat) ^ 63" by simp
  finally have "round_mag dfmt n d < 2 ^ 63" .
  then have "(if s then 2 ^ 63 else 0) + round_mag dfmt n d < 2 ^ 64" by simp
  then show ?thesis unfolding d_round_def by (rule unat_of_nat_double)
qed

lemma d_val_round: "d_val (d_round s n d) = mag_val dfmt s (round_mag dfmt n d)"
proof -
  have "round_mag dfmt n d \<le> 2047 * 2 ^ 52" by (simp add: round_mag_def dfmt_def Let_def)
  also have "\<dots> < (2::nat) ^ 63" by simp
  finally have "round_mag dfmt n d < 2 ^ 63" .
  then show ?thesis by (simp add: d_val_def d_round_unat)
qed

lemma d_val_round_exact:
  assumes "0 < n" and "n < 2 ^ 53"
  shows "d_val (d_round s n 1) = Finite s (n * 2 ^ (53 - bitlen n)) (int (bitlen n) - 53)"
proof -
  let ?k = "bitlen n"
  have k: "0 < ?k" "?k \<le> 53" "2 ^ (?k - 1) \<le> n" "n < 2 ^ ?k"
    using bitlen_bounds [OF assms(1)] bitlen_le [OF assms(2)] by auto
  have "(2::nat) ^ 52 = 2 ^ (?k - 1) * 2 ^ (53 - ?k)" using k by (simp flip: power_add)
  with k(3) have lo: "2 ^ 52 \<le> n * 2 ^ (53 - ?k)" by (metis mult_le_mono1)
  have "(n::nat) * 2 ^ (53 - ?k) < 2 ^ ?k * 2 ^ (53 - ?k)" using k by simp
  also have "\<dots> = 2 ^ 53" using k by (simp flip: power_add)
  finally have hi: "n * 2 ^ (53 - ?k) < 2 ^ 53" .
  show ?thesis
    unfolding d_val_round round_mag_exact [OF assms]
    using mag_val_normal [OF lo hi, of "?k + 1021" s] k by simp
qed

lemma dint_0I: "d_val w = Finite s 0 (- int k) \<Longrightarrow> dint w 0"
  by (auto simp: dint_def)

lemma dint_round:
  assumes "n < 2 ^ 53"
  shows "dint (d_round s n 1) (signed_int s n)"
proof (cases "n = 0")
  case True
  have "d_val (d_round s 0 1) = Finite s 0 (- int 1074)"
    by (simp add: d_val_round round_mag_def mag_val_def dfmt_def Let_def)
  then have "dint (d_round s 0 1) 0" by (rule dint_0I)
  with True show ?thesis by (cases s) (simp_all add: signed_int_def)
next
  case False
  then have k: "bitlen n \<le> 53" "int (bitlen n) - 53 = - int (53 - bitlen n)"
    using assms bitlen_le [of n 53] by auto
  have abs: "nat \<bar>signed_int s n\<bar> = n" by (simp add: signed_int_def)
  have "d_val (d_round s n 1) = Finite s (nat \<bar>signed_int s n\<bar> * 2 ^ (53 - bitlen n)) (- int (53 - bitlen n))"
    unfolding abs k(2) [symmetric] using False assms by (intro d_val_round_exact) auto
  moreover have "(signed_int s n < 0 \<longrightarrow> s) \<and> (0 < signed_int s n \<longrightarrow> \<not> s)" "\<bar>signed_int s n\<bar> < 2 ^ 53"
    using assms by (auto simp: signed_int_def)
  ultimately show ?thesis unfolding dint_def by blast
qed

lemma dint_of_int:
  assumes "\<bar>i\<bar> < 2 ^ 53"
  shows "dint (d_of_int i) i"
proof -
  have "nat \<bar>i\<bar> < 2 ^ 53" using assms by simp
  moreover have "signed_int (i < 0) (nat \<bar>i\<bar>) = i" by (simp add: signed_int_def)
  ultimately show ?thesis using dint_round [of "nat \<bar>i\<bar>" "i < 0"] by (simp add: d_of_int_def)
qed

lemma dintE:
  assumes "dint w i"
  obtains s k where "d_val w = Finite s (nat \<bar>i\<bar> * 2 ^ k) (- int k)" "\<And>c. signed_int s (nat \<bar>i\<bar> * c) = i * int c"
proof -
  from assms obtain s k where v: "d_val w = Finite s (nat \<bar>i\<bar> * 2 ^ k) (- int k)"
    and s: "i < 0 \<longrightarrow> s" "0 < i \<longrightarrow> \<not> s" by (auto simp: dint_def)
  have "signed_int s (nat \<bar>i\<bar> * c) = i * int c" for c
    using s by (cases "i = 0") (auto simp: signed_int_def)
  with v that show ?thesis by blast
qed

lemma dint_bound: "dint w i \<Longrightarrow> \<bar>i\<bar> < 2 ^ 53"
  by (simp add: dint_def)

lemma scale_neg: "scale_n m (- int k) = m" "scale_d (- int k) = 2 ^ k"
  by (simp_all add: scale_n_def scale_d_def)

lemma d_to_int_dint:
  assumes "dint w i"
  shows "d_to_int w = sat32 i"
proof -
  obtain s k where "d_val w = Finite s (nat \<bar>i\<bar> * 2 ^ k) (- int k)"
    and "\<And>c. signed_int s (nat \<bar>i\<bar> * c) = i * int c"
    by (rule dintE [OF assms]) (rule that)
  from this(1) this(2) [of 1] show ?thesis by (simp add: d_to_int_def scale_neg)
qed

lemma fp_cmp_dint:
  assumes "dint a i" and "dint b j"
  shows "fp_cmp (d_val a) (d_val b) = Some (sgn (i - j))"
proof -
  obtain s k where a: "d_val a = Finite s (nat \<bar>i\<bar> * 2 ^ k) (- int k)"
    and si: "\<And>c. signed_int s (nat \<bar>i\<bar> * c) = i * int c"
    by (rule dintE [OF assms(1)]) (rule that)
  obtain t l where b: "d_val b = Finite t (nat \<bar>j\<bar> * 2 ^ l) (- int l)"
    and sj: "\<And>c. signed_int t (nat \<bar>j\<bar> * c) = j * int c"
    by (rule dintE [OF assms(2)]) (rule that)
  define g where "g = max k l"
  have g: "min (- int k) (- int l) = - int g" "nat (int g - int k) = g - k" "nat (int g - int l) = g - l"
    "k + (g - k) = g" "l + (g - l) = g" by (auto simp: g_def)
  have "sgn (i * 2 ^ g - j * 2 ^ g) = sgn (i - j)"
    by (simp add: sgn_mult flip: left_diff_distrib)
  then show ?thesis
    by (simp add: a b fp_cmp_def g Let_def mult.assoc si sj flip: power_add)
qed

lemma d_eq_dint: "dint a i \<Longrightarrow> dint b j \<Longrightarrow> d_eq a b \<longleftrightarrow> i = j"
  by (simp add: d_eq_def fp_cmp_dint sgn_0_0)

lemma d_lt_dint: "dint a i \<Longrightarrow> dint b j \<Longrightarrow> d_lt a b \<longleftrightarrow> i < j"
  by (simp add: d_lt_def fp_cmp_dint sgn_if)

lemma d_le_dint: "dint a i \<Longrightarrow> dint b j \<Longrightarrow> d_le a b \<longleftrightarrow> i \<le> j"
  by (auto simp: d_le_def d_lt_dint d_eq_dint)

lemma dint_zero: "dint (d_zero s) 0"
proof -
  have "d_val (d_zero s) = Finite s 0 (- int 1074)"
    by (simp add: d_zero_def d_val_def mag_val_def dfmt_def Let_def)
  then show ?thesis by (rule dint_0I)
qed

lemma d_round_cancel: "d_round s (n * 2 ^ k) (2 ^ k) = d_round s n 1"
  using round_mag_cancel [of 1 dfmt n k] by (simp add: d_round_def)

lemma dint_add:
  assumes "dint a i" and "dint b j" and "\<bar>i + j\<bar> < 2 ^ 53"
  shows "dint (d_add a b) (i + j)"
proof -
  obtain s k where a: "d_val a = Finite s (nat \<bar>i\<bar> * 2 ^ k) (- int k)"
    and si: "\<And>c. signed_int s (nat \<bar>i\<bar> * c) = i * int c"
    by (rule dintE [OF assms(1)]) (rule that)
  obtain t l where b: "d_val b = Finite t (nat \<bar>j\<bar> * 2 ^ l) (- int l)"
    and sj: "\<And>c. signed_int t (nat \<bar>j\<bar> * c) = j * int c"
    by (rule dintE [OF assms(2)]) (rule that)
  define g where "g = max k l"
  have g: "min (- int k) (- int l) = - int g" "nat (int g - int k) = g - k" "nat (int g - int l) = g - l"
    "k + (g - k) = g" "l + (g - l) = g" by (auto simp: g_def)
  have sum: "d_add a b = d_of_sum (s \<and> t) ((i + j) * 2 ^ g) (- int g)"
    by (simp add: a b d_add_def g Let_def mult.assoc si sj distrib_right flip: power_add)
  show ?thesis
  proof (cases "i + j = 0")
    case True
    with sum dint_zero show ?thesis by (simp add: d_of_sum_def)
  next
    case False
    have "nat \<bar>(i + j) * 2 ^ g\<bar> = nat \<bar>i + j\<bar> * 2 ^ g"
      by (simp add: abs_mult nat_mult_distrib nat_power_eq)
    then have "d_add a b = d_of_int (i + j)"
      using False sum by (simp add: d_of_sum_def d_of_int_def scale_neg d_round_cancel mult_less_0_iff)
    with dint_of_int [OF assms(3)] show ?thesis by simp
  qed
qed

lemma dint_floor:
  assumes "dint w i"
  shows "dint (d_floor w) i"
proof -
  obtain s k where v: "d_val w = Finite s (nat \<bar>i\<bar> * 2 ^ k) (- int k)"
    and si: "\<And>c. signed_int s (nat \<bar>i\<bar> * c) = i * int c"
    by (rule dintE [OF assms]) (rule that)
  have "(nat \<bar>i\<bar> * 2 ^ k + 2 ^ k - 1) div 2 ^ k = nat \<bar>i\<bar>"
    by (simp add: div_add_self2 less_eq_Suc_le flip: add_diff_assoc)
  then have "d_floor w = d_round s (nat \<bar>i\<bar>) 1"
    by (simp add: d_floor_def v scale_neg Let_def)
  moreover have "nat \<bar>i\<bar> < 2 ^ 53" using dint_bound [OF assms] by simp
  ultimately show ?thesis using dint_round [of "nat \<bar>i\<bar>" s] si [of 1] by simp
qed

section \<open>Negation\<close>

lemma mag_val_sign: "mag_val f s b = Finite s' m e \<Longrightarrow> s' = s \<and> mag_val f t b = Finite t m e"
  by (auto simp: mag_val_def Let_def split: if_splits)

lemma d_val_neg: "d_val w = Finite s m e \<Longrightarrow> d_val (d_neg w) = Finite (\<not> s) m e"
proof -
  assume a: "d_val w = Finite s m e"
  have lt: "unat w < 2 ^ 64" using unsigned_less [of w] by simp
  have u: "unat (d_neg w) = (unat w + 2 ^ 63) mod 2 ^ 64"
    by (simp add: d_neg_def unat_word_ariths)
  have "(2 ^ 63 \<le> unat (d_neg w)) = (\<not> 2 ^ 63 \<le> unat w) \<and> unat (d_neg w) mod 2 ^ 63 = unat w mod 2 ^ 63"
  proof (cases "2 ^ 63 \<le> unat w")
    case True
    then obtain r where r: "unat w = 2 ^ 63 + r" using le_Suc_ex by blast
    with lt have "r < 2 ^ 63" by simp
    moreover from this u r have "unat (d_neg w) = r" by simp
    ultimately show ?thesis using r by simp
  next
    case False
    with u have "unat (d_neg w) = unat w + 2 ^ 63" by simp
    with False show ?thesis by simp
  qed
  with a show ?thesis
    using mag_val_sign [of dfmt "2 ^ 63 \<le> unat w" "unat w mod 2 ^ 63" s m e "\<not> 2 ^ 63 \<le> unat w"]
    unfolding d_val_def by simp
qed

lemma d_sub_self: "d_val w = Finite s m e \<Longrightarrow> d_sub w w = d_zero False"
  by (simp add: d_sub_def d_add_def d_val_neg Let_def signed_int_def d_of_sum_def)

section \<open>Arithmetic on canonical integers\<close>

lemma d_val_of_int:
  assumes "\<bar>i\<bar> < 2 ^ 53"
  shows "\<exists>k. d_val (d_of_int i) = Finite (i < 0) (nat \<bar>i\<bar> * 2 ^ k) (- int k)"
proof (cases "i = 0")
  case True
  have "d_val (d_of_int 0) = Finite False 0 (- int 1074)"
    by (simp add: d_of_int_def d_val_round round_mag_def mag_val_def dfmt_def Let_def)
  with True show ?thesis by (intro exI [of _ 1074]) simp
next
  case False
  then have "0 < nat \<bar>i\<bar>" "nat \<bar>i\<bar> < 2 ^ 53" using assms by auto
  note v = d_val_round_exact [OF this, of "i < 0"]
  have e: "int (bitlen (nat \<bar>i\<bar>)) - 53 = - int (53 - bitlen (nat \<bar>i\<bar>))"
    using bitlen_le [OF \<open>nat \<bar>i\<bar> < 2 ^ 53\<close>] by linarith
  show ?thesis unfolding d_of_int_def v e by blast
qed

lemma signed_int_abs: "(i < 0 \<longrightarrow> s) \<Longrightarrow> (0 < i \<longrightarrow> \<not> s) \<Longrightarrow> signed_int s (nat \<bar>i\<bar> * c) = i * int c"
  by (cases "i = 0") (auto simp: signed_int_def)

lemma d_add_exact:
  assumes a: "d_val a = Finite s (nat \<bar>i\<bar> * 2 ^ k) (- int k)" and si: "i < 0 \<longrightarrow> s" "0 < i \<longrightarrow> \<not> s"
    and b: "d_val b = Finite t (nat \<bar>j\<bar> * 2 ^ l) (- int l)" and sj: "j < 0 \<longrightarrow> t" "0 < j \<longrightarrow> \<not> t"
  shows "d_add a b = (if i + j = 0 then d_zero (s \<and> t) else d_of_int (i + j))"
proof -
  define g where "g = max k l"
  have g: "min (- int k) (- int l) = - int g" "nat (int g - int k) = g - k" "nat (int g - int l) = g - l"
    "k + (g - k) = g" "l + (g - l) = g" by (auto simp: g_def)
  have "d_add a b = d_of_sum (s \<and> t) ((i + j) * 2 ^ g) (- int g)"
    by (simp add: a b d_add_def g Let_def mult.assoc signed_int_abs si sj distrib_right flip: power_add)
  moreover have "nat \<bar>(i + j) * 2 ^ g\<bar> = nat \<bar>i + j\<bar> * 2 ^ g"
    by (simp add: abs_mult nat_mult_distrib nat_power_eq)
  ultimately show ?thesis
    by (simp add: d_of_sum_def d_of_int_def scale_neg d_round_cancel mult_less_0_iff)
qed

lemma d_of_int_0: "d_of_int 0 = d_zero False"
  by (simp add: d_of_int_def d_round_def round_mag_def d_zero_def)

lemma d_add_of_int:
  assumes "\<bar>i\<bar> < 2 ^ 53" and "\<bar>j\<bar> < 2 ^ 53"
  shows "d_add (d_of_int i) (d_of_int j) = d_of_int (i + j)"
proof -
  obtain k l where "d_val (d_of_int i) = Finite (i < 0) (nat \<bar>i\<bar> * 2 ^ k) (- int k)"
    "d_val (d_of_int j) = Finite (j < 0) (nat \<bar>j\<bar> * 2 ^ l) (- int l)"
    using d_val_of_int [OF assms(1)] d_val_of_int [OF assms(2)] by blast
  from d_add_exact [OF this(1) _ _ this(2)]
  have "d_add (d_of_int i) (d_of_int j) = (if i + j = 0 then d_zero (i < 0 \<and> j < 0) else d_of_int (i + j))"
    by simp
  moreover have "d_zero (i < 0 \<and> j < 0) = d_of_int (i + j)" if "i + j = 0"
    using that by (auto simp: d_of_int_0 intro: arg_cong [where f = d_zero])
  ultimately show ?thesis by presburger
qed

lemma d_sub_of_int:
  assumes "\<bar>i\<bar> < 2 ^ 53" and "\<bar>j\<bar> < 2 ^ 53"
  shows "d_sub (d_of_int i) (d_of_int j) = d_of_int (i - j)"
proof -
  obtain k l where v: "d_val (d_of_int i) = Finite (i < 0) (nat \<bar>i\<bar> * 2 ^ k) (- int k)"
    "d_val (d_of_int j) = Finite (j < 0) (nat \<bar>j\<bar> * 2 ^ l) (- int l)"
    using d_val_of_int [OF assms(1)] d_val_of_int [OF assms(2)] by blast
  have "d_val (d_neg (d_of_int j)) = Finite (\<not> j < 0) (nat \<bar>- j\<bar> * 2 ^ l) (- int l)"
    using d_val_neg [OF v(2)] by simp
  from d_add_exact [OF v(1) _ _ this]
  have "d_sub (d_of_int i) (d_of_int j) = (if i - j = 0 then d_zero (i < 0 \<and> \<not> j < 0) else d_of_int (i - j))"
    by (auto simp: d_sub_def)
  moreover have "d_zero (i < 0 \<and> \<not> j < 0) = d_of_int (i - j)" if "i - j = 0"
    using that by (auto simp: d_of_int_0 intro: arg_cong [where f = d_zero])
  ultimately show ?thesis by presburger
qed

lemma d_floor_of_int:
  assumes "\<bar>i\<bar> < 2 ^ 53"
  shows "d_floor (d_of_int i) = d_of_int i"
proof -
  obtain k where v: "d_val (d_of_int i) = Finite (i < 0) (nat \<bar>i\<bar> * 2 ^ k) (- int k)"
    using d_val_of_int [OF assms] by blast
  have up: "(n * 2 ^ k + 2 ^ k - 1) div 2 ^ k = n" for n :: nat
    by (simp add: div_add_self2 less_eq_Suc_le flip: add_diff_assoc)
  show ?thesis
    by (simp only: d_floor_def v fpval.case scale_neg Let_def up) (simp add: d_of_int_def)
qed

lemma d_neg_of_int:
  assumes "\<bar>i\<bar> < 2 ^ 53" and "i \<noteq> 0"
  shows "d_neg (d_of_int i) = d_of_int (- i)"
proof -
  have "d_round (i < 0) (nat \<bar>i\<bar>) 1 + 0x8000000000000000 = d_round (- i < 0) (nat \<bar>i\<bar>) 1"
  proof (cases "i < 0")
    case True
    then show ?thesis by (simp add: d_round_def)
  next
    case False
    with assms(2) show ?thesis by (simp add: d_round_def add.commute)
  qed
  then show ?thesis by (simp add: d_neg_def d_of_int_def)
qed

lemma d_to_int_of_int: "- (2 ^ 31) \<le> i \<Longrightarrow> i < 2 ^ 31 \<Longrightarrow> d_to_int (d_of_int i) = i"
  by (subst d_to_int_dint [OF dint_of_int]) (auto simp: sat32_def)

lemma d_cmp_of_int:
  assumes "\<bar>i\<bar> < 2 ^ 53" and "\<bar>j\<bar> < 2 ^ 53"
  shows "d_lt (d_of_int i) (d_of_int j) \<longleftrightarrow> i < j" and "d_le (d_of_int i) (d_of_int j) \<longleftrightarrow> i \<le> j"
    and "d_eq (d_of_int i) (d_of_int j) \<longleftrightarrow> i = j"
  using assms by (simp_all add: d_lt_dint d_le_dint d_eq_dint dint_of_int)

lemmas d_int_arith = d_add_of_int d_sub_of_int d_floor_of_int d_to_int_of_int d_cmp_of_int

end
