(* ===== verification/C_Lib.thy ===== *)
theory C_Lib
  imports C_Float
begin

text \<open>
  The parts of the C library the program uses on text, in the "C" locale: character classes,
  decimal printing (\<open>%d\<close>, \<open>%.nf\<close>), \<open>atoi\<close>, \<open>strtod\<close> and \<open>atof\<close>. A C string is a \<open>string\<close>
  without its NUL; the end of the list is the terminator, which no function reads past.
\<close>

section \<open>Character classes\<close>

definition isdigit :: "char \<Rightarrow> bool" where
  "isdigit c \<longleftrightarrow> CHR ''0'' \<le> c \<and> c \<le> CHR ''9''"

definition isupper :: "char \<Rightarrow> bool" where
  "isupper c \<longleftrightarrow> CHR ''A'' \<le> c \<and> c \<le> CHR ''Z''"

definition isxdigit :: "char \<Rightarrow> bool" where
  "isxdigit c \<longleftrightarrow> isdigit c \<or> (CHR ''a'' \<le> c \<and> c \<le> CHR ''f'')
     \<or> (CHR ''A'' \<le> c \<and> c \<le> CHR ''F'')"

definition isspace :: "char \<Rightarrow> bool" where
  "isspace c \<longleftrightarrow> c = CHR '' '' \<or> (CHR 0x09 \<le> c \<and> c \<le> CHR 0x0D)"

definition tolower :: "char \<Rightarrow> char" where
  "tolower c = (if isupper c then char_of (of_char c + 32 :: nat) else c)"

definition skip_space :: "string \<Rightarrow> string" where
  "skip_space s = dropWhile isspace s"

lemma skip_space_length: "length (skip_space s) \<le> length s"
  by (simp add: skip_space_def length_dropWhile_le)

section \<open>Decimal numbers\<close>

definition digit_char :: "nat \<Rightarrow> char" where
  "digit_char d = char_of (48 + d)"

definition digit_val :: "char \<Rightarrow> nat" where
  "digit_val c = of_char c - 48"

fun show_nat :: "nat \<Rightarrow> string" where
  "show_nat n = (if n < 10 then [digit_char n] else show_nat (n div 10) @ [digit_char (n mod 10)])"

declare show_nat.simps [simp del]

definition show_int :: "int \<Rightarrow> string" where
  "show_int i = (if i < 0 then CHR ''-'' # show_nat (nat (- i)) else show_nat (nat i))"

definition read_digits :: "nat \<Rightarrow> string \<Rightarrow> nat" where
  "read_digits = foldl (\<lambda>n c. 10 * n + digit_val c)"

text \<open>\<open>%.nf\<close>: the exact value rounded to \<open>n\<close> places, ties to even, as the GNU library prints it.\<close>

definition fixed_digits :: "nat \<Rightarrow> nat \<Rightarrow> string" where
  "fixed_digits n k =
     (let ds = show_nat k; ds = replicate (Suc n - length ds) (CHR ''0'') @ ds in
      take (length ds - n) ds @ (if n = 0 then '''' else CHR ''.'' # drop (length ds - n) ds))"

definition fmt_fixed :: "nat \<Rightarrow> double \<Rightarrow> string" where
  "fmt_fixed n w =
     (let sg = (if 2 ^ 63 \<le> unat w then ''-'' else '''') in
      case d_val w of
        Nan \<Rightarrow> sg @ ''nan''
      | Infinite s \<Rightarrow> sg @ ''inf''
      | Finite s m e \<Rightarrow> sg @ fixed_digits n (div_rne (scale_n m e * 10 ^ n) (scale_d e)))"

section \<open>\<open>atoi\<close>\<close>

text \<open>\<open>(int)strtol(s, NULL, 10)\<close> with a 32-bit \<open>long\<close>: the value saturates.\<close>

definition split_sign :: "string \<Rightarrow> bool \<times> string" where
  "split_sign s = (case s of
       c # t \<Rightarrow> if c = CHR ''-'' then (True, t) else if c = CHR ''+'' then (False, t) else (False, s)
     | [] \<Rightarrow> (False, s))"

definition atoi :: "string \<Rightarrow> int" where
  "atoi s = (let (neg, t) = split_sign (skip_space s);
                 n = read_digits 0 (takeWhile isdigit t)
             in sat32 (signed_int neg n))"

section \<open>\<open>strtod\<close> and \<open>atof\<close>\<close>

text \<open>Case-insensitive prefix (the second string is in lower case).\<close>

fun has_prefix_ci :: "string \<Rightarrow> string \<Rightarrow> bool" where
  "has_prefix_ci s [] \<longleftrightarrow> True"
| "has_prefix_ci [] (p # ps) \<longleftrightarrow> False"
| "has_prefix_ci (c # s) (p # ps) \<longleftrightarrow> tolower c = p \<and> has_prefix_ci s ps"

text \<open>An optional exponent: letter, sign and at least one digit; otherwise nothing is consumed.\<close>

definition read_exponent :: "char \<Rightarrow> string \<Rightarrow> int \<times> string" where
  "read_exponent letter s = (case s of
       [] \<Rightarrow> (0, s)
     | c # t \<Rightarrow>
         if tolower c = letter then
           let (neg, u) = split_sign t; ds = takeWhile isdigit u in
           if ds = [] then (0, s)
           else (signed_int neg (read_digits 0 ds), dropWhile isdigit u)
         else (0, s))"

definition hex_val :: "char \<Rightarrow> nat" where
  "hex_val c = (if isdigit c then of_char c - 48 else of_char (tolower c) - 87)"

text \<open>Digits, an optional point and digits: the integer they spell, the number of digits behind the
  point, whether there was a digit at all, and the rest.\<close>

definition read_mantissa :: "(char \<Rightarrow> bool) \<Rightarrow> (char \<Rightarrow> nat) \<Rightarrow> nat \<Rightarrow> string \<Rightarrow> nat \<times> nat \<times> bool \<times> string" where
  "read_mantissa dig val base s =
     (let i = takeWhile dig s; r = dropWhile dig s;
          (f, r') = (case r of
              c # t \<Rightarrow> if c = CHR ''.'' \<and> (i \<noteq> [] \<or> takeWhile dig t \<noteq> [])
                       then (takeWhile dig t, dropWhile dig t) else ([], r)
            | [] \<Rightarrow> ([], r));
          n = foldl (\<lambda>n c. base * n + val c) 0 (i @ f)
      in (n, length f, i @ f \<noteq> [], r'))"

definition pow_ratio :: "nat \<Rightarrow> int \<Rightarrow> nat \<times> nat" where
  "pow_ratio b e = (b ^ nat e, b ^ nat (- e))"

definition strtod_hex :: "bool \<Rightarrow> string \<Rightarrow> double \<times> string" where
  "strtod_hex neg s =
     (let (n, k, ok, r) = read_mantissa isxdigit hex_val 16 s;
          (e, r') = read_exponent (CHR ''p'') r;
          (a, b) = pow_ratio 2 (e - 4 * int k)
      in (d_round neg (n * a) b, r'))"

definition strtod_dec :: "bool \<Rightarrow> string \<Rightarrow> double \<times> string" where
  "strtod_dec neg s =
     (let (n, k, ok, r) = read_mantissa isdigit digit_val 10 s;
          (e, r') = read_exponent (CHR ''e'') r;
          (a, b) = pow_ratio 10 (e - int k)
      in (d_round neg (n * a) b, r'))"

definition isnanchar :: "char \<Rightarrow> bool" where
  "isnanchar c \<longleftrightarrow> isdigit c \<or> isupper c \<or> (CHR ''a'' \<le> c \<and> c \<le> CHR ''z'') \<or> c = CHR ''_''"

definition nan_tail :: "string \<Rightarrow> string" where
  "nan_tail s = (case s of
       c # t \<Rightarrow>
         if c = CHR ''('' then
           (case dropWhile isnanchar t of
              d # u \<Rightarrow> if d = CHR '')'' then u else s
            | [] \<Rightarrow> s)
         else s
     | [] \<Rightarrow> [])"

text \<open>The subject sequence after the sign: hexadecimal, decimal, infinity or NaN (\<open>None\<close>: none).\<close>

definition strtod_unsigned :: "bool \<Rightarrow> string \<Rightarrow> (double \<times> string) option" where
  "strtod_unsigned neg s =
     (if has_prefix_ci s ''0x'' \<and> fst (snd (snd (read_mantissa isxdigit hex_val 16 (drop 2 s))))
      then Some (strtod_hex neg (drop 2 s))
      else if fst (snd (snd (read_mantissa isdigit digit_val 10 s))) then Some (strtod_dec neg s)
      else if has_prefix_ci s ''infinity'' then Some (d_inf neg, drop 8 s)
      else if has_prefix_ci s ''inf'' then Some (d_inf neg, drop 3 s)
      else if has_prefix_ci s ''nan'' then
        Some (if neg then d_neg d_nan else d_nan, nan_tail (drop 3 s))
      else None)"

definition strtod :: "string \<Rightarrow> double \<times> string" where
  "strtod s =
     (let (neg, t) = split_sign (skip_space s) in
      case strtod_unsigned neg t of Some (d, r) \<Rightarrow> (d, r) | None \<Rightarrow> (0, s))"

definition atof :: "string \<Rightarrow> double" where
  "atof s = fst (strtod s)"

section \<open>Printed numbers\<close>

lemma show_nat_length: "n < 10 ^ k \<Longrightarrow> 0 < k \<Longrightarrow> length (show_nat n) \<le> k"
proof (induction n arbitrary: k rule: show_nat.induct)
  case (1 n)
  show ?case
  proof (cases "n < 10")
    case False
    with 1(2) obtain j where k: "k = Suc j" "0 < j" by (cases k; cases "k - 1") auto
    then have "n div 10 < 10 ^ j" using 1(2) by (simp add: less_mult_imp_div_less mult.commute)
    with 1(1) [OF False this k(2)] show ?thesis using False k by (simp add: show_nat.simps [of n])
  qed (use 1(3) in \<open>simp add: show_nat.simps [of n]\<close>)
qed

lemma fixed_digits_0: "fixed_digits 0 k = show_nat k"
proof -
  have "show_nat k \<noteq> []" by (cases "k < 10") (simp_all add: show_nat.simps [of k])
  then have "Suc 0 - length (show_nat k) = 0" by (cases "show_nat k") simp_all
  then show ?thesis by (simp add: fixed_digits_def Let_def)
qed

lemma d_val_bounds: "d_val w = Finite s m e \<Longrightarrow> s = (2 ^ 63 \<le> unat w) \<and> m < 2 ^ 53 \<and> e \<le> 971"
proof -
  assume "d_val w = Finite s m e"
  moreover have "unat w mod 2 ^ 63 div 2 ^ 52 < 2048" by (simp add: less_mult_imp_div_less)
  moreover have "x mod 2 ^ 52 < 2 ^ 52" for x :: nat by simp
  ultimately show ?thesis
    unfolding d_val_def mag_val_def dfmt_def Let_def
    by (auto split: if_splits)
qed

lemma div_rne_le: "div_rne n d \<le> n div d + 1"
  by (simp add: div_rne_def Let_def)

lemma fmt_fixed_0_length: "length (fmt_fixed 0 w) \<le> 311"
proof (cases "d_val w")
  case (Finite s m e)
  note b = d_val_bounds [OF Finite]
  have "div_rne (scale_n m e * 10 ^ 0) (scale_d e) \<le> scale_n m e + 1"
    using div_rne_le [of "scale_n m e * 10 ^ 0" "scale_d e"] div_le_dividend [of "scale_n m e * 10 ^ 0" "scale_d e"]
    by (simp del: div_le_dividend)
  also have "scale_n m e \<le> 2 ^ 53 * 2 ^ 971"
    unfolding scale_n_def using b by (intro mult_mono power_increasing) auto
  finally have "div_rne (scale_n m e * 10 ^ 0) (scale_d e) \<le> 2 ^ 53 * 2 ^ 971 + 1" by simp
  also have "\<dots> < 10 ^ 310" by simp
  finally have "length (show_nat (div_rne (scale_n m e * 10 ^ 0) (scale_d e))) \<le> 310" by (intro show_nat_length) auto
  then show ?thesis by (simp add: fmt_fixed_def Finite fixed_digits_0)
qed (simp_all add: fmt_fixed_def)

lemma fmt_fixed_of_int:
  assumes "0 \<le> i" and "i < 2 ^ 53"
  shows "fmt_fixed 0 (d_of_int i) = show_nat (nat i)"
proof -
  obtain k where v: "d_val (d_of_int i) = Finite (i < 0) (nat \<bar>i\<bar> * 2 ^ k) (- int k)"
    using d_val_of_int [of i] assms by auto
  have "\<not> 2 ^ 63 \<le> unat (d_of_int i)" using d_val_bounds [OF v] assms by simp
  moreover have "div_rne (nat i * 2 ^ k) (2 ^ k) = nat i" by (simp add: div_rne_def Let_def)
  ultimately show ?thesis using assms
    by (simp add: fmt_fixed_def v scale_n_def scale_d_def fixed_digits_0)
qed

lemma digit_char_not_NUL: "d < 10 \<Longrightarrow> digit_char d \<noteq> NUL"
  by (simp add: digit_char_def char_of_eq_iff take_bit_eq_mod)

lemma show_nat_nul_free [simp]: "nul_free (show_nat n)"
proof (induction n rule: show_nat.induct)
  case (1 n)
  then show ?case
    by (subst show_nat.simps) (use digit_char_not_NUL [of n] digit_char_not_NUL [of "n mod 10"] in auto)
qed

lemma fixed_digits_nul_free [simp]: "nul_free (fixed_digits n k)"
proof -
  let ?ds = "replicate (Suc n - length (show_nat k)) (CHR ''0'') @ show_nat k"
  have "NUL \<notin> set ?ds" using show_nat_nul_free [of k] by (auto simp: nul_free_def)
  then show ?thesis
    by (auto simp: fixed_digits_def Let_def nul_free_def dest: in_set_takeD in_set_dropD)
qed

lemma fmt_fixed_nul_free [simp]: "nul_free (fmt_fixed n w)"
  by (auto simp: fmt_fixed_def Let_def split: fpval.split)

lemma unat_lt_256: "unat (b :: byte) < 256"
proof -
  have "unat b < 2 ^ LENGTH(8)" by (rule unsigned_less)
  then show ?thesis by simp
qed

lemma unat_lt_65536: "unat (w :: 16 word) < 65536"
proof -
  have "unat w < 2 ^ LENGTH(16)" by (rule unsigned_less)
  then show ?thesis by simp
qed

lemma digit_char_props:
  assumes "d < 10"
  shows "isdigit (digit_char d)" and "digit_val (digit_char d) = d"
    and "digit_char d = CHR ''0'' \<longleftrightarrow> d = 0"
proof -
  have "d \<in> {0,1,2,3,4,5,6,7,8,9}" using assms by auto
  then show "isdigit (digit_char d)" and "digit_val (digit_char d) = d"
    and "digit_char d = CHR ''0'' \<longleftrightarrow> d = 0"
    by (auto simp: digit_char_def digit_val_def isdigit_def less_eq_char_def char_of_eq_iff
        take_bit_eq_mod)
qed

lemma show_nat_digits: "\<forall>c \<in> set (show_nat n). isdigit c"
proof (induction n rule: show_nat.induct)
  case (1 n)
  then show ?case by (subst show_nat.simps) (auto simp: digit_char_props)
qed

lemma show_nat_not_Nil [simp]: "show_nat n \<noteq> []"
  by (subst show_nat.simps) simp

lemma show_nat_no_sign: "take 1 (show_nat n) \<noteq> ''-''"
proof
  assume "take 1 (show_nat n) = ''-''"
  then have "CHR ''-'' \<in> set (show_nat n)" by (metis in_set_takeD list.set_intros(1))
  then show False using show_nat_digits [of n] by (auto simp: isdigit_def less_eq_char_def)
qed

lemma show_nat_long: "10 ^ k \<le> n \<Longrightarrow> k < length (show_nat n)"
proof (induction k arbitrary: n)
  case 0
  then show ?case by (subst show_nat.simps) simp
next
  case (Suc k)
  have "10 ^ 1 \<le> (10 :: nat) ^ Suc k" by (rule power_increasing) simp_all
  then have n: "\<not> n < 10" "10 ^ k \<le> n div 10"
    using order_trans [of "10 ^ 1" "10 ^ Suc k" n] Suc.prems by (auto simp: less_eq_div_iff_mult_less_eq mult.commute)
  with Suc.IH [OF n(2)] show ?case by (subst show_nat.simps) simp
qed

end
