(* ===== verification/Crc_Frame.thy ===== *)
theory Crc_Frame
  imports C_Lib
begin

unbundle bit_operations_syntax

text \<open>
  The byte level of the receiver protocol in \<^verbatim>\<open>src/oem6/deco.c\<close>: little-endian fields of a raw
  buffer, the checksum and the synchronisation window.
\<close>

section \<open>Fields\<close>

text \<open>\<open>U1\<close> .. \<open>R8\<close> copy bytes out of the buffer (the target is little-endian); a copy that leaves
  the buffer is undefined.\<close>

definition OEM4SYNC1 :: byte where "OEM4SYNC1 = 0xAA"
definition OEM4SYNC2 :: byte where "OEM4SYNC2 = 0x44"
definition OEM4SYNC3 :: byte where "OEM4SYNC3 = 0x12"
definition OEM4HLEN :: nat where "OEM4HLEN = 28"
definition MAXRAWLEN :: nat where "MAXRAWLEN = 4096"

definition copy_bytes :: "byte list \<Rightarrow> nat \<Rightarrow> nat \<Rightarrow> byte list option" where
  "copy_bytes b i n = (if i + n \<le> length b then Some (take n (drop i b)) else None)"

fun le_nat :: "byte list \<Rightarrow> nat" where
  "le_nat [] = 0"
| "le_nat (b # bs) = unat b + 256 * le_nat bs"

definition U1 :: "byte list \<Rightarrow> nat \<Rightarrow> byte option" where
  "U1 b i = rd b i"

definition U2 :: "byte list \<Rightarrow> nat \<Rightarrow> 16 word option" where
  "U2 b i = map_option (of_nat \<circ> le_nat) (copy_bytes b i 2)"

definition U4 :: "byte list \<Rightarrow> nat \<Rightarrow> 32 word option" where
  "U4 b i = map_option (of_nat \<circ> le_nat) (copy_bytes b i 4)"

definition I4 :: "byte list \<Rightarrow> nat \<Rightarrow> int option" where
  "I4 b i = map_option (\<lambda>bs. sint (of_nat (le_nat bs) :: 32 word)) (copy_bytes b i 4)"

definition R4 :: "byte list \<Rightarrow> nat \<Rightarrow> single option" where
  "R4 b i = map_option (of_nat \<circ> le_nat) (copy_bytes b i 4)"

definition R8 :: "byte list \<Rightarrow> nat \<Rightarrow> double option" where
  "R8 b i = map_option (of_nat \<circ> le_nat) (copy_bytes b i 8)"

section \<open>Checksum\<close>

definition POLYCRC32 :: "32 word" where "POLYCRC32 = 0xEDB88320"

text \<open>One round of the inner loop, the eight rounds for a byte, and the loop over the bytes.\<close>

definition crc_bit :: "32 word \<Rightarrow> 32 word" where
  "crc_bit crc = (if crc AND 1 \<noteq> 0 then drop_bit 1 crc XOR POLYCRC32 else drop_bit 1 crc)"

definition crc_byte :: "32 word \<Rightarrow> byte \<Rightarrow> 32 word" where
  "crc_byte crc b = (crc_bit ^^ 8) (crc XOR ucast b)"

fun crc32_loop :: "32 word \<Rightarrow> byte list \<Rightarrow> nat \<Rightarrow> nat \<Rightarrow> 32 word option" where
  "crc32_loop crc buff i 0 = Some crc"
| "crc32_loop crc buff i (Suc n) = do { b \<leftarrow> rd buff i; crc32_loop (crc_byte crc b) buff (Suc i) n }"

definition crc32 :: "byte list \<Rightarrow> int \<Rightarrow> 32 word option" where
  "crc32 buff len = crc32_loop 0 buff 0 (nat len)"

section \<open>Synchronisation\<close>

definition sync_oem4 :: "byte list \<Rightarrow> byte \<Rightarrow> (byte list \<times> bool) option" where
  "sync_oem4 buff data = do {
     b1 \<leftarrow> rd buff 1; buff \<leftarrow> wr buff 0 b1;
     b2 \<leftarrow> rd buff 2; buff \<leftarrow> wr buff 1 b2;
     buff \<leftarrow> wr buff 2 data;
     c0 \<leftarrow> rd buff 0; c1 \<leftarrow> rd buff 1; c2 \<leftarrow> rd buff 2;
     Some (buff, c0 = OEM4SYNC1 \<and> c1 = OEM4SYNC2 \<and> c2 = OEM4SYNC3) }"

section \<open>Reading fields\<close>

lemma copy_bytes_inside [simp]: "i + n \<le> length b \<Longrightarrow> copy_bytes b i n = Some (take n (drop i b))"
  by (simp add: copy_bytes_def)

lemma copy_bytes_append [simp]:
  "length x = n \<Longrightarrow> copy_bytes (pre @ x @ post) (length pre) n = Some x"
  by (simp add: copy_bytes_def)

lemma field_defined [simp]:
  "i < length b \<Longrightarrow> U1 b i = Some (b ! i)"
  "i + 2 \<le> length b \<Longrightarrow> U2 b i = Some (of_nat (le_nat (take 2 (drop i b))))"
  "i + 4 \<le> length b \<Longrightarrow> U4 b i = Some (of_nat (le_nat (take 4 (drop i b))))"
  "i + 4 \<le> length b \<Longrightarrow> I4 b i = Some (sint (of_nat (le_nat (take 4 (drop i b))) :: 32 word))"
  "i + 4 \<le> length b \<Longrightarrow> R4 b i = Some (of_nat (le_nat (take 4 (drop i b))))"
  "i + 8 \<le> length b \<Longrightarrow> R8 b i = Some (of_nat (le_nat (take 8 (drop i b))))"
  by (simp_all add: U1_def U2_def U4_def I4_def R4_def R8_def)

lemma le_nat_less: "le_nat bs < 256 ^ length bs"
proof (induction bs)
  case (Cons b bs)
  have "unat b < 256" using unsigned_less [of b] by simp
  moreover have "256 * le_nat bs + 256 \<le> 256 * 256 ^ length bs" using Cons by simp
  ultimately show ?case by simp
qed simp

section \<open>The checksum is linear\<close>

lemma crc_bit_0 [simp]: "crc_bit 0 = 0"
  by (simp add: crc_bit_def)

lemma crc_bit_xor: "crc_bit (a XOR b) = crc_bit a XOR crc_bit b"
proof -
  have d: "drop_bit 1 (a XOR b) = drop_bit 1 a XOR drop_bit 1 b" by (rule drop_bit_xor)
  have one: "(x AND 1 \<noteq> 0) = bit x 0" for x :: "32 word"
    by (simp add: and_one_eq odd_iff_mod_2_eq_one [symmetric] bit_0)
  have "bit (a XOR b) 0 = (bit a 0 \<noteq> bit b 0)" by (simp add: bit_xor_iff)
  then show ?thesis
    unfolding crc_bit_def one d by (auto simp: ac_simps)
qed

lemma crc_bits_xor: "(crc_bit ^^ n) (a XOR b) = (crc_bit ^^ n) a XOR (crc_bit ^^ n) b"
  by (induction n) (simp_all add: crc_bit_xor)

lemma crc_bits_0 [simp]: "(crc_bit ^^ n) 0 = 0"
  by (induction n) simp_all

section \<open>Rounds on whole words\<close>

lemma crc_bit_alt: "crc_bit x = (if bit x 0 then drop_bit 1 x XOR POLYCRC32 else drop_bit 1 x)"
  by (simp add: crc_bit_def and_one_eq odd_iff_mod_2_eq_one [symmetric] bit_0)

lemma crc_bits_shift: "take_bit n x = 0 \<Longrightarrow> (crc_bit ^^ n) x = drop_bit n x"
proof (induction n arbitrary: x)
  case (Suc n)
  then have z: "\<not> bit x i" if "i < Suc n" for i
  proof -
    have "bit x i = bit (take_bit (Suc n) x) i" using that by (simp only: bit_take_bit_iff simp_thms)
    also have "\<dots> = bit (0 :: 32 word) i" by (simp only: Suc.prems)
    finally show ?thesis by simp
  qed
  then have "crc_bit x = drop_bit 1 x" by (simp only: crc_bit_alt) simp
  moreover have "take_bit n (drop_bit 1 x) = 0"
    by (rule bit_word_eqI) (use z in \<open>simp add: bit_take_bit_iff bit_drop_bit_eq\<close>)
  ultimately show ?case using Suc.IH [of "drop_bit 1 x"] by (simp add: funpow_swap1)
qed simp

lemma crc_bit_kernel: "crc_bit x = 0 \<Longrightarrow> x = 0"
proof (rule bit_word_eqI)
  fix i assume a: "crc_bit x = 0" and "i < LENGTH(32)"
  have b0: "\<not> bit x 0"
  proof
    assume "bit x 0"
    then have "drop_bit 1 x XOR POLYCRC32 = 0"
      using a by (simp add: crc_bit_alt)
    then have "bit (drop_bit 1 x XOR POLYCRC32) 31 = False" by simp
    moreover have "bit POLYCRC32 31" by (simp add: POLYCRC32_def)
    ultimately have "bit x 32" by (simp add: bit_xor_iff bit_drop_bit_eq)
    then show False using bit_imp_le_length [of x 32] by simp
  qed
  then have d: "drop_bit 1 x = 0"
    using a by (simp add: crc_bit_alt)
  have "\<not> bit x (Suc j)" for j
    using arg_cong [where f = "\<lambda>w. bit w j", OF d] by (simp add: bit_drop_bit_eq)
  with b0 show "bit x i = bit (0 :: 32 word) i" by (cases i) simp_all
qed

lemma crc_bit_inj: "crc_bit a = crc_bit b \<longleftrightarrow> a = b"
proof
  assume "crc_bit a = crc_bit b"
  then have "crc_bit (a XOR b) = 0" by (simp add: crc_bit_xor)
  then have "a XOR b = 0" by (rule crc_bit_kernel)
  then show "a = b" by (metis xor.right_neutral xor.assoc xor_self_eq)
qed simp

lemma crc_bits_inj: "(crc_bit ^^ n) a = (crc_bit ^^ n) b \<longleftrightarrow> a = b"
  by (induction n) (simp_all add: crc_bit_inj)

abbreviation crc_bytes :: "32 word \<Rightarrow> byte list \<Rightarrow> 32 word" where
  "crc_bytes \<equiv> foldl crc_byte"

lemma crc_bytes_inj: "crc_bytes a bs = crc_bytes b bs \<longleftrightarrow> a = b"
proof (induction bs arbitrary: a b)
  case (Cons x bs)
  have "a XOR ucast x = b XOR ucast x \<longleftrightarrow> a = b"
    by (auto simp: bit_eq_iff bit_xor_iff)
  then have "crc_byte a x = crc_byte b x \<longleftrightarrow> a = b"
    by (simp only: crc_byte_def crc_bits_inj)
  with Cons show ?case by simp
qed simp

definition le32 :: "byte list \<Rightarrow> 32 word" where "le32 bs = of_nat (le_nat bs)"

lemma le32_Cons: "le32 (b # bs) = ucast b XOR push_bit 8 (le32 bs)"
proof -
  have "le32 (b # bs) = ucast b + push_bit 8 (le32 bs)"
    by (simp add: le32_def push_bit_eq_mult)
  also have "\<dots> = ucast b XOR push_bit 8 (le32 bs)"
  proof (rule disjunctive_add_eq_xor)
    show "(ucast b :: 32 word) AND push_bit 8 (le32 bs) = 0"
      by (rule bit_word_eqI) (auto simp: bit_and_iff bit_push_bit_iff bit_ucast_iff dest: bit_imp_le_length)
  qed
  finally show ?thesis .
qed

lemma crc_bits_shifted: "(crc_bit ^^ 8) (push_bit 8 x) = drop_bit 8 (push_bit 8 x)"
  by (rule crc_bits_shift) (simp add: take_bit_push_bit)


lemma crc_window:
  "length bs = 4 \<Longrightarrow> crc_bytes c bs = (crc_bit ^^ 32) (c XOR le32 bs)"
proof -
  have step: "crc_byte c b XOR (crc_bit ^^ 8) (push_bit 8 x) = (crc_bit ^^ 8) (c XOR (ucast b XOR push_bit 8 x))" for c b x
    by (simp add: crc_byte_def xor.assoc flip: crc_bits_xor)
  have clear: "(crc_bit ^^ 8) (push_bit 8 (le32 bs)) = le32 bs" if "length bs < 4" for bs
  proof -
    have "le_nat bs < 2 ^ 24"
      using le_nat_less [of bs] that power_increasing [of "length bs" 3 "256::nat"] by (simp add: power_Suc)
    then have "unat (le32 bs) < 2 ^ 24" by (simp add: le32_def unat_of_nat take_bit_nat_eq_self)
    then have high: "\<not> bit (le32 bs) i" if "24 \<le> i" for i
    proof -
      have "unat (le32 bs) < 2 ^ i"
        using \<open>unat (le32 bs) < 2 ^ 24\<close> power_increasing [OF that, of "2::nat"] by simp
      then have "\<not> bit (unat (le32 bs)) i" by (simp add: bit_nat_def)
      then show ?thesis by (metis bit_unsigned_iff possible_bit_nat)
    qed
    then have "n < 24" if "bit (le32 bs) n" for n using that not_less by blast
    then show ?thesis unfolding crc_bits_shifted
      by (intro bit_word_eqI) (auto simp: bit_drop_bit_eq bit_push_bit_iff)
  qed
  have cons: "(crc_bit ^^ (n + 8)) (c XOR le32 (b # bs)) = (crc_bit ^^ n) (crc_byte c b XOR le32 bs)"
    if "length bs < 4" for n c b bs
    unfolding le32_Cons funpow_add comp_apply step [symmetric] clear [OF that] ..
  assume "length bs = 4"
  then obtain b0 b1 b2 b3 where bs: "bs = [b0, b1, b2, b3]"
    by (auto simp: length_Suc_conv numeral_eq_Suc)
  have zero: "le32 [] = 0" by (simp add: le32_def)
  have "(crc_bit ^^ 32) (c XOR le32 bs) = (crc_bit ^^ 0) (crc_bytes c bs XOR 0)"
    using cons [of "[b1, b2, b3]" 24 c b0] cons [of "[b2, b3]" 16 "crc_byte c b0" b1]
      cons [of "[b3]" 8 "crc_byte (crc_byte c b0) b1" b2]
      cons [of "[]" 0 "crc_byte (crc_byte (crc_byte c b0) b1) b2" b3]
    by (simp add: bs zero)
  then show ?thesis by simp
qed


section \<open>Frames\<close>

lemma crc32_loop_bytes:
  "i + n \<le> length buff \<Longrightarrow> crc32_loop c buff i n = Some (crc_bytes c (take n (drop i buff)))"
proof (induction n arbitrary: c i)
  case (Suc n)
  then have "drop i buff = buff ! i # drop (Suc i) buff" by (simp add: Cons_nth_drop_Suc)
  with Suc show ?case by simp
qed simp

lemma crc32_bytes: "n \<le> length buff \<Longrightarrow> crc32 buff (int n) = Some (crc_bytes 0 (take n buff))"
  by (simp add: crc32_def crc32_loop_bytes)

lemma crc32_loop_outside: "length buff < i + n \<Longrightarrow> i \<le> length buff \<Longrightarrow> crc32_loop c buff i n = None"
proof (induction n arbitrary: c i)
  case (Suc n)
  then show ?case by (cases "i < length buff") (simp_all add: rd_def)
qed simp

lemma base256: "a < 256 \<Longrightarrow> b < 256 \<Longrightarrow> a + 256 * c = b + 256 * d \<longleftrightarrow> a = b \<and> c = d" for a b c d :: nat
proof
  assume ab: "a < 256" "b < 256" and eq: "a + 256 * c = b + 256 * d"
  have "(a + 256 * c) mod 256 = a" "(b + 256 * d) mod 256 = b" using ab by simp_all
  with eq show "a = b \<and> c = d" by simp
qed simp

lemma le_nat_inj: "length a = length b \<Longrightarrow> le_nat a = le_nat b \<longleftrightarrow> a = b"
proof (induction a b rule: list_induct2)
  case (Cons x xs y ys)
  have "unat x < 256" "unat y < 256" using unsigned_less [of x] unsigned_less [of y] by simp_all
  then have "unat x + 256 * le_nat xs = unat y + 256 * le_nat ys \<longleftrightarrow> unat x = unat y \<and> le_nat xs = le_nat ys"
    using base256 by blast
  with Cons show ?case by (simp add: word_unat_eq_iff)
qed simp

lemma le32_inj:
  assumes "length a = 4" and "length b = 4"
  shows "le32 a = le32 b \<longleftrightarrow> a = b"
proof -
  have "unat (le32 x) = le_nat x" if "length x = 4" for x
    using le_nat_less [of x] that by (simp add: le32_def unat_of_nat take_bit_nat_eq_self)
  with assms have "le32 a = le32 b \<Longrightarrow> le_nat a = le_nat b" by metis
  with le_nat_inj [of a b] assms show ?thesis by auto
qed

text \<open>A frame: \<open>n\<close> bytes and the checksum behind them. It is accepted exactly when the checksum run
  over all \<open>n + 4\<close> bytes is 0.\<close>

lemma frame_ok_iff:
  assumes "n + 4 \<le> length fr"
  shows "crc32 fr (int n) = U4 fr n \<longleftrightarrow> crc_bytes 0 (take (n + 4) fr) = 0"
proof -
  have "take (n + 4) fr = take n fr @ take 4 (drop n fr)" by (simp add: take_add)
  then have "crc_bytes 0 (take (n + 4) fr) = (crc_bit ^^ 32) (crc_bytes 0 (take n fr) XOR le32 (take 4 (drop n fr)))"
    using assms crc_window [of "take 4 (drop n fr)"] by simp
  then have "crc_bytes 0 (take (n + 4) fr) = 0 \<longleftrightarrow> crc_bytes 0 (take n fr) XOR le32 (take 4 (drop n fr)) = 0"
    using crc_bits_inj [of 32 _ 0] by simp
  also have "\<dots> \<longleftrightarrow> crc_bytes 0 (take n fr) = le32 (take 4 (drop n fr))"
    by (auto simp: bit_eq_iff bit_xor_iff)
  finally show ?thesis using assms by (simp add: crc32_bytes le32_def)
qed

lemma crc_burst:
  assumes "length w = 4" and "length w' = 4" and "w \<noteq> w'"
  shows "crc_bytes 0 (pre @ w @ post) \<noteq> crc_bytes 0 (pre @ w' @ post)"
proof -
  have "crc_bytes c w \<noteq> crc_bytes c w'" for c
  proof -
    have "c XOR le32 w \<noteq> c XOR le32 w'"
      using le32_inj [OF assms(1,2)] assms(3) by (auto simp: bit_eq_iff bit_xor_iff)
    then show ?thesis unfolding crc_window [OF assms(1)] crc_window [OF assms(2)] crc_bits_inj .
  qed
  then show ?thesis by (simp add: crc_bytes_inj)
qed

section \<open>Properties\<close>

text \<open>C25. Checksum: a frame of \<open>n\<close> bytes that carries the right checksum is no longer accepted when
  any four consecutive bytes of it (header, body or the checksum itself) are replaced by different
  ones, so every error burst of up to 25 bits, wherever it starts, is detected.\<close>

theorem crc32_detects_bursts:
  assumes "length w = 4" and "length w' = 4" and "w \<noteq> w'"
    and "length pre + 4 + length post = n + 4"
    and "crc32 (pre @ w @ post @ rest) (int n) = U4 (pre @ w @ post @ rest) n"
  shows "crc32 (pre @ w' @ post @ rest) (int n) \<noteq> U4 (pre @ w' @ post @ rest) n"
proof -
  have t: "take (n + 4) (pre @ v @ post @ rest) = pre @ v @ post" if "length v = 4" for v
    using that assms(4) by simp
  have l: "n + 4 \<le> length (pre @ v @ post @ rest)" if "length v = 4" for v
    using that assms(4) by simp
  show ?thesis
    using assms(5) crc_burst [OF assms(1-3), of pre post]
    unfolding frame_ok_iff [OF l [OF assms(1)]] frame_ok_iff [OF l [OF assms(2)]] t [OF assms(1)] t [OF assms(2)]
    by simp
qed

theorem crc32_detects_bursts_witness:
  "crc32 ([] @ [0, 0, 1, 0] @ [0] @ []) (int 1) \<noteq> U4 ([] @ [0, 0, 1, 0] @ [0] @ []) 1"
  by (rule crc32_detects_bursts [of "[0, 0, 0, 0]"])
    (simp_all add: crc32_def crc_byte_def copy_bytes_def)

end
