(* ===== verification/Gps_Time.thy ===== *)
theory Gps_Time
  imports C_Lib "HOL-Library.Signed_Division"
begin

text \<open>
  Time, calendar and coordinate conversions of \<^verbatim>\<open>src/oem6/deco.c\<close>. \<open>int\<close> and \<open>time_t\<close> have
  32 bits on the target; their values are integers here and every operation that can leave the range
  goes through \<open>i32\<close>, which gives \<open>None\<close> for the undefined overflow. Epochs are lists of six doubles
  \<open>{year, month, day, hour, minute, second}\<close>. The square root and arc tangents of the C library are
  the parameter \<open>libm\<close>.
\<close>

definition i32 :: "int \<Rightarrow> int option" where
  "i32 i = (if - (2 ^ 31) \<le> i \<and> i < 2 ^ 31 then Some i else None)"

lemma i32_Some [simp]: "- (2 ^ 31) \<le> i \<Longrightarrow> i < 2 ^ 31 \<Longrightarrow> i32 i = Some i"
  by (simp add: i32_def)

lemma i32_Some_iff [c_mem]: "i32 i = Some j \<longleftrightarrow> - (2 ^ 31) \<le> i \<and> i < 2 ^ 31 \<and> j = i"
  by (auto simp: i32_def)

record gtime_t =
  gt_time :: int
  gt_sec :: double

definition gtime :: "int \<Rightarrow> double \<Rightarrow> gtime_t" where
  "gtime t s = \<lparr>gt_time = t, gt_sec = s\<rparr>"

section \<open>Tables and constants\<close>

text \<open>Rows \<open>{y,m,d,h,m,s,utc-gpst}\<close>.\<close>

definition leap_table :: "int list list" where
  "leap_table =
    [[2012,7,1,0,0,0,-16], [2009,1,1,0,0,0,-15], [2006,1,1,0,0,0,-14], [1999,1,1,0,0,0,-13],
     [1997,7,1,0,0,0,-12], [1996,1,1,0,0,0,-11], [1994,7,1,0,0,0,-10], [1993,7,1,0,0,0,-9],
     [1992,7,1,0,0,0,-8], [1991,1,1,0,0,0,-7], [1990,1,1,0,0,0,-6], [1988,1,1,0,0,0,-5],
     [1985,7,1,0,0,0,-4], [1983,7,1,0,0,0,-3], [1982,7,1,0,0,0,-2], [1981,7,1,0,0,0,-1]]"

definition leaps :: "double list list" where
  "leaps = map (map d_of_int) leap_table"

definition gpst0 :: "double list" where
  "gpst0 = map d_of_int [1980, 1, 6, 0, 0, 0]"

definition PI :: double where "PI = 0x400921FB54442D18"
definition FE_WGS84 :: double where "FE_WGS84 = d_div (d_of_int 1) 0x4072A41D96746D88"
definition RE_WGS84 :: double where "RE_WGS84 = d_of_int 6378137"
definition R2D :: double where "R2D = d_div (d_of_int 180) PI"

section \<open>Arithmetic on times\<close>

text \<open>\<open>difftime\<close> of two 32-bit times is exact.\<close>

definition timediff :: "gtime_t \<Rightarrow> gtime_t \<Rightarrow> double" where
  "timediff t1 t2 = d_sub (d_add (d_of_int (gt_time t1 - gt_time t2)) (gt_sec t1)) (gt_sec t2)"

definition timeadd :: "gtime_t \<Rightarrow> double \<Rightarrow> gtime_t option" where
  "timeadd t sec = do {
     let s = d_add (gt_sec t) sec;
     let tt = d_floor s;
     time \<leftarrow> i32 (gt_time t + d_to_int tt);
     Some (gtime time (d_sub s tt)) }"

section \<open>Calendar\<close>

definition doy :: "int list" where
  "doy = [1,32,60,91,121,152,182,213,244,274,305,335]"

text \<open>The day count, leap year if \<open>year%4==0\<close> in 1901-2099.\<close>

definition epoch_days :: "int \<Rightarrow> int \<Rightarrow> int \<Rightarrow> int" where
  "epoch_days year mon day = (year - 1970) * 365 + (year - 1969) sdiv 4 + doy ! nat (mon - 1) + day - 2
     + (if year smod 4 = 0 \<and> mon \<ge> 3 then 1 else 0)"

definition epoch2time :: "double list \<Rightarrow> gtime_t option" where
  "epoch2time ep =
     (let year = d_to_int (ep ! 0); mon = d_to_int (ep ! 1); day = d_to_int (ep ! 2) in
      if year < 1970 \<or> 2099 < year \<or> mon < 1 \<or> 12 < mon then Some (gtime 0 0)
      else do {
        days \<leftarrow> i32 (epoch_days year mon day);
        let sec = d_to_int (d_floor (ep ! 5));
        a \<leftarrow> i32 (days * 86400);
        b \<leftarrow> i32 (d_to_int (ep ! 3) * 3600);
        c \<leftarrow> i32 (d_to_int (ep ! 4) * 60);
        ab \<leftarrow> i32 (a + b);
        abc \<leftarrow> i32 (ab + c);
        time \<leftarrow> i32 (abc + sec);
        Some (gtime time (d_sub (ep ! 5) (d_of_int sec))) })"

definition mday :: "int list" where
  "mday = [31,28,31,30,31,30,31,31,30,31,30,31, 31,28,31,30,31,30,31,31,30,31,30,31,
           31,29,31,30,31,30,31,31,30,31,30,31, 31,28,31,30,31,30,31,31,30,31,30,31]"

fun month_loop :: "int list \<Rightarrow> int \<Rightarrow> int \<Rightarrow> int \<times> int" where
  "month_loop [] day mon = (day, mon)"
| "month_loop (m # ms) day mon = (if day \<ge> m then month_loop ms (day - m) (mon + 1) else (day, mon))"

definition time2epoch :: "gtime_t \<Rightarrow> double list" where
  "time2epoch t =
     (let days = gt_time t sdiv 86400;
          sec = gt_time t - days * 86400;
          (day, mon) = month_loop mday (days smod 1461) 0
      in [d_of_int (1970 + days sdiv 1461 * 4 + mon sdiv 12), d_of_int (mon smod 12 + 1), d_of_int (day + 1),
          d_of_int (sec sdiv 3600), d_of_int (sec smod 3600 sdiv 60),
          d_add (d_of_int (sec smod 60)) (gt_sec t)])"

section \<open>Leap seconds and GPS weeks\<close>

fun gpst2utc_loop :: "double list list \<Rightarrow> gtime_t \<Rightarrow> gtime_t option" where
  "gpst2utc_loop [] t = Some t"
| "gpst2utc_loop (row # rows) t = do {
     tu \<leftarrow> timeadd t (row ! 6);
     e \<leftarrow> epoch2time row;
     if d_le 0 (timediff tu e) then Some tu else gpst2utc_loop rows t }"

definition gpst2utc :: "gtime_t \<Rightarrow> gtime_t option" where
  "gpst2utc t = gpst2utc_loop leaps t"

fun utc2gpst_loop :: "double list list \<Rightarrow> gtime_t \<Rightarrow> gtime_t option" where
  "utc2gpst_loop [] t = Some t"
| "utc2gpst_loop (row # rows) t = do {
     e \<leftarrow> epoch2time row;
     if d_le 0 (timediff t e) then timeadd t (d_neg (row ! 6)) else utc2gpst_loop rows t }"

definition utc2gpst :: "gtime_t \<Rightarrow> gtime_t option" where
  "utc2gpst t = utc2gpst_loop leaps t"

text \<open>The result and the value stored through \<open>week\<close>.\<close>

definition time2gpst :: "gtime_t \<Rightarrow> (double \<times> int) option" where
  "time2gpst t = do {
     t0 \<leftarrow> epoch2time gpst0;
     sec \<leftarrow> i32 (gt_time t - gt_time t0);
     let w = sec sdiv (86400 * 7);
     Some (d_add (d_of_int (sec - w * 86400 * 7)) (gt_sec t), w) }"

definition gpst2time :: "int \<Rightarrow> double \<Rightarrow> gtime_t option" where
  "gpst2time week sec = do {
     t \<leftarrow> epoch2time gpst0;
     let sec = (if d_lt sec (d_of_int (- 1000000000)) \<or> d_lt (d_of_int 1000000000) sec then 0 else sec);
     w \<leftarrow> i32 (86400 * 7 * week);
     ws \<leftarrow> i32 (w + d_to_int sec);
     time \<leftarrow> i32 (gt_time t + ws);
     Some (gtime time (d_sub sec (d_of_int (d_to_int sec)))) }"

text \<open>\<open>timeget\<close>: \<open>now\<close> is the epoch that \<open>gettimeofday\<close> and \<open>gmtime\<close> give (six zeros when they
  fail); \<open>timeoffset_\<close> is 0 and nothing changes it.\<close>

definition timeoffset_0 :: double where "timeoffset_0 = 0"

definition timeget :: "double list \<Rightarrow> gtime_t option" where
  "timeget now = do { t \<leftarrow> epoch2time now; timeadd t timeoffset_0 }"

definition adjgpsweek :: "double list \<Rightarrow> int \<Rightarrow> int option" where
  "adjgpsweek now week = do {
     t \<leftarrow> timeget now;
     g \<leftarrow> utc2gpst t;
     (_, w) \<leftarrow> time2gpst g;
     let w = (if w < 1560 then 1560 else w);
     Some (week + (w - week + 512) sdiv 1024 * 1024) }"

section \<open>Printing\<close>

text \<open>\<open>%0w.nf\<close>: zeros between the sign and the digits up to width \<open>w\<close>.\<close>

definition fmt_zero :: "nat \<Rightarrow> nat \<Rightarrow> double \<Rightarrow> string" where
  "fmt_zero w n d =
     (let s = fmt_fixed n d in
      if take 1 s = ''-'' then CHR ''-'' # replicate (w - length s) (CHR ''0'') @ tl s
      else replicate (w - length s) (CHR ''0'') @ s)"

definition time2str :: "gtime_t \<Rightarrow> int \<Rightarrow> string option" where
  "time2str t n =
     (let n = (if n < 0 then 0 else if n > 12 then 12 else n) in do {
      t \<leftarrow> (if d_lt (d_sub (d_of_int 1) (gt_sec t)) (d_div 0x3FE0000000000000 (d_of_int (10 ^ nat n)))
            then do { time \<leftarrow> i32 (gt_time t + 1); Some (gtime time 0) } else Some t);
      let ep = time2epoch t;
      Some (fmt_zero 4 0 (ep ! 0) @ ''/'' @ fmt_zero 2 0 (ep ! 1) @ ''/'' @ fmt_zero 2 0 (ep ! 2) @ '' ''
        @ fmt_zero 2 0 (ep ! 3) @ '':'' @ fmt_zero 2 0 (ep ! 4) @ '':''
        @ fmt_zero (if n \<le> 0 then 2 else nat n + 3) (if n \<le> 0 then 0 else nat n) (ep ! 5)) })"

text \<open>The static buffer of \<open>time_str\<close> has 64 characters.\<close>

definition time_str :: "gtime_t \<Rightarrow> int \<Rightarrow> string option" where
  "time_str t n = do {
     s \<leftarrow> time2str t n;
     ub_unless (length s < 64);
     Some s }"

section \<open>Coordinates\<close>

record libm =
  m_sqrt :: "double \<Rightarrow> double"
  m_atan :: "double \<Rightarrow> double"
  m_atan2 :: "double \<Rightarrow> double \<Rightarrow> double"

fun dot_loop :: "double list \<Rightarrow> double list \<Rightarrow> nat \<Rightarrow> double \<Rightarrow> double option" where
  "dot_loop a b 0 c = Some c"
| "dot_loop a b (Suc n) c = do {
     x \<leftarrow> rd a n; y \<leftarrow> rd b n;
     dot_loop a b n (d_add c (d_mul x y)) }"

definition dot :: "double list \<Rightarrow> double list \<Rightarrow> nat \<Rightarrow> double option" where
  "dot a b n = dot_loop a b n 0"

text \<open>The iteration for the height; \<open>None\<close> if it never ends.\<close>

partial_function (option) ecef_loop ::
    "libm \<Rightarrow> double \<Rightarrow> double \<Rightarrow> double \<Rightarrow> double \<Rightarrow> double \<Rightarrow> double \<Rightarrow> (double \<times> double) option" where
  "ecef_loop m e2 r2 rz z zk v =
     (if d_le 0x3F1A36E2EB1C432D (d_abs (d_sub z zk)) then
        (let sinp = d_div z (m_sqrt m (d_add r2 (d_mul z z)));
             v = d_div RE_WGS84 (m_sqrt m (d_sub (d_of_int 1) (d_mul (d_mul e2 sinp) sinp)))
         in ecef_loop m e2 r2 rz (d_add rz (d_mul (d_mul v e2) sinp)) z v)
      else Some (z, v))"

declare ecef_loop.simps [code]

definition ecef2pos :: "libm \<Rightarrow> double list \<Rightarrow> double list option" where
  "ecef2pos m r = do {
     r0 \<leftarrow> rd r 0; r1 \<leftarrow> rd r 1; r2' \<leftarrow> rd r 2;
     r2 \<leftarrow> dot r r 2;
     let e2 = d_mul FE_WGS84 (d_sub (d_of_int 2) FE_WGS84);
     (z, v) \<leftarrow> ecef_loop m e2 r2 r2' r2' 0 RE_WGS84;
     let far = d_lt 0x3D719799812DEA11 r2;
     Some [if far then m_atan m (d_div z (m_sqrt m r2))
           else if d_lt 0 r2' then d_div PI (d_of_int 2) else d_div (d_neg PI) (d_of_int 2),
           if far then m_atan2 m r1 r0 else 0,
           d_sub (m_sqrt m (d_add r2 (d_mul z z))) v] }"

definition deg2dms :: "double \<Rightarrow> double list" where
  "deg2dms deg =
     (let sign = (if d_lt deg 0 then d_of_int (- 1) else d_of_int 1);
          a = d_abs deg;
          d0 = d_floor a;
          a = d_mul (d_sub a d0) (d_of_int 60);
          d1 = d_floor a;
          a = d_mul (d_sub a d1) (d_of_int 60)
      in [d_mul d0 sign, d1, a])"

section \<open>Calendar\<close>

lemma sdiv_nonneg [simp]: "0 \<le> a \<Longrightarrow> 0 < b \<Longrightarrow> a sdiv b = a div b" for a b :: int
  by (simp add: signed_divide_int_def sgn_mult zero_le_mult_iff) (cases "a = 0"; simp)

lemma smod_nonneg [simp]: "0 \<le> a \<Longrightarrow> 0 < b \<Longrightarrow> a smod b = a mod b" for a b :: int
  by (cases "a = 0") (simp_all add: signed_modulo_int_def)

lemma zero_double: "(0 :: double) = d_of_int 0"
  by (simp add: d_of_int_0 d_zero_def)

lemma month_loop_spec:
  assumes "month_loop ms day mon = (day', mon')" and "0 \<le> day" and "day < sum_list ms"
  shows "\<exists>k < length ms. mon' = mon + int k \<and> day' = day - sum_list (take k ms) \<and> 0 \<le> day' \<and> day' < ms ! k"
  using assms
proof (induction ms arbitrary: day mon)
  case (Cons m ms)
  show ?case
  proof (cases "m \<le> day")
    case True
    with Cons.prems Cons.IH [of "day - m" "mon + 1"] obtain k where
      "k < length ms" "mon' = mon + 1 + int k" "day' = day - m - sum_list (take k ms)" "0 \<le> day'" "day' < ms ! k"
      by auto
    then show ?thesis by (intro exI [of _ "Suc k"]) simp
  next
    case False
    with Cons.prems show ?thesis by (intro exI [of _ 0]) simp
  qed
qed simp

text \<open>The days before month \<open>k\<close> of the four-year cycle, as the inverse formula counts them.\<close>

definition days_before :: "nat \<Rightarrow> int" where
  "days_before k = (let c = int k div 12; m = k mod 12 in
     c * 365 + (c + 1) div 4 + doy ! m - 1 + (if c = 2 \<and> m \<ge> 2 then 1 else 0))"

lemma mday_sums: "k < 48 \<Longrightarrow> sum_list (take k mday) = days_before k"
proof -
  have "list_all (\<lambda>k. sum_list (take k mday) = days_before k) [0..<48]" by code_simp
  then show "k < 48 \<Longrightarrow> ?thesis" by (simp add: list_all_iff)
qed

lemma mday_total: "sum_list mday = 1461" "length mday = 48" "\<forall>m \<in> set mday. m \<le> 31"
  by (simp_all add: mday_def)

lemma doy_bounds: "m < 12 \<Longrightarrow> 1 \<le> doy ! m \<and> doy ! m \<le> 335"
proof -
  have "list_all (\<lambda>m. 1 \<le> doy ! m \<and> doy ! m \<le> 335) [0..<12]" by code_simp
  then show "m < 12 \<Longrightarrow> ?thesis" by (simp add: list_all_iff)
qed

text \<open>The day number of a date, and \<open>epoch2time\<close> on whole numbers.\<close>

definition day_number :: "int \<Rightarrow> int \<Rightarrow> int \<Rightarrow> int" where
  "day_number y m d = (y - 1970) * 365 + (y - 1969) div 4 + doy ! nat (m - 1) + d - 2
     + (if y mod 4 = 0 \<and> m \<ge> 3 then 1 else 0)"

lemma epoch2time_int:
  assumes "1970 \<le> y" "y \<le> 2099" "1 \<le> mo" "mo \<le> 12" "1 \<le> d" "d \<le> 31"
    and "0 \<le> h" "h < 24" "0 \<le> mi" "mi < 60" "0 \<le> s" "s < 60"
    and r: "day_number y mo d * 86400 + h * 3600 + mi * 60 + s < 2 ^ 31"
  shows "epoch2time (map d_of_int [y, mo, d, h, mi, s]) =
    Some (gtime (day_number y mo d * 86400 + h * 3600 + mi * 60 + s) 0)"
proof -
  let ?n = "day_number y mo d"
  have doy: "1 \<le> doy ! nat (mo - 1)" "doy ! nat (mo - 1) \<le> 335"
    using doy_bounds [of "nat (mo - 1)"] assms(3,4) by auto
  have "0 \<le> (y - 1970) * 365" "0 \<le> (y - 1969) div 4" using assms by auto
  then have n0: "0 \<le> ?n" using doy assms(5) by (simp add: day_number_def)
  have days: "epoch_days y mo d = ?n" using assms by (simp add: day_number_def epoch_days_def)
  have conv: "d_to_int (d_of_int i) = i" if "0 \<le> i" "i < 3000" for i using that by (simp add: d_to_int_of_int)
  have fl: "d_floor (d_of_int s) = d_of_int s" "d_sub (d_of_int s) (d_of_int s) = 0"
    using assms by (simp_all add: d_floor_of_int d_sub_of_int zero_double)
  have sums: "?n * 86400 + h * 3600 < 2 ^ 31" "?n * 86400 + h * 3600 + mi * 60 < 2 ^ 31" "?n * 86400 < 2 ^ 31"
    using r assms by linarith+
  then have "?n < 24856" by simp
  then show ?thesis
    using assms n0 sums unfolding epoch2time_def
    by (simp add: conv fl days)
qed


lemma mday_bounds: "k < 48 \<Longrightarrow> mday ! k \<le> 31"
  using mday_total(2,3) by simp

text \<open>The date of a day number, as \<open>time2epoch\<close> finds it.\<close>

lemma month_loop_date:
  assumes "0 \<le> days" and "days \<le> 24855" and ml: "month_loop mday (days mod 1461) 0 = (day, mon)"
  shows "day_number (1970 + days div 1461 * 4 + mon div 12) (mon mod 12 + 1) (day + 1) = days"
    and "0 \<le> day" and "day < 31" and "0 \<le> mon" and "mon < 48"
proof -
  have "0 \<le> days mod 1461" "days mod 1461 < sum_list mday" by (simp_all add: mday_total)
  then obtain k where k: "k < 48" and mon: "mon = int k" and day: "day = days mod 1461 - days_before k"
    and d: "0 \<le> day" "day < mday ! k"
    using month_loop_spec [OF ml] mday_sums by (auto simp: mday_total)
  show "0 \<le> day" "day < 31" "0 \<le> mon" "mon < 48" using d mday_bounds [OF k] k mon by simp_all
  define q where "q = days div 1461"
  define c where "c = int (k div 12)"
  have c: "0 \<le> c" "c < 4" "int k div 12 = c" using k by (simp_all add: c_def zdiv_int)
  have year: "(1970 + q * 4 + c) mod 4 = 0 \<longleftrightarrow> c = 2" "(1970 + q * 4 + c - 1969) div 4 = q + (c + 1) div 4"
  proof -
    have "c = 0 \<or> c = 1 \<or> c = 2 \<or> c = 3" using c by linarith
    then have "(c + 2) mod 4 = 0 \<longleftrightarrow> c = 2" by auto
    moreover have "1970 + q * 4 + c = (c + 2) + (q + 492) * 4" by simp
    ultimately show "(1970 + q * 4 + c) mod 4 = 0 \<longleftrightarrow> c = 2" by (simp only: mod_mult_self1)
    have "1970 + q * 4 + c - 1969 = (c + 1) + q * 4" by simp
    then show "(1970 + q * 4 + c - 1969) div 4 = q + (c + 1) div 4" by simp
  qed
  have m: "nat (int k mod 12 + 1 - 1) = k mod 12" "int k mod 12 + 1 \<ge> 3 \<longleftrightarrow> k mod 12 \<ge> 2"
    by (simp_all add: nat_mod_distrib) presburger
  have "days = 1461 * q + days mod 1461" by (simp add: q_def)
  then have days: "days = 1461 * q + days_before k + day" using day by simp
  show "day_number (1970 + days div 1461 * 4 + mon div 12) (mon mod 12 + 1) (day + 1) = days"
    unfolding mon c(3) q_def [symmetric] day_number_def year m
    by (simp add: days days_before_def Let_def c(3))
qed

lemma time2epoch_int:
  assumes "0 \<le> t" and "t < 2 ^ 31" and ml: "month_loop mday (t div 86400 mod 1461) 0 = (day, mon)"
  shows "time2epoch (gtime t 0) = map d_of_int
    [1970 + t div 86400 div 1461 * 4 + mon div 12, mon mod 12 + 1, day + 1,
     t mod 86400 div 3600, t mod 86400 mod 3600 div 60, t mod 86400 mod 60]"
proof -
  have "t div 86400 \<le> 24855" using assms by simp
  from month_loop_date [OF _ this ml] have mon: "0 \<le> mon" using assms by simp
  have sec: "t - t div 86400 * 86400 = t mod 86400" by (simp add: minus_div_mult_eq_mod)
  show ?thesis using assms(1) mon ml
    by (simp add: time2epoch_def gtime_def sec zero_double d_add_of_int Let_def)
qed

section \<open>Properties\<close>

text \<open>C30. Calendar: for every time of the 32-bit epoch, \<open>time2epoch\<close> gives whole numbers in the
  ranges of a date and a time of day, and \<open>epoch2time\<close> computes the time back.\<close>

theorem calendar_roundtrip:
  assumes "0 \<le> t" and "t < 2 ^ 31"
  shows "\<exists>y mo d h mi s. time2epoch (gtime t 0) = map d_of_int [y, mo, d, h, mi, s]
    \<and> 1970 \<le> y \<and> y \<le> 2099 \<and> 1 \<le> mo \<and> mo \<le> 12 \<and> 1 \<le> d \<and> d \<le> 31
    \<and> 0 \<le> h \<and> h < 24 \<and> 0 \<le> mi \<and> mi < 60 \<and> 0 \<le> s \<and> s < 60
    \<and> epoch2time (time2epoch (gtime t 0)) = Some (gtime t 0)"
proof -
  obtain day mon where ml: "month_loop mday (t div 86400 mod 1461) 0 = (day, mon)" by fastforce
  let ?days = "t div 86400"
  have days: "0 \<le> ?days" "?days \<le> 24855" using assms by simp_all
  note date = month_loop_date [OF days ml]
  let ?y = "1970 + ?days div 1461 * 4 + mon div 12" and ?mo = "mon mod 12 + 1"
  let ?h = "t mod 86400 div 3600" and ?mi = "t mod 86400 mod 3600 div 60" and ?s = "t mod 86400 mod 60"
  have q: "0 \<le> ?days div 1461" "?days div 1461 \<le> 17" using days by linarith+
  have c: "0 \<le> mon div 12" "mon div 12 \<le> 3" using date by linarith+
  have ranges: "1970 \<le> ?y" "?y \<le> 2099" "1 \<le> ?mo" "?mo \<le> 12" "1 \<le> day + 1" "day + 1 \<le> 31"
    "0 \<le> ?h" "?h < 24" "0 \<le> ?mi" "?mi < 60" "0 \<le> ?s" "?s < 60"
  proof -
    have h: "0 \<le> x div 3600 \<and> x div 3600 < 24" if "0 \<le> x" "x < 86400" for x :: int using that by linarith
    have mi: "0 \<le> x div 60 \<and> x div 60 < 60" if "0 \<le> x" "x < 3600" for x :: int using that by linarith
    show "0 \<le> ?h" "?h < 24" "0 \<le> ?mi" "?mi < 60"
      using h [of "t mod 86400"] mi [of "t mod 86400 mod 3600"] by simp_all
    have "0 \<le> mon mod 12 \<and> mon mod 12 < 12" by simp
    then show "1 \<le> ?mo" "?mo \<le> 12" by linarith+
    show "1970 \<le> ?y" "?y \<le> 2099" "1 \<le> day + 1" "day + 1 \<le> 31" "0 \<le> ?s" "?s < 60"
      using q c date by simp_all
  qed
  have t: "?days * 86400 + ?h * 3600 + ?mi * 60 + ?s = t"
  proof -
    have "?days * 86400 + t mod 86400 = t" by simp
    moreover have "?h * 3600 + t mod 86400 mod 3600 = t mod 86400" by simp
    moreover have "?mi * 60 + t mod 86400 mod 3600 mod 60 = t mod 86400 mod 3600" by simp
    moreover have "t mod 86400 mod 3600 mod 60 = ?s" by (simp add: mod_mod_cancel)
    ultimately show ?thesis by linarith
  qed
  have "epoch2time (map d_of_int [?y, ?mo, day + 1, ?h, ?mi, ?s]) = Some (gtime t 0)"
  proof -
    have "day_number ?y ?mo (day + 1) * 86400 + ?h * 3600 + ?mi * 60 + ?s = t" unfolding date(1) by (rule t)
    then show ?thesis using epoch2time_int [OF ranges] assms(2) by metis
  qed
  then show ?thesis using time2epoch_int [OF assms ml] ranges by metis
qed

theorem calendar_roundtrip_witness:
  "epoch2time (time2epoch (gtime 1456704000 0)) = Some (gtime 1456704000 0)"
  using calendar_roundtrip [of 1456704000] by auto

section \<open>GPS weeks and leap seconds on whole seconds\<close>



lemma gpst0_time: "epoch2time gpst0 = Some (gtime 315964800 0)"
  using epoch2time_int [of 1980 1 6 0 0 0] by (simp add: gpst0_def day_number_def doy_def)

text \<open>The dates of the leap table as times, with the seconds GPS time is ahead.\<close>

definition leap_times :: "(int \<times> int) list" where
  "leap_times =
    [(1341100800, 16), (1230768000, 15), (1136073600, 14), (915148800, 13), (867715200, 12), (820454400, 11),
     (773020800, 10), (741484800, 9), (709948800, 8), (662688000, 7), (631152000, 6), (567993600, 5),
     (489024000, 4), (425865600, 3), (394329600, 2), (362793600, 1)]"

lemma leap_row_time:
  assumes "1970 \<le> y" "y \<le> 2099" "1 \<le> mo" "mo \<le> 12" "1 \<le> d" "d \<le> 31"
    and "day_number y mo d * 86400 = e" "e < 2 ^ 31"
  shows "epoch2time (map d_of_int [y, mo, d, 0, 0, 0, l]) = Some (gtime e 0)"
proof -
  have "epoch2time (map d_of_int [y, mo, d, 0, 0, 0, l]) = epoch2time (map d_of_int [y, mo, d, 0, 0, 0])"
    by (simp add: epoch2time_def cong: if_cong)
  also have "\<dots> = Some (gtime e 0)"
    using epoch2time_int [of y mo d 0 0 0] assms(1-6,8) unfolding assms(7) [symmetric] by simp
  finally show ?thesis .
qed

fun row_times :: "double list list \<Rightarrow> (int \<times> int) list \<Rightarrow> bool" where
  "row_times [] [] = True"
| "row_times (row # rows) ((e, l) # ls) =
     (epoch2time row = Some (gtime e 0) \<and> row ! 6 = d_of_int (- l) \<and> row_times rows ls)"
| "row_times rows ls = False"

lemma leaps_row_times: "row_times leaps leap_times"
proof -
  have rows: "row_times (map (map d_of_int) rows) ls"
    if "list_all2 (\<lambda>r (e, l). \<exists>y mo d. r = [y, mo, d, 0, 0, 0, - l] \<and> 1970 \<le> y \<and> y \<le> 2099 \<and> 1 \<le> mo \<and> mo \<le> 12
      \<and> 1 \<le> d \<and> d \<le> 31 \<and> day_number y mo d * 86400 = e \<and> e < 2 ^ 31) rows ls" for rows ls
    using that
  proof (induction rows ls rule: list_all2_induct)
    case (Cons r rows p ls)
    then show ?case using leap_row_time by (cases p) auto
  qed simp
  show ?thesis unfolding leaps_def leap_times_def leap_table_def
    by (rule rows) (simp add: day_number_def doy_def)
qed

fun g2u :: "(int \<times> int) list \<Rightarrow> int \<Rightarrow> int" where
  "g2u [] t = t"
| "g2u ((e, l) # ls) t = (if e \<le> t - l then t - l else g2u ls t)"

fun u2g :: "(int \<times> int) list \<Rightarrow> int \<Rightarrow> int" where
  "u2g [] t = t"
| "u2g ((e, l) # ls) t = (if e \<le> t then t + l else u2g ls t)"


lemma timeadd_int:
  assumes "- (2 ^ 31) \<le> t" "t < 2 ^ 31" "\<bar>i\<bar> < 1000" "- (2 ^ 31) \<le> t + i" "t + i < 2 ^ 31"
  shows "timeadd (gtime t 0) (d_of_int i) = Some (gtime (t + i) 0)"
  using assms by (simp add: timeadd_def gtime_def zero_double d_int_arith)

lemma timediff_int:
  assumes "- (2 ^ 31) \<le> t" "t < 2 ^ 31" "0 \<le> e" "e < 2 ^ 31"
  shows "timediff (gtime t 0) (gtime e 0) = d_of_int (t - e)"
  using assms by (simp add: timediff_def gtime_def zero_double d_int_arith)

lemma gpst2utc_loop_int:
  assumes "row_times rows ls" and "0 \<le> t" "t < 2 ^ 31" and "\<forall>(e, l) \<in> set ls. 0 \<le> e \<and> e < 2 ^ 31 \<and> 0 < l \<and> l < 100"
  shows "gpst2utc_loop rows (gtime t 0) = Some (gtime (g2u ls t) 0)"
  using assms
proof (induction rows ls rule: row_times.induct)
  case (2 row rows e l ls)
  then have tu: "timeadd (gtime t 0) (row ! 6) = Some (gtime (t - l) 0)"
    using timeadd_int [of t "- l"] by simp
  have "timediff (gtime (t - l) 0) (gtime e 0) = d_of_int (t - l - e)" using 2 by (intro timediff_int) auto
  moreover have "d_le 0 (d_of_int (t - l - e)) \<longleftrightarrow> 0 \<le> t - l - e"
    unfolding zero_double using 2 by (intro d_cmp_of_int) auto
  ultimately show ?case using 2 tu by simp
qed simp_all

lemma utc2gpst_loop_int:
  assumes "row_times rows ls" and "- 100 \<le> t" "t < 2 ^ 31 - 100" and "\<forall>(e, l) \<in> set ls. 0 \<le> e \<and> e < 2 ^ 31 \<and> 0 < l \<and> l < 100"
  shows "utc2gpst_loop rows (gtime t 0) = Some (gtime (u2g ls t) 0)"
  using assms
proof (induction rows ls rule: row_times.induct)
  case (2 row rows e l ls)
  have "d_neg (row ! 6) = d_of_int l" if "l \<noteq> 0" using 2 that d_neg_of_int [of "- l"] by simp
  then have tu: "timeadd (gtime t 0) (d_neg (row ! 6)) = Some (gtime (t + l) 0)"
    using timeadd_int [of t l] 2 by auto
  have "timediff (gtime t 0) (gtime e 0) = d_of_int (t - e)" using 2 by (intro timediff_int) auto
  moreover have "d_le 0 (d_of_int (t - e)) \<longleftrightarrow> 0 \<le> t - e"
    unfolding zero_double using 2 by (intro d_cmp_of_int) auto
  ultimately show ?case using 2 tu by simp
qed simp_all


text \<open>The rows of the table one second and more than a hundred seconds apart.\<close>

fun leap_rows :: "(int \<times> int) list \<Rightarrow> bool" where
  "leap_rows [] = True"
| "leap_rows [(e, l)] = (l = 1)"
| "leap_rows ((e, l) # (e', l') # ls) = (l = l' + 1 \<and> 0 < l' \<and> e' + 100 < e \<and> l < 100 \<and> leap_rows ((e', l') # ls))"

lemma g2u_le: "\<forall>(e, l) \<in> set ls. 0 < l \<Longrightarrow> g2u ls t \<le> t"
  by (induction ls t rule: g2u.induct) auto

lemma u2g_g2u:
  assumes "leap_rows ls" and "\<forall>(e, l) \<in> set ls. 0 < l"
  shows "u2g ls (g2u ls t) = (if \<exists>(e, l) \<in> set ls. t = e + l - 1 then t + 1 else t)"
  using assms
proof (induction ls rule: leap_rows.induct)
  case (3 e l e' l' ls)
  have above: "\<forall>(x, y) \<in> set ((e', l') # ls). x + y < e + l - 1 \<and> x + y \<le> e' + l'"
    using 3(2)
  proof (induction ls arbitrary: e l e' l')
    case (Cons p ls)
    obtain e2 l2 where p: "p = (e2, l2)" by (cases p)
    have "\<forall>(x, y) \<in> set ((e2, l2) # ls). x + y < e' + l' - 1 \<and> x + y \<le> e2 + l2"
      using Cons.prems p by (intro Cons.IH) auto
    then show ?case using Cons.prems p by fastforce
  qed auto
  have IH: "u2g ((e', l') # ls) (g2u ((e', l') # ls) t) =
      (if \<exists>(e, l) \<in> set ((e', l') # ls). t = e + l - 1 then t + 1 else t)"
    using 3 by auto
  have le: "g2u ((e', l') # ls) t \<le> (if e' \<le> t - l' then t - l' else t)"
    using g2u_le [of ls t] 3(3) by auto
  have rows: "l = l' + 1" "e' + 100 < e" "0 < l'" "l < 100" using 3(2) by auto
  consider "e \<le> t - l" | "t - l < e" "t = e + l - 1" | "t - l < e" "t \<noteq> e + l - 1" by linarith
  then show ?case
  proof cases
    case 1
    then have "t \<noteq> e + l - 1" "\<not> (\<exists>(x, y) \<in> set ((e', l') # ls). t = x + y - 1)" using above by fastforce+
    then show ?thesis using 1 by simp
  next
    case 2
    then have "g2u ((e', l') # ls) t = t - l'" "t - l' = e" using rows by auto
    then show ?thesis using 2 rows by simp
  next
    case 3
    have "\<not> e \<le> g2u ((e', l') # ls) t" using le 3 rows by (simp split: if_splits)
    then have "u2g ((e, l) # (e', l') # ls) (g2u ((e, l) # (e', l') # ls) t) = u2g ((e', l') # ls) (g2u ((e', l') # ls) t)"
      using 3 by (simp del: g2u.simps(2) add: g2u.simps(2) [of e])
    then show ?thesis unfolding IH using 3 by simp
  qed
qed auto

lemma leap_times_rows: "leap_rows leap_times" "\<forall>(e, l) \<in> set leap_times. 0 \<le> e \<and> e < 2 ^ 31 \<and> 0 < l \<and> l < 100"
  by (simp_all add: leap_times_def)

lemma g2u_bounds: "\<forall>(e, l) \<in> set ls. 0 < l \<and> l < 100 \<Longrightarrow> t - 100 \<le> g2u ls t \<and> g2u ls t \<le> t"
  by (induction ls t rule: g2u.induct) auto

section \<open>Properties of the time scales\<close>

text \<open>C31. Leap seconds: converting GPS time to UTC and back gives every whole second of the 32-bit epoch
  back, except the sixteen inserted seconds, which come back one second late.\<close>

theorem leap_second_roundtrip:
  assumes "0 \<le> t" and "t < 2 ^ 31 - 100"
  shows "do { u \<leftarrow> gpst2utc (gtime t 0); utc2gpst u } =
    Some (gtime (if \<exists>(e, l) \<in> set leap_times. t = e + l - 1 then t + 1 else t) 0)"
proof -
  have pos: "\<forall>(e, l) \<in> set leap_times. 0 < l" "\<forall>(e, l) \<in> set leap_times. 0 < l \<and> l < 100"
    using leap_times_rows(2) by auto
  have "gpst2utc (gtime t 0) = Some (gtime (g2u leap_times t) 0)"
    using assms leap_times_rows(2) by (simp add: gpst2utc_def gpst2utc_loop_int [OF leaps_row_times])
  moreover have "utc2gpst (gtime (g2u leap_times t) 0) = Some (gtime (u2g leap_times (g2u leap_times t)) 0)"
    unfolding utc2gpst_def
    using utc2gpst_loop_int [OF leaps_row_times _ _ leap_times_rows(2)] g2u_bounds [OF pos(2), of t] assms by simp
  ultimately show ?thesis using u2g_g2u [OF leap_times_rows(1) pos(1), of t] by simp
qed

theorem leap_second_roundtrip_witness:
  "do { u \<leftarrow> gpst2utc (gtime 1456704000 0); utc2gpst u } = Some (gtime 1456704000 0)
    \<and> do { u \<leftarrow> gpst2utc (gtime 1341100815 0); utc2gpst u } = Some (gtime 1341100816 0)"
  using leap_second_roundtrip [of 1456704000] leap_second_roundtrip [of 1341100815] by (simp_all add: leap_times_def)



end
