(* ===== verification/Receiver_Types.thy ===== *)
theory Receiver_Types
  imports Crc_Frame Gps_Time
begin

text \<open>
  The structures of \<^verbatim>\<open>src/include/deco.h\<close>: a decoded receiver message. The structures
  are records, with a prefix per structure because the fields of different structures share names;
  arrays are lists of the declared length.
\<close>

section \<open>Constants and structures\<close>

definition MAXINTER :: nat where "MAXINTER = 100"
definition MAXPIPE :: nat where "MAXPIPE = 120"
definition PRNNUMBER :: nat where "PRNNUMBER = 16"
definition MAXSAT :: nat where "MAXSAT = 75"
definition SYS_GPS :: byte where "SYS_GPS = 0x01"
definition SYS_SBS :: byte where "SYS_SBS = 0x02"
definition SYS_GLO :: byte where "SYS_GLO = 0x04"
definition SYS_GAL :: byte where "SYS_GAL = 0x08"
definition SYS_CMP :: byte where "SYS_CMP = 0x20"
definition ID_HCNBOARD :: nat where "ID_HCNBOARD = 32002"
definition ID_HCNPIPE :: nat where "ID_HCNPIPE = 32000"
definition ID_BESTPOS :: nat where "ID_BESTPOS = 42"
definition ID_SATVIS :: nat where "ID_SATVIS = 48"
definition ID_DIREC :: nat where "ID_DIREC = 32003"
definition ID_SAT :: nat where "ID_SAT = 32001"
definition ID_INTER :: nat where "ID_INTER = 32007"
definition FRENUM :: nat where "FRENUM = 14"

record inters_t =
  is_comid :: byte
  is_flag :: byte
  is_msgid :: "16 word"
  is_period :: "16 word"

record inter_t =
  in_num :: byte
  in_inters :: "inters_t list"
  in_retype :: byte
  in_comtype :: "byte list"
  in_sytype :: byte
  in_sidotype :: byte
  in_dirtype :: byte
  in_dirlen :: double

record board_t =
  b_acpuload :: byte
  b_dcpuload :: byte
  b_astatus :: byte
  b_dstatus :: byte
  b_fstatus :: byte
  b_workstatus :: byte
  b_mainantnworksta :: byte
  b_mainantnrfsta :: byte
  b_aantnworksta :: byte
  b_aantnrfsta :: byte
  b_flaread :: byte
  b_flawrite :: byte
  b_ip :: "byte list"
  b_netmask :: "byte list"
  b_gateway :: "byte list"
  b_dns :: "byte list"
  b_socktype :: byte
  b_port :: "16 word"
  b_serverip :: "byte list"

record staword_t =
  sw_frenu :: byte
  sw_codetype :: byte
  sw_obsstate :: byte
  sw_sigstate :: byte
  sw_elestate :: byte
  sw_ltag :: byte
  sw_ptag :: byte
  sw_glofreq :: byte

record pipeobs_t =
  po_D :: single
  po_P :: double
  po_pstd :: single
  po_L :: single
  po_lstd :: single

record pipe_t =
  pi_chanid :: "16 word"
  pi_sateid :: byte
  pi_tick :: "32 word"
  pi_staword :: staword_t
  pi_pipeobs :: pipeobs_t
  pi_cn0 :: byte
  pi_locktime :: single

record pipes_t =
  ps_channum :: "16 word"
  ps_pipe :: "pipe_t list"

record gpgsa_t =
  ga_prn :: "byte list"
  ga_pdop :: single
  ga_hdop :: single
  ga_vdop :: single

record bestpos_t =
  bp_lat :: double
  bp_lon :: double
  bp_hgt :: double
  bp_postype :: single
  bp_diffage :: single
  bp_stnid :: single

record satvis_t =
  sv_elev :: double
  sv_az :: double

record direc_t =
  di_qf :: byte
  di_satnum :: byte
  di_pitch :: double
  di_roll :: double
  di_heading :: double
  di_baselat :: double
  di_baselon :: double
  di_basehgt :: double
  di_rovelat :: double
  di_rovelon :: double
  di_rovehgt :: double
  di_hdop :: single

record satprosat_t =
  ss_svid :: "16 word"
  ss_satstatus :: byte
  ss_sigtype :: byte
  ss_solcnt :: "32 word"
  ss_elevation :: single
  ss_azimuth :: single
  ss_troerror :: double
  ss_ionerror :: double
  ss_poserror :: double
  ss_cn :: "single list"

record satpro_t =
  sp_pvtstatus :: byte
  sp_solstacode :: byte
  sp_velcode :: byte
  sp_satnum :: byte
  sp_solsatnum :: byte
  sp_age :: single
  sp_stnid :: "byte list"
  sp_undulation :: single
  sp_successcnt :: "32 word"
  sp_x :: double
  sp_y :: double
  sp_z :: double
  sp_vx :: double
  sp_vy :: double
  sp_vz :: double
  sp_pdop :: single
  sp_gdop :: single
  sp_tdop :: single
  sp_vdop :: single
  sp_hdop :: single
  sp_ecutoff :: single
  sp_posrms :: double
  sp_velrms :: double
  sp_clkbias :: double
  sp_clkdrift :: double
  sp_measnum :: "16 word"
  sp_satprosat :: "satprosat_t list"

record hcnraw_t =
  raw_time :: gtime_t
  raw_nbyte :: int
  raw_len :: int
  raw_msgtype :: cbuf
  raw_outtype :: int
  raw_buff :: "byte list"
  raw_board :: board_t
  raw_pipes :: pipes_t
  raw_bestpos :: bestpos_t
  raw_satvis :: satvis_t
  raw_gpgsa :: gpgsa_t
  raw_direc :: direc_t
  raw_satpro :: satpro_t
  raw_inter :: inter_t

end
