(* ===== verification/Decode.thy ===== *)
theory Decode
  imports Receiver_Types
begin

text \<open>
  The decoder of receiver messages, the second half of \<^verbatim>\<open>src/oem6/deco.c\<close>. The pipe
  that \<open>input_hcnoem4p\<close> reads is the list of the chunks that successive \<open>read\<close> calls find in it;
  an empty chunk stands for end of file or an error. What the code prints or logs is returned as a
  list of \<open>message\<close>s.
\<close>

unbundle bit_operations_syntax

section \<open>Decoders\<close>

datatype message = Logged string | Printed string

definition s_of_u32 :: "32 word \<Rightarrow> single" where
  "s_of_u32 w = s_round False (unat w) 1"

definition exsign :: "32 word \<Rightarrow> nat \<Rightarrow> int" where
  "exsign v bits = sint (if v AND push_bit (bits - 1) 1 \<noteq> 0 then v OR push_bit bits (NOT 0) else v)"

text \<open>The loops that fill small arrays from consecutive bytes or floats.\<close>

fun U1s :: "byte list \<Rightarrow> nat \<Rightarrow> nat \<Rightarrow> byte list option" where
  "U1s p i 0 = Some []"
| "U1s p i (Suc n) = do { b \<leftarrow> U1 p i; bs \<leftarrow> U1s p (Suc i) n; Some (b # bs) }"

fun R4s :: "byte list \<Rightarrow> nat \<Rightarrow> nat \<Rightarrow> single list option" where
  "R4s p i 0 = Some []"
| "R4s p i (Suc n) = do { r \<leftarrow> R4 p i; rs \<leftarrow> R4s p (i + 4) n; Some (r # rs) }"

text \<open>Each decoder gives the message, what it printed and its return value.\<close>

definition decode_hcnboard :: "hcnraw_t \<Rightarrow> (hcnraw_t \<times> message list \<times> int) option" where
  "decode_hcnboard raw = (let p = raw_buff raw in
     if raw_len raw < 71 then Some (raw, [Printed (''board len < 71'' @ [LF])], - 1)
     else do {
       acpuload \<leftarrow> U1 p 28; dcpuload \<leftarrow> U1 p 29; astatus \<leftarrow> U1 p 30; dstatus \<leftarrow> U1 p 31;
       fstatus \<leftarrow> U1 p 32; workstatus \<leftarrow> U1 p 33; mainantnworksta \<leftarrow> U1 p 34; mainantnrfsta \<leftarrow> U1 p 35;
       aantnworksta \<leftarrow> U1 p 36; aantnrfsta \<leftarrow> U1 p 37; flaread \<leftarrow> U1 p 38; flawrite \<leftarrow> U1 p 39;
       ip \<leftarrow> U1s p 48 4; netmask \<leftarrow> U1s p 52 4; gateway \<leftarrow> U1s p 56 4; dns \<leftarrow> U1s p 60 4;
       socktype \<leftarrow> U1 p 64; port \<leftarrow> U2 p 65; serverip \<leftarrow> U1s p 67 4;
       Some (raw\<lparr>raw_board := \<lparr>b_acpuload = acpuload, b_dcpuload = dcpuload, b_astatus = astatus,
           b_dstatus = dstatus, b_fstatus = fstatus, b_workstatus = workstatus,
           b_mainantnworksta = mainantnworksta, b_mainantnrfsta = mainantnrfsta,
           b_aantnworksta = aantnworksta, b_aantnrfsta = aantnrfsta, b_flaread = flaread, b_flawrite = flawrite,
           b_ip = ip, b_netmask = netmask, b_gateway = gateway, b_dns = dns, b_socktype = socktype,
           b_port = port, b_serverip = serverip\<rparr>\<rparr>, [], 12) })"

text \<open>One channel record; the records are 37 bytes apart, but the high byte of \<open>P\<close> is read at
  stride 36, as the code has it.\<close>

definition decode_pipe :: "byte list \<Rightarrow> nat \<Rightarrow> pipe_t option" where
  "decode_pipe p i = do {
     chanid \<leftarrow> U2 p (30 + i * 37); sateid \<leftarrow> U1 p (32 + i * 37); tick \<leftarrow> U4 p (33 + i * 37);
     w37 \<leftarrow> U1 p (37 + i * 37); w38 \<leftarrow> U1 p (38 + i * 37); w39 \<leftarrow> U1 p (39 + i * 37); w40 \<leftarrow> U1 p (40 + i * 37);
     dop \<leftarrow> U4 p (41 + i * 37); plow \<leftarrow> U4 p (44 + i * 37); phigh \<leftarrow> U1 p (48 + i * 36);
     adr \<leftarrow> I4 p (49 + i * 37); std \<leftarrow> U1 p (53 + i * 37); cn0 \<leftarrow> U1 p (54 + i * 37); locktime \<leftarrow> R4 p (55 + i * 37);
     let P = d_add (d_div (d_of_int (uint (drop_bit 4 plow))) (d_of_int 128))
               (d_mul (d_of_int (uint phigh)) (d_of_int 2097152));
     Some \<lparr>pi_chanid = chanid, pi_sateid = sateid, pi_tick = tick,
       pi_staword = \<lparr>sw_frenu = w37 AND 0x3F, sw_codetype = drop_bit 6 w37 AND 0x3, sw_obsstate = w38 AND 0x7,
         sw_sigstate = drop_bit 3 w38 AND 0x1F, sw_elestate = w39 AND 0x3F, sw_ltag = drop_bit 6 w39 AND 0x1,
         sw_ptag = drop_bit 7 w39 AND 0x1, sw_glofreq = w40 AND 0xFF\<rparr>,
       pi_pipeobs = \<lparr>po_D = d_to_s (d_div (d_of_int (exsign (dop AND 0xFFFFFFF) 28)) (d_of_int 256)), po_P = P,
         po_pstd = d_to_s (d_div (d_of_int (uint (std AND 0xF))) (d_of_int 128)),
         po_L = d_to_s (d_add (d_div (d_of_int adr) (d_of_int 2000)) P),
         po_lstd = d_to_s (d_div (d_of_int (uint (drop_bit 4 std AND 0xF))) (d_of_int 256))\<rparr>,
       pi_cn0 = cn0, pi_locktime = locktime\<rparr> }"

fun pipe_loop :: "byte list \<Rightarrow> nat \<Rightarrow> nat \<Rightarrow> pipe_t list \<Rightarrow> pipe_t list option" where
  "pipe_loop p i 0 pipe = Some pipe"
| "pipe_loop p i (Suc n) pipe = do {
     x \<leftarrow> decode_pipe p i;
     pipe \<leftarrow> wr pipe i x;
     pipe_loop p (Suc i) n pipe }"

definition decode_hcnpipe :: "hcnraw_t \<Rightarrow> (hcnraw_t \<times> message list \<times> int) option" where
  "decode_hcnpipe raw = do {
     channum \<leftarrow> U2 (raw_buff raw) 28;
     let raw = raw\<lparr>raw_pipes := (raw_pipes raw)\<lparr>ps_channum := channum\<rparr>\<rparr>;
     if raw_len raw < uint channum * 37 + 2 then Some (raw, [], - 1)
     else do {
       pipe \<leftarrow> pipe_loop (raw_buff raw) 0 (unat channum) (ps_pipe (raw_pipes raw));
       Some (raw\<lparr>raw_pipes := (raw_pipes raw)\<lparr>ps_pipe := pipe\<rparr>\<rparr>, [], uint channum * 7 + 1) } }"

definition decode_bestpos :: "hcnraw_t \<Rightarrow> (hcnraw_t \<times> message list \<times> int) option" where
  "decode_bestpos raw = (let b = raw_buff raw; p = OEM4HLEN in
     if raw_len raw < int OEM4HLEN + 72 then Some (raw, [], - 1)
     else do {
       postype \<leftarrow> U4 b (p + 4); lat \<leftarrow> R8 b (p + 8); lon \<leftarrow> R8 b (p + 16); hgt \<leftarrow> R8 b (p + 24);
       stnid \<leftarrow> U4 b (p + 52); diffage \<leftarrow> U4 b (p + 56);
       Some (raw\<lparr>raw_bestpos := \<lparr>bp_lat = lat, bp_lon = lon, bp_hgt = hgt, bp_postype = s_of_u32 postype,
           bp_diffage = s_of_u32 diffage, bp_stnid = s_of_u32 stnid\<rparr>\<rparr>, [], 5) })"

definition decode_direc :: "hcnraw_t \<Rightarrow> (hcnraw_t \<times> message list \<times> int) option" where
  "decode_direc raw = (let p = raw_buff raw in
     if raw_len raw < 154 then Some (raw, [], - 1)
     else do {
       qf \<leftarrow> U1 p 28; satnum \<leftarrow> U1 p 29; pitch \<leftarrow> R8 p 30; roll \<leftarrow> R8 p 38; heading \<leftarrow> R8 p 46;
       baselat \<leftarrow> R8 p 54; baselon \<leftarrow> R8 p 62; basehgt \<leftarrow> R8 p 70;
       rovelat \<leftarrow> R8 p 78; rovelon \<leftarrow> R8 p 86; rovehgt \<leftarrow> R8 p 94; hdop \<leftarrow> R4 p 102;
       Some (raw\<lparr>raw_direc := \<lparr>di_qf = qf, di_satnum = satnum, di_pitch = pitch, di_roll = roll,
           di_heading = heading, di_baselat = baselat, di_baselon = baselon, di_basehgt = basehgt,
           di_rovelat = rovelat, di_rovelon = rovelon, di_rovehgt = rovehgt, di_hdop = hdop\<rparr>\<rparr>, [], 12) })"

definition decode_satprosat :: "byte list \<Rightarrow> nat \<Rightarrow> satprosat_t option" where
  "decode_satprosat p k = do {
     svid \<leftarrow> U2 p (155 + k * 68); satstatus \<leftarrow> U1 p (157 + k * 68); sigtype \<leftarrow> U1 p (158 + k * 68);
     solcnt \<leftarrow> U4 p (159 + k * 68); elevation \<leftarrow> R4 p (163 + k * 68); azimuth \<leftarrow> R4 p (167 + k * 68);
     troerror \<leftarrow> R8 p (171 + k * 68); ionerror \<leftarrow> R8 p (179 + k * 68); poserror \<leftarrow> R8 p (187 + k * 68);
     cn \<leftarrow> R4s p (195 + k * 68) 3;
     Some \<lparr>ss_svid = svid, ss_satstatus = satstatus, ss_sigtype = sigtype, ss_solcnt = solcnt,
       ss_elevation = elevation, ss_azimuth = azimuth, ss_troerror = troerror, ss_ionerror = ionerror,
       ss_poserror = poserror, ss_cn = cn\<rparr> }"

fun sat_loop :: "byte list \<Rightarrow> nat \<Rightarrow> nat \<Rightarrow> satprosat_t list \<Rightarrow> satprosat_t list option" where
  "sat_loop p k 0 sat = Some sat"
| "sat_loop p k (Suc n) sat = do {
     x \<leftarrow> decode_satprosat p k;
     sat \<leftarrow> wr sat k x;
     sat_loop p (Suc k) n sat }"

text \<open>The loop for \<open>stnid\<close> stores each of its four bytes at index 0.\<close>

fun stnid_loop :: "byte list \<Rightarrow> nat \<Rightarrow> nat \<Rightarrow> byte list \<Rightarrow> byte list option" where
  "stnid_loop p i 0 stnid = Some stnid"
| "stnid_loop p i (Suc n) stnid = do {
     b \<leftarrow> U1 p (37 + i);
     stnid \<leftarrow> wr stnid 0 b;
     stnid_loop p (Suc i) n stnid }"

definition decode_sat :: "hcnraw_t \<Rightarrow> (hcnraw_t \<times> message list \<times> int) option" where
  "decode_sat raw = (let p = raw_buff raw in do {
     pvtstatus \<leftarrow> U1 p 28; solstacode \<leftarrow> U1 p 29; velcode \<leftarrow> U1 p 30; satnum \<leftarrow> U1 p 31; solsatnum \<leftarrow> U1 p 32;
     age \<leftarrow> R4 p 33; stnid \<leftarrow> stnid_loop p 0 4 (sp_stnid (raw_satpro raw));
     undulation \<leftarrow> R4 p 41; successcnt \<leftarrow> U4 p 45;
     x \<leftarrow> R8 p 49; y \<leftarrow> R8 p 57; z \<leftarrow> R8 p 65; vx \<leftarrow> R8 p 73; vy \<leftarrow> R8 p 81; vz \<leftarrow> R8 p 89;
     pdop \<leftarrow> R4 p 97; gdop \<leftarrow> R4 p 101; tdop \<leftarrow> R4 p 105; vdop \<leftarrow> R4 p 109; hdop \<leftarrow> R4 p 113; ecutoff \<leftarrow> R4 p 117;
     posrms \<leftarrow> R8 p 121; velrms \<leftarrow> R8 p 129; clkbias \<leftarrow> R8 p 137; clkdrift \<leftarrow> R8 p 145; measnum \<leftarrow> U2 p 153;
     satprosat \<leftarrow> sat_loop p 0 (unat satnum) (sp_satprosat (raw_satpro raw));
     Some (raw\<lparr>raw_satpro := \<lparr>sp_pvtstatus = pvtstatus, sp_solstacode = solstacode, sp_velcode = velcode,
         sp_satnum = satnum, sp_solsatnum = solsatnum, sp_age = age, sp_stnid = stnid, sp_undulation = undulation,
         sp_successcnt = successcnt, sp_x = x, sp_y = y, sp_z = z, sp_vx = vx, sp_vy = vy, sp_vz = vz,
         sp_pdop = pdop, sp_gdop = gdop, sp_tdop = tdop, sp_vdop = vdop, sp_hdop = hdop, sp_ecutoff = ecutoff,
         sp_posrms = posrms, sp_velrms = velrms, sp_clkbias = clkbias, sp_clkdrift = clkdrift,
         sp_measnum = measnum, sp_satprosat = satprosat\<rparr>\<rparr>, [], 41) })"

definition decode_satvis :: "hcnraw_t \<Rightarrow> (hcnraw_t \<times> message list \<times> int) option" where
  "decode_satvis raw = (let b = raw_buff raw; p = OEM4HLEN in
     if raw_len raw < int OEM4HLEN + 44 then Some (raw, [], - 1)
     else do {
       elev \<leftarrow> R8 b (p + 20); az \<leftarrow> R8 b (p + 28);
       Some (raw\<lparr>raw_satvis := \<lparr>sv_elev = elev, sv_az = az\<rparr>\<rparr>, [], 2) })"

definition decode_inters :: "byte list \<Rightarrow> nat \<Rightarrow> inters_t option" where
  "decode_inters p i = do {
     comid \<leftarrow> U1 p (29 + i * 6); flag \<leftarrow> U1 p (30 + i * 6); msgid \<leftarrow> U2 p (31 + i * 6); period \<leftarrow> U2 p (33 + i * 6);
     Some \<lparr>is_comid = comid, is_flag = flag, is_msgid = msgid, is_period = period\<rparr> }"

fun inter_loop :: "byte list \<Rightarrow> nat \<Rightarrow> nat \<Rightarrow> inters_t list \<Rightarrow> inters_t list option" where
  "inter_loop p i 0 xs = Some xs"
| "inter_loop p i (Suc n) xs = do {
     x \<leftarrow> decode_inters p i;
     xs \<leftarrow> wr xs i x;
     inter_loop p (Suc i) n xs }"

text \<open>After the loop \<open>i\<close> is the number of records, so \<open>retype\<close> is read at \<open>29 + 6 num\<^sup>2\<close>.\<close>

definition decode_inter :: "hcnraw_t \<Rightarrow> (hcnraw_t \<times> message list \<times> int) option" where
  "decode_inter raw = (let p = raw_buff raw in do {
     num \<leftarrow> U1 p 28;
     let n = unat num;
     inters \<leftarrow> inter_loop p 0 n (in_inters (raw_inter raw));
     retype \<leftarrow> U1 p (29 + n * 6 * n);
     comtype \<leftarrow> U1s p (30 + 6 * n) 3;
     sytype \<leftarrow> U1 p (33 + 6 * n); sidotype \<leftarrow> U1 p (34 + 6 * n); dirtype \<leftarrow> U1 p (35 + 6 * n);
     dirlen \<leftarrow> R8 p (36 + 6 * n);
     Some (raw\<lparr>raw_inter := \<lparr>in_num = num, in_inters = inters, in_retype = retype, in_comtype = comtype,
         in_sytype = sytype, in_sidotype = sidotype, in_dirtype = dirtype, in_dirlen = dirlen\<rparr>\<rparr>, [], 20) })"


section \<open>Messages\<close>

text \<open>\<open>%4d\<close>\<close>

definition pad4 :: "int \<Rightarrow> string" where
  "pad4 i = (let s = show_int i in replicate (4 - length s) (CHR '' '') @ s)"

text \<open>The switch over the message identifiers.\<close>

definition decode_message :: "nat \<Rightarrow> hcnraw_t \<Rightarrow> (hcnraw_t \<times> message list \<times> int) option" where
  "decode_message ty raw =
     (if ty = ID_HCNBOARD then decode_hcnboard raw
      else if ty = ID_HCNPIPE then decode_hcnpipe raw
      else if ty = ID_BESTPOS then decode_bestpos raw
      else if ty = ID_SATVIS then decode_satvis raw
      else if ty = ID_DIREC then decode_direc raw
      else if ty = ID_SAT then decode_sat raw
      else if ty = ID_INTER then decode_inter raw
      else Some (raw, [], 0))"

text \<open>The description of the message, written when \<open>outtype\<close> asks for it.\<close>

definition report_message :: "hcnraw_t \<Rightarrow> gtime_t \<Rightarrow> int \<Rightarrow> int \<Rightarrow> hcnraw_t option" where
  "report_message raw t ty msg =
     (if raw_outtype raw \<noteq> 0 then do {
        s \<leftarrow> time_str t 2;
        m \<leftarrow> str_write (raw_msgtype raw) 0
          (''OEM4 '' @ pad4 ty @ '' ('' @ pad4 (raw_len raw) @ ''): msg='' @ show_int msg @ '' '' @ s);
        Some (raw\<lparr>raw_msgtype := m\<rparr>) }
      else Some raw)"

text \<open>\<open>myerror\<close> is called with a format, which it prints as it is. The result is the message, the value
  stored through \<open>type\<close>, what was logged or printed, and the return value.\<close>

definition crc_error :: string where
  "crc_error = ''oem4 crc error: type=%3d len=%d'' @ [LF]"

definition decode_hcnoem4 :: "double list \<Rightarrow> hcnraw_t \<Rightarrow> (hcnraw_t \<times> int \<times> message list \<times> int) option" where
  "decode_hcnoem4 now raw = (let b = raw_buff raw in do {
     ty \<leftarrow> U2 b 4;
     crc \<leftarrow> crc32 b (raw_len raw);
     stored \<leftarrow> U4 b (nat (raw_len raw));
     if crc \<noteq> stored then Some (raw, uint ty, [Logged crc_error], - 1)
     else do {
       b6 \<leftarrow> U1 b 6;
       let msg = uint (drop_bit 4 b6 AND 0x3);
       wn \<leftarrow> U2 b 14;
       week \<leftarrow> adjgpsweek now (uint wn);
       ms \<leftarrow> U4 b 16;
       let tow = d_mul (d_of_int (uint ms)) 0x3F50624DD2F1A9FC;
       t \<leftarrow> gpst2time week tow;
       let raw = raw\<lparr>raw_time := t\<rparr>;
       raw \<leftarrow> report_message raw t (uint ty) msg;
       if msg \<noteq> 0 then Some (raw, uint ty, [], 0)
       else do {
         (raw, out, res) \<leftarrow> decode_message (unat ty) raw;
         Some (raw, uint ty, out, res) } } })"

section \<open>Input\<close>

text \<open>\<open>read(fd,p,n)\<close>, \<open>n > 0\<close>: the bytes it stores and the rest of the pipe.\<close>

type_synonym fifo = "byte list list"

fun fd_read :: "nat \<Rightarrow> fifo \<Rightarrow> byte list \<times> fifo" where
  "fd_read n [] = ([], [])"
| "fd_read n (c # cs) = (take n c, if length c \<le> n then cs else drop n c # cs)"

datatype sync_result = NoData | Synced | GivenUp

function sync_loop :: "nat \<Rightarrow> byte list \<Rightarrow> fifo \<Rightarrow> (sync_result \<times> byte list \<times> fifo) option" where
  "sync_loop i buff fd =
     (case fd_read 1 fd of
        ([], fd) \<Rightarrow> Some (NoData, buff, fd)
      | (data # _, fd) \<Rightarrow> do {
          (buff, found) \<leftarrow> sync_oem4 buff data;
          if found then Some (Synced, buff, fd)
          else if i \<ge> 4096 then Some (GivenUp, buff, fd)
          else sync_loop (Suc i) buff fd })"
  by auto
termination by (relation "measure (\<lambda>(i, _). 4097 - i)") auto

declare sync_loop.simps [simp del]

text \<open>The frame after the synchronisation bytes: header, length check, rest, decoding.\<close>

definition input_frame ::
    "double list \<Rightarrow> hcnraw_t \<Rightarrow> fifo \<Rightarrow> (hcnraw_t \<times> int option \<times> message list \<times> int \<times> fifo) option" where
  "input_frame now raw fd =
     (let (hdr, fd) = fd_read 7 fd in do {
      buff \<leftarrow> mem_write (raw_buff raw) 3 hdr;
      let raw = raw\<lparr>raw_buff := buff\<rparr>;
      if length hdr < 1 then Some (raw, None, [], - 2, fd)
      else do {
        n \<leftarrow> U2 buff 8;
        let len = uint n + int OEM4HLEN;
        let raw = raw\<lparr>raw_nbyte := 10, raw_len := len\<rparr>;
        if len > int MAXRAWLEN - 4 then Some (raw\<lparr>raw_nbyte := 0\<rparr>, None, [], - 1, fd)
        else do {
          let (body, fd) = fd_read (nat (len - 6)) fd;
          buff \<leftarrow> mem_write (raw_buff raw) 10 body;
          let raw = raw\<lparr>raw_buff := buff\<rparr>;
          if length body < 1 then Some (raw, None, [], - 2, fd)
          else do {
            (raw, ty, out, res) \<leftarrow> decode_hcnoem4 now (raw\<lparr>raw_nbyte := 0\<rparr>);
            Some (raw, Some ty, out, res, fd) } } } })"

definition input_hcnoem4p ::
    "double list \<Rightarrow> hcnraw_t \<Rightarrow> fifo \<Rightarrow> (hcnraw_t \<times> int option \<times> message list \<times> int \<times> fifo) option" where
  "input_hcnoem4p now raw fd =
     (if raw_nbyte raw = 0 then do {
        (res, buff, fd) \<leftarrow> sync_loop 0 (raw_buff raw) fd;
        let raw = raw\<lparr>raw_buff := buff\<rparr>;
        case res of
          NoData \<Rightarrow> Some (raw, None, [], - 2, fd)
        | GivenUp \<Rightarrow> Some (raw, None, [], 0, fd)
        | Synced \<Rightarrow> input_frame now raw fd }
      else input_frame now raw fd)"

section \<open>The empty message\<close>

text \<open>\<open>hcnraw_t hcnraw = {{0}}\<close>, as \<open>deal_pro\<close> starts with.\<close>

definition board_zero :: board_t where
  "board_zero = \<lparr>b_acpuload = 0, b_dcpuload = 0, b_astatus = 0, b_dstatus = 0, b_fstatus = 0, b_workstatus = 0,
     b_mainantnworksta = 0, b_mainantnrfsta = 0, b_aantnworksta = 0, b_aantnrfsta = 0, b_flaread = 0, b_flawrite = 0,
     b_ip = replicate 4 0, b_netmask = replicate 4 0, b_gateway = replicate 4 0, b_dns = replicate 4 0,
     b_socktype = 0, b_port = 0, b_serverip = replicate 4 0\<rparr>"

definition pipe_zero :: pipe_t where
  "pipe_zero = \<lparr>pi_chanid = 0, pi_sateid = 0, pi_tick = 0,
     pi_staword = \<lparr>sw_frenu = 0, sw_codetype = 0, sw_obsstate = 0, sw_sigstate = 0, sw_elestate = 0, sw_ltag = 0,
       sw_ptag = 0, sw_glofreq = 0\<rparr>,
     pi_pipeobs = \<lparr>po_D = 0, po_P = 0, po_pstd = 0, po_L = 0, po_lstd = 0\<rparr>, pi_cn0 = 0, pi_locktime = 0\<rparr>"

definition satprosat_zero :: satprosat_t where
  "satprosat_zero = \<lparr>ss_svid = 0, ss_satstatus = 0, ss_sigtype = 0, ss_solcnt = 0, ss_elevation = 0, ss_azimuth = 0,
     ss_troerror = 0, ss_ionerror = 0, ss_poserror = 0, ss_cn = replicate 3 0\<rparr>"

definition satpro_zero :: satpro_t where
  "satpro_zero = \<lparr>sp_pvtstatus = 0, sp_solstacode = 0, sp_velcode = 0, sp_satnum = 0, sp_solsatnum = 0, sp_age = 0,
     sp_stnid = replicate 4 0, sp_undulation = 0, sp_successcnt = 0, sp_x = 0, sp_y = 0, sp_z = 0, sp_vx = 0, sp_vy = 0,
     sp_vz = 0, sp_pdop = 0, sp_gdop = 0, sp_tdop = 0, sp_vdop = 0, sp_hdop = 0, sp_ecutoff = 0, sp_posrms = 0,
     sp_velrms = 0, sp_clkbias = 0, sp_clkdrift = 0, sp_measnum = 0, sp_satprosat = replicate MAXSAT satprosat_zero\<rparr>"

definition hcnraw_zero :: hcnraw_t where
  "hcnraw_zero = \<lparr>raw_time = gtime 0 0, raw_nbyte = 0, raw_len = 0, raw_msgtype = replicate 256 NUL, raw_outtype = 0,
     raw_buff = replicate MAXRAWLEN 0, raw_board = board_zero,
     raw_pipes = \<lparr>ps_channum = 0, ps_pipe = replicate MAXPIPE pipe_zero\<rparr>,
     raw_bestpos = \<lparr>bp_lat = 0, bp_lon = 0, bp_hgt = 0, bp_postype = 0, bp_diffage = 0, bp_stnid = 0\<rparr>,
     raw_satvis = \<lparr>sv_elev = 0, sv_az = 0\<rparr>,
     raw_gpgsa = \<lparr>ga_prn = replicate PRNNUMBER 0, ga_pdop = 0, ga_hdop = 0, ga_vdop = 0\<rparr>,
     raw_direc = \<lparr>di_qf = 0, di_satnum = 0, di_pitch = 0, di_roll = 0, di_heading = 0, di_baselat = 0,
       di_baselon = 0, di_basehgt = 0, di_rovelat = 0, di_rovelon = 0, di_rovehgt = 0, di_hdop = 0\<rparr>,
     raw_satpro = satpro_zero,
     raw_inter = \<lparr>in_num = 0, in_inters = replicate MAXINTER \<lparr>is_comid = 0, is_flag = 0, is_msgid = 0, is_period = 0\<rparr>,
       in_retype = 0, in_comtype = replicate 3 0, in_sytype = 0, in_sidotype = 0, in_dirtype = 0, in_dirlen = 0\<rparr>\<rparr>"

section \<open>When the decoders are defined\<close>

lemma field_None_iff:
  "U1 p i = None \<longleftrightarrow> length p \<le> i" "U2 p i = None \<longleftrightarrow> length p < i + 2" "U4 p i = None \<longleftrightarrow> length p < i + 4"
  "R4 p i = None \<longleftrightarrow> length p < i + 4" "R8 p i = None \<longleftrightarrow> length p < i + 8"
  by (auto simp: U1_def U2_def U4_def R4_def R8_def copy_bytes_def rd_def)

lemma U1s_Some_iff: "U1s p i n = Some bs \<longleftrightarrow> (n = 0 \<and> bs = []) \<or> (i + n \<le> length p \<and> bs = take n (drop i p))"
proof (induction p i n arbitrary: bs rule: U1s.induct)
  case (2 p i n)
  show ?case
  proof (cases "i < length p")
    case True
    then have "take (Suc n) (drop i p) = p ! i # take n (drop (Suc i) p)"
      by (simp flip: Cons_nth_drop_Suc)
    with True 2 show ?thesis by (cases n) (auto simp: c_mem)
  qed (simp add: U1_def rd_def)
qed auto

lemma U1s_inside [simp]: "i + n \<le> length p \<Longrightarrow> U1s p i n = Some (take n (drop i p))"
  by (simp add: U1s_Some_iff)

lemma R4_Some_iff: "R4 p i = Some r \<longleftrightarrow> i + 4 \<le> length p \<and> r = of_nat (le_nat (take 4 (drop i p)))"
  by (auto simp: R4_def copy_bytes_def)

lemma R4s_inside: "i + 4 * n \<le> length p \<Longrightarrow> \<exists>rs. R4s p i n = Some rs \<and> length rs = n"
  by (induction p i n rule: R4s.induct) auto

lemma R4s_outside: "length p < i + 4 * n \<Longrightarrow> 0 < n \<Longrightarrow> R4s p i n = None"
proof (induction p i n rule: R4s.induct)
  case (2 p i n)
  then show ?case by (cases n) (auto simp: bind_None_iff R4_Some_iff R4_def copy_bytes_def)
qed simp

lemma decode_pipe_inside: "59 + i * 37 \<le> length p \<Longrightarrow> decode_pipe p i \<noteq> None"
  by (simp add: decode_pipe_def Let_def)

lemma decode_satprosat_iff: "decode_satprosat p k \<noteq> None \<longleftrightarrow> 207 + k * 68 \<le> length p"
proof (cases "207 + k * 68 \<le> length p")
  case True
  then show ?thesis using R4s_inside [of "195 + k * 68" 3 p] by (auto simp: decode_satprosat_def)
next
  case False
  then show ?thesis using R4s_outside [of p "195 + k * 68" 3]
    by (auto simp: decode_satprosat_def bind_None_iff)
qed

lemma decode_inters_inside: "35 + i * 6 \<le> length p \<Longrightarrow> decode_inters p i \<noteq> None"
  by (simp add: decode_inters_def)

lemma pipe_loop_inside:
  assumes "59 + (i + n) * 37 \<le> length p + 37" and "i + n \<le> length pipe"
  shows "\<exists>pipe'. pipe_loop p i n pipe = Some pipe' \<and> length pipe' = length pipe"
  using assms
proof (induction p i n pipe rule: pipe_loop.induct)
  case (2 p i n pipe)
  then obtain x where "decode_pipe p i = Some x" using decode_pipe_inside [of i p] by auto
  with 2(2,3) 2(1) [of x "pipe[i := x]"] show ?case by simp
qed simp

lemma sat_loop_iff:
  assumes "k + n \<le> length sat"
  shows "sat_loop p k n sat \<noteq> None \<longleftrightarrow> n = 0 \<or> 207 + (k + n) * 68 \<le> length p + 68"
  using assms
proof (induction p k n sat rule: sat_loop.induct)
  case (2 p k n sat)
  show ?case
  proof (cases "decode_satprosat p k")
    case None
    then show ?thesis using decode_satprosat_iff [of p k] by simp
  next
    case (Some x)
    then show ?thesis using 2 decode_satprosat_iff [of p k] by (cases n) auto
  qed
qed simp

lemma sat_loop_length: "sat_loop p k n sat = Some sat' \<Longrightarrow> length sat' = length sat"
  by (induction p k n sat rule: sat_loop.induct) (auto simp: c_mem)

lemma sat_loop_outside: "length sat < k + n \<Longrightarrow> k \<le> length sat \<Longrightarrow> sat_loop p k n sat = None"
proof (induction p k n sat rule: sat_loop.induct)
  case (2 p k n sat)
  show ?case
  proof (cases "decode_satprosat p k")
    case (Some x)
    with 2(2,3) 2(1) [of x "sat[k := x]"] show ?thesis by (cases "k < length sat") (auto simp: wr_def)
  qed simp
qed simp

lemma inter_loop_inside:
  assumes "i + n \<le> length xs" and "35 + (i + n) * 6 \<le> length p + 6"
  shows "\<exists>xs'. inter_loop p i n xs = Some xs' \<and> length xs' = length xs"
  using assms
proof (induction p i n xs rule: inter_loop.induct)
  case (2 p i n xs)
  then obtain x where "decode_inters p i = Some x" using decode_inters_inside [of i p] by auto
  with 2(2,3) 2(1) [of x "xs[i := x]"] show ?case by simp
qed simp

lemma inter_loop_length: "inter_loop p i n xs = Some xs' \<Longrightarrow> length xs' = length xs"
  by (induction p i n xs rule: inter_loop.induct) (auto simp: c_mem)

lemma pipe_loop_length: "pipe_loop p i n xs = Some xs' \<Longrightarrow> length xs' = length xs"
  by (induction p i n xs rule: pipe_loop.induct) (auto simp: c_mem)

lemma stnid_loop_length: "stnid_loop p i n xs = Some xs' \<Longrightarrow> length xs' = length xs"
  by (induction p i n xs rule: stnid_loop.induct) (auto simp: c_mem)

lemma stnid_loop_inside:
  "37 + i + n \<le> length p \<Longrightarrow> xs \<noteq> [] \<Longrightarrow> stnid_loop p i n xs \<noteq> None"
  by (induction p i n xs rule: stnid_loop.induct) auto

section \<open>The shape of a message\<close>

definition hcnraw_ok :: "hcnraw_t \<Rightarrow> bool" where
  "hcnraw_ok raw \<longleftrightarrow> length (raw_buff raw) = MAXRAWLEN \<and> length (raw_msgtype raw) = 256
     \<and> length (b_ip (raw_board raw)) = 4 \<and> length (b_netmask (raw_board raw)) = 4
     \<and> length (b_gateway (raw_board raw)) = 4 \<and> length (b_dns (raw_board raw)) = 4
     \<and> length (b_serverip (raw_board raw)) = 4
     \<and> length (ps_pipe (raw_pipes raw)) = MAXPIPE
     \<and> length (sp_stnid (raw_satpro raw)) = 4 \<and> length (sp_satprosat (raw_satpro raw)) = MAXSAT
     \<and> length (in_inters (raw_inter raw)) = MAXINTER \<and> length (in_comtype (raw_inter raw)) = 3"

lemma hcnraw_zero_ok: "hcnraw_ok hcnraw_zero"
  by (simp add: hcnraw_ok_def hcnraw_zero_def board_zero_def satpro_zero_def)

lemmas hcnraw_sizes = hcnraw_ok_def MAXRAWLEN_def MAXPIPE_def MAXSAT_def MAXINTER_def OEM4HLEN_def

lemma decode_inter_iff:
  assumes "hcnraw_ok raw"
  shows "decode_inter raw \<noteq> None \<longleftrightarrow> unat (raw_buff raw ! 28) \<le> 26"
proof -
  let ?p = "raw_buff raw" and ?n = "unat (raw_buff raw ! 28)"
  have len: "length ?p = 4096" using assms by (simp add: hcnraw_sizes)
  show ?thesis
  proof (cases "?n \<le> 26")
    case True
    then have "?n * 6 * ?n \<le> 26 * 6 * 26" by (intro mult_le_mono) auto
    with True len obtain xs where xs: "inter_loop ?p 0 ?n (in_inters (raw_inter raw)) = Some xs"
      using inter_loop_inside [of 0 ?n "in_inters (raw_inter raw)" ?p] assms by (auto simp: hcnraw_sizes)
    have u1: "U1 ?p 28 = Some (?p ! 28)" using len by simp
    have "29 + ?n * 6 * ?n < 4096" "36 + 6 * ?n + 8 \<le> 4096"
      using True \<open>?n * 6 * ?n \<le> 26 * 6 * 26\<close> by linarith+
    then have "decode_inter raw \<noteq> None"
      unfolding decode_inter_def Let_def u1 bind.bind_lunit xs
      by (intro defined_intros) (simp_all add: field_None_iff len)
    with True show ?thesis by simp
  next
    case False
    then have "27 * 6 * 27 \<le> ?n * 6 * ?n" by (intro mult_le_mono) auto
    then have "U1 ?p (29 + ?n * 6 * ?n) = None" using len by (simp add: U1_def rd_def)
    then have "decode_inter raw = None" using len by (simp add: decode_inter_def Let_def bind_undefined)
    with False show ?thesis by simp
  qed
qed

lemma decode_sat_iff:
  assumes "hcnraw_ok raw"
  shows "decode_sat raw \<noteq> None \<longleftrightarrow> unat (raw_buff raw ! 31) \<le> 58"
proof -
  let ?p = "raw_buff raw" and ?n = "unat (raw_buff raw ! 31)" and ?sat = "sp_satprosat (raw_satpro raw)"
  have len: "length ?p = 4096" and sat: "length ?sat = 75" using assms by (simp_all add: hcnraw_sizes)
  have "stnid_loop ?p 0 4 (sp_stnid (raw_satpro raw)) \<noteq> None"
    using assms by (intro stnid_loop_inside) (auto simp: hcnraw_sizes)
  then obtain st where st: "stnid_loop ?p 0 4 (sp_stnid (raw_satpro raw)) = Some st" by blast
  have loop: "sat_loop ?p 0 ?n ?sat \<noteq> None \<longleftrightarrow> ?n \<le> 58"
  proof (cases "?n \<le> 75")
    case True
    have "m = 0 \<or> 207 + (0 + m) * 68 \<le> 4096 + 68 \<longleftrightarrow> m \<le> 58" for m :: nat by presburger
    moreover have "sat_loop ?p 0 ?n ?sat \<noteq> None \<longleftrightarrow> ?n = 0 \<or> 207 + (0 + ?n) * 68 \<le> 4096 + 68"
      using sat_loop_iff [of 0 ?n ?sat ?p] True unfolding len sat add_0 by blast
    ultimately show ?thesis by simp
  next
    case False
    then show ?thesis using sat_loop_outside [of ?sat 0 ?n ?p] sat by simp
  qed
  have u1: "U1 ?p 31 = Some (?p ! 31)" using len by simp
  show ?thesis
  proof (cases "?n \<le> 58")
    case True
    then have nn: "sat_loop ?p 0 ?n ?sat \<noteq> None" using loop by simp
    have "decode_sat raw \<noteq> None" unfolding decode_sat_def Let_def st u1 bind.bind_lunit
      by (intro defined_intros; simp add: field_None_iff len nn)
    with True show ?thesis by simp
  next
    case False
    then have n: "sat_loop ?p 0 ?n ?sat = None" using loop by simp
    have "decode_sat raw = None" unfolding decode_sat_def Let_def st u1 bind.bind_lunit n bind.bind_lzero
      by (intro bind_undefined) simp
    with False show ?thesis by simp
  qed
qed

lemma decode_hcnpipe_defined:
  assumes "hcnraw_ok raw" and "raw_len raw \<le> 4092"
  shows "decode_hcnpipe raw \<noteq> None"
proof -
  let ?p = "raw_buff raw"
  have len: "length ?p = 4096" and pipe: "length (ps_pipe (raw_pipes raw)) = 120" using assms by (simp_all add: hcnraw_sizes)
  then obtain n where n: "U2 ?p 28 = Some n" by simp
  show ?thesis
  proof (cases "raw_len raw < uint n * 37 + 2")
    case False
    then have "uint n * 37 \<le> 4090" using assms(2) by simp
    moreover have "int (unat n) = uint n" by simp
    ultimately have "unat n \<le> 110" by linarith
    then have "\<exists>q. pipe_loop ?p 0 (unat n) (ps_pipe (raw_pipes raw)) = Some q \<and> length q = 120"
      using pipe_loop_inside [of 0 "unat n" ?p "ps_pipe (raw_pipes raw)"] len pipe by simp
    then show ?thesis using n False by (auto simp: decode_hcnpipe_def)
  qed (simp add: decode_hcnpipe_def n)
qed

lemma fixed_decoders_defined:
  assumes "hcnraw_ok raw"
  shows "decode_hcnboard raw \<noteq> None" "decode_bestpos raw \<noteq> None" "decode_direc raw \<noteq> None" "decode_satvis raw \<noteq> None"
proof -
  have len: "length (raw_buff raw) = 4096" using assms by (simp add: hcnraw_sizes)
  show "decode_hcnboard raw \<noteq> None" unfolding decode_hcnboard_def Let_def
    by (intro defined_intros; simp add: field_None_iff len)
  show "decode_bestpos raw \<noteq> None" unfolding decode_bestpos_def Let_def OEM4HLEN_def
    by (intro defined_intros; simp add: field_None_iff len)
  show "decode_direc raw \<noteq> None" unfolding decode_direc_def Let_def
    by (intro defined_intros; simp add: field_None_iff len)
  show "decode_satvis raw \<noteq> None" unfolding decode_satvis_def Let_def OEM4HLEN_def
    by (intro defined_intros; simp add: field_None_iff len)
qed

lemma U1s_length: "U1s p i n = Some bs \<Longrightarrow> length bs = n"
  by (auto simp: U1s_Some_iff)

lemma decoders_keep_shape:
  assumes ok: "hcnraw_ok raw"
  shows "wlp (decode_hcnboard raw) (\<lambda>(raw', out, res). hcnraw_ok raw')"
    and "wlp (decode_hcnpipe raw) (\<lambda>(raw', out, res). hcnraw_ok raw')"
    and "wlp (decode_bestpos raw) (\<lambda>(raw', out, res). hcnraw_ok raw')"
    and "wlp (decode_satvis raw) (\<lambda>(raw', out, res). hcnraw_ok raw')"
    and "wlp (decode_direc raw) (\<lambda>(raw', out, res). hcnraw_ok raw')"
    and "wlp (decode_sat raw) (\<lambda>(raw', out, res). hcnraw_ok raw')"
    and "wlp (decode_inter raw) (\<lambda>(raw', out, res). hcnraw_ok raw')"
proof -
  show "wlp (decode_hcnboard raw) (\<lambda>(raw', out, res). hcnraw_ok raw')"
    unfolding decode_hcnboard_def Let_def
    using ok by (intro wlp_intros) (simp_all add: hcnraw_ok_def U1s_length)
  show "wlp (decode_hcnpipe raw) (\<lambda>(raw', out, res). hcnraw_ok raw')"
    unfolding decode_hcnpipe_def Let_def
    using ok by (intro wlp_intros) (simp_all add: hcnraw_ok_def pipe_loop_length)
  show "wlp (decode_bestpos raw) (\<lambda>(raw', out, res). hcnraw_ok raw')"
    unfolding decode_bestpos_def Let_def
    using ok by (intro wlp_intros) (simp_all add: hcnraw_ok_def)
  show "wlp (decode_satvis raw) (\<lambda>(raw', out, res). hcnraw_ok raw')"
    unfolding decode_satvis_def Let_def
    using ok by (intro wlp_intros) (simp_all add: hcnraw_ok_def)
  show "wlp (decode_direc raw) (\<lambda>(raw', out, res). hcnraw_ok raw')"
    unfolding decode_direc_def Let_def
    using ok by (intro wlp_intros) (simp_all add: hcnraw_ok_def)
  show "wlp (decode_sat raw) (\<lambda>(raw', out, res). hcnraw_ok raw')"
    unfolding decode_sat_def Let_def
    using ok by (intro wlp_intros) (simp_all add: hcnraw_ok_def sat_loop_length stnid_loop_length)
  show "wlp (decode_inter raw) (\<lambda>(raw', out, res). hcnraw_ok raw')"
    unfolding decode_inter_def Let_def
    using ok by (intro wlp_intros) (simp_all add: hcnraw_ok_def inter_loop_length U1s_length)
qed

lemma str_write_length: "str_write b i s = Some b' \<Longrightarrow> length b' = length b"
  by (auto simp: str_write_def mem_write_Some_iff)

lemma mem_write_length: "mem_write b i s = Some b' \<Longrightarrow> length b' = length b"
  by (auto simp: mem_write_Some_iff)

lemma decode_message_shape:
  "hcnraw_ok raw \<Longrightarrow> wlp (decode_message ty raw) (\<lambda>(raw', out, res). hcnraw_ok raw')"
  unfolding decode_message_def
  by (intro wlp_if decoders_keep_shape) (simp_all add: wlp_Some)

lemma hcnraw_ok_updates:
  "hcnraw_ok r \<Longrightarrow> hcnraw_ok (r\<lparr>raw_time := t\<rparr>)"
  "hcnraw_ok r \<Longrightarrow> hcnraw_ok (r\<lparr>raw_nbyte := i\<rparr>)"
  "hcnraw_ok r \<Longrightarrow> hcnraw_ok (r\<lparr>raw_len := i\<rparr>)"
  "hcnraw_ok r \<Longrightarrow> length m = 256 \<Longrightarrow> hcnraw_ok (r\<lparr>raw_msgtype := m\<rparr>)"
  "hcnraw_ok r \<Longrightarrow> length b = MAXRAWLEN \<Longrightarrow> hcnraw_ok (r\<lparr>raw_buff := b\<rparr>)"
  by (simp_all add: hcnraw_ok_def)

lemma report_message_shape: "hcnraw_ok raw \<Longrightarrow> wlp (report_message raw t ty msg) hcnraw_ok"
  unfolding report_message_def
  by (intro wlp_intros) (auto simp: hcnraw_ok_def str_write_length)

lemma decode_hcnoem4_shape:
  "hcnraw_ok raw \<Longrightarrow> wlp (decode_hcnoem4 now raw) (\<lambda>(raw', ty, out, res). hcnraw_ok raw')"
  unfolding decode_hcnoem4_def Let_def
  by (intro wlp_intros)
    (auto intro: hcnraw_ok_updates dest: wlpD [OF report_message_shape [OF hcnraw_ok_updates(1)]] wlpD [OF decode_message_shape])

section \<open>The pipe\<close>

lemma fd_read_bytes: "fd_read n fd = (bs, fd') \<Longrightarrow> concat fd = bs @ concat fd' \<and> length bs \<le> n"
  by (induction n fd rule: fd_read.induct) (auto split: if_splits)

lemma fd_read_chunk: "length bs = n \<Longrightarrow> 0 < n \<Longrightarrow>
    fd_read n ((bs @ rest) # cs) = (bs, if rest = [] then cs else rest # cs)"
  by auto

lemma sync_oem4_length: "sync_oem4 buff d = Some (buff', r) \<Longrightarrow> length buff' = length buff"
  by (auto simp: sync_oem4_def c_mem)

lemma sync_loop_shape:
  assumes "sync_loop i buff fd = Some (res, buff', fd')" and "i \<le> 4096"
  shows "length buff' = length buff \<and> (\<exists>used. concat fd = used @ concat fd' \<and> length used \<le> 4097 - i)"
  using assms
proof (induction i buff fd rule: sync_loop.induct)
  case (1 i buff fd)
  obtain bs fd1 where rd: "fd_read (Suc 0) fd = (bs, fd1)" by fastforce
  note bytes = fd_read_bytes [OF rd]
  show ?case
  proof (cases bs)
    case Nil
    then show ?thesis using 1(2) rd bytes by (subst (asm) sync_loop.simps) auto
  next
    case (Cons d ds)
    with bytes have ds: "ds = []" by simp
    from 1(2) obtain b1 found where s: "sync_oem4 buff d = Some (b1, found)"
      by (subst (asm) sync_loop.simps) (auto simp: rd Cons c_mem)
    note len = sync_oem4_length [OF s]
    show ?thesis
    proof (cases "found \<or> i \<ge> 4096")
      case True
      then show ?thesis using 1(2,3) rd bytes s len Cons ds
        by (subst (asm) sync_loop.simps) (auto split: if_splits)
    next
      case False
      then have "sync_loop (Suc i) b1 fd1 = Some (res, buff', fd')"
        using 1(2) rd s Cons by (subst (asm) sync_loop.simps) auto
      then have "length buff' = length b1 \<and> (\<exists>used. concat fd1 = used @ concat fd' \<and> length used \<le> 4097 - Suc i)"
        using 1(1) [unfolded One_nat_def, OF rd [symmetric] Cons s refl] False by auto
      then obtain used where "concat fd1 = used @ concat fd'" "length used \<le> 4097 - Suc i" "length buff' = length b1" by auto
      then show ?thesis using bytes Cons ds len False by (intro conjI exI [of _ "d # used"]) auto
    qed
  qed
qed

lemma input_frame_shape:
  assumes "hcnraw_ok raw"
  shows "wlp (input_frame now raw fd) (\<lambda>(raw', ty, out, res, fd').
    hcnraw_ok raw' \<and> (\<exists>used. concat fd = used @ concat fd' \<and> length used \<le> 4093))"
proof (rule wlpI, clarify)
  fix raw' ty out res fd'
  assume run: "input_frame now raw fd = Some (raw', ty, out, res, fd')"
  obtain hdr fd1 where h: "fd_read 7 fd = (hdr, fd1)" by fastforce
  from run obtain b1 where b1: "mem_write (raw_buff raw) 3 hdr = Some b1"
    by (auto simp: input_frame_def h c_mem)
  have len1: "length b1 = MAXRAWLEN" using mem_write_length [OF b1] assms by (simp add: hcnraw_ok_def)
  note c1 = fd_read_bytes [OF h]
  have ok1: "hcnraw_ok (raw\<lparr>raw_buff := b1, raw_nbyte := i, raw_len := j\<rparr>)" for i j
    using assms len1 by (simp add: hcnraw_ok_updates)
  obtain n where n: "U2 b1 8 = Some n" using len1 by (simp add: MAXRAWLEN_def)
  define len where "len = uint n + int OEM4HLEN"
  obtain body fd2 where b: "fd_read (nat (len - 6)) fd1 = (body, fd2)" by fastforce
  note c2 = fd_read_bytes [OF b]
  consider "hdr = []" | "hdr \<noteq> []" "len > int MAXRAWLEN - 4" | "hdr \<noteq> []" "len \<le> int MAXRAWLEN - 4" by linarith
  then show "hcnraw_ok raw' \<and> (\<exists>used. concat fd = used @ concat fd' \<and> length used \<le> 4093)"
  proof cases
    case 1
    with run b1 have "raw' = raw\<lparr>raw_buff := b1\<rparr>" "fd' = fd1" by (auto simp: input_frame_def h)
    then show ?thesis using assms len1 c1 by (auto simp: hcnraw_ok_updates)
  next
    case 2
    with run have "raw' = raw\<lparr>raw_buff := b1, raw_len := len, raw_nbyte := 0\<rparr>" "fd' = fd1"
      by (simp_all add: input_frame_def h b1 n len_def Let_def)
    then show ?thesis using assms len1 c1 by (auto simp: hcnraw_ok_updates)
  next
    case 3
    then have "nat (len - 6) \<le> 4086" by (simp add: MAXRAWLEN_def)
    then have "length body \<le> 4086" using c2 by linarith
    then have used: "\<exists>used. concat fd = used @ concat fd2 \<and> length used \<le> 4093"
      using c1 c2 by (intro exI [of _ "hdr @ body"]) simp
    from run 3 obtain b2 where b2: "mem_write b1 10 body = Some b2"
      by (auto simp: input_frame_def h b1 n len_def Let_def b [unfolded len_def] c_mem)
    have len2: "length b2 = MAXRAWLEN" using mem_write_length [OF b2] len1 by simp
    show ?thesis
    proof (cases "body = []")
      case True
      with run 3 b2 have "raw' = raw\<lparr>raw_nbyte := 10, raw_len := len, raw_buff := b2\<rparr>" "fd' = fd2"
        by (auto simp: input_frame_def h b1 n len_def Let_def b [unfolded len_def])
      then show ?thesis using assms len2 used by (auto simp: hcnraw_ok_updates)
    next
      case False
      let ?raw = "raw\<lparr>raw_nbyte := 10, raw_len := len, raw_buff := b2, raw_nbyte := 0\<rparr>"
      from run 3 False obtain ty' where "decode_hcnoem4 now ?raw = Some (raw', ty', out, res)" "fd' = fd2"
        by (auto simp: input_frame_def h b1 n len_def Let_def b [unfolded len_def] b2 c_mem)
      moreover have "hcnraw_ok ?raw" using assms len2 by (simp add: hcnraw_ok_updates)
      ultimately show ?thesis using wlpD [OF decode_hcnoem4_shape, of ?raw now] used by auto
    qed
  qed
qed


lemma input_hcnoem4p_shape:
  assumes "hcnraw_ok raw"
  shows "wlp (input_hcnoem4p now raw fd) (\<lambda>(raw', ty, out, res, fd').
    hcnraw_ok raw' \<and> (\<exists>used. concat fd = used @ concat fd' \<and> length used \<le> 8190))"
proof (rule wlpI, clarify)
  fix raw' ty out res fd'
  assume run: "input_hcnoem4p now raw fd = Some (raw', ty, out, res, fd')"
  show "hcnraw_ok raw' \<and> (\<exists>used. concat fd = used @ concat fd' \<and> length used \<le> 8190)"
  proof (cases "raw_nbyte raw = 0")
    case True
    with run obtain r b fd1 where s: "sync_loop 0 (raw_buff raw) fd = Some (r, b, fd1)"
      by (auto simp: input_hcnoem4p_def c_mem)
    from sync_loop_shape [OF s] obtain u where u: "length b = length (raw_buff raw)"
      "concat fd = u @ concat fd1" "length u \<le> 4097" by auto
    then have ok: "hcnraw_ok (raw\<lparr>raw_buff := b\<rparr>)" using assms by (simp add: hcnraw_ok_def)
    show ?thesis
    proof (cases "r = Synced")
      case True
      with run \<open>raw_nbyte raw = 0\<close> s have "input_frame now (raw\<lparr>raw_buff := b\<rparr>) fd1 = Some (raw', ty, out, res, fd')"
        by (simp add: input_hcnoem4p_def)
      with wlpD [OF input_frame_shape [OF ok] this] obtain v where "hcnraw_ok raw'"
        "concat fd1 = v @ concat fd'" "length v \<le> 4093" by auto
      with u show ?thesis by (intro conjI exI [of _ "u @ v"]) auto
    next
      case False
      with run \<open>raw_nbyte raw = 0\<close> s have "raw' = raw\<lparr>raw_buff := b\<rparr>" "fd' = fd1"
        by (cases r; auto simp: input_hcnoem4p_def)+
      with ok u show ?thesis by auto
    qed
  next
    case False
    with run have "input_frame now raw fd = Some (raw', ty, out, res, fd')" by (simp add: input_hcnoem4p_def)
    from wlpD [OF input_frame_shape [OF assms] this] show ?thesis by force
  qed
qed

lemma decode_message_defined_iff:
  assumes "hcnraw_ok raw" and "raw_len raw \<le> 4092"
  shows "decode_message ty raw \<noteq> None \<longleftrightarrow> (ty = ID_SAT \<longrightarrow> unat (raw_buff raw ! 31) \<le> 58)
    \<and> (ty = ID_INTER \<longrightarrow> unat (raw_buff raw ! 28) \<le> 26)"
proof -
  have ids: "distinct [ID_HCNBOARD, ID_HCNPIPE, ID_BESTPOS, ID_SATVIS, ID_DIREC, ID_SAT, ID_INTER]"
    by (simp add: ID_HCNBOARD_def ID_HCNPIPE_def ID_BESTPOS_def ID_SATVIS_def ID_DIREC_def ID_SAT_def ID_INTER_def)
  show ?thesis
    unfolding decode_message_def
    using ids fixed_decoders_defined [OF assms(1)] decode_hcnpipe_defined [OF assms]
      decode_sat_iff [OF assms(1)] decode_inter_iff [OF assms(1)] by (auto simp del: not_None_eq)
qed

section \<open>Synchronisation\<close>

abbreviation sync_bytes :: "byte list" where
  "sync_bytes \<equiv> [OEM4SYNC1, OEM4SYNC2, OEM4SYNC3]"

lemma sync_oem4_Cons:
  "sync_oem4 (a # b # c # B) d = Some (b # c # d # B, [b, c, d] = sync_bytes)"
  by (simp add: sync_oem4_def)

lemma sync_loop_finds:
  assumes "ys \<noteq> []" and "i + length ys \<le> 4097"
    and "\<forall>k < length ys - 1. take 3 (drop (Suc k) ([a, b, c] @ ys)) \<noteq> sync_bytes"
    and "take 3 (drop (length ys) ([a, b, c] @ ys)) = sync_bytes"
  shows "sync_loop i (a # b # c # B) ((ys @ rest) # cs) =
    Some (Synced, sync_bytes @ B, if rest = [] then cs else rest # cs)"
  using assms
proof (induction ys arbitrary: i a b c)
  case (Cons y ys)
  have rd: "fd_read (Suc 0) (((y # ys) @ rest) # cs) = ([y], if ys @ rest = [] then cs else (ys @ rest) # cs)"
    by auto
  show ?case
  proof (cases "ys = []")
    case True
    with Cons.prems(4) have "[b, c, y] = sync_bytes" by simp
    then show ?thesis using True rd by (subst sync_loop.simps) (simp add: sync_oem4_Cons)
  next
    case False
    with Cons.prems(3) have "take 3 (drop (Suc 0) ([a, b, c] @ y # ys)) \<noteq> sync_bytes" by (cases ys) auto
    then have no: "[b, c, y] \<noteq> sync_bytes" by simp
    have "sync_loop (Suc i) (b # c # y # B) ((ys @ rest) # cs) =
        Some (Synced, sync_bytes @ B, if rest = [] then cs else rest # cs)"
    proof (rule Cons.IH [OF False])
      show "Suc i + length ys \<le> 4097" using Cons.prems(2) by simp
      show "\<forall>k < length ys - 1. take 3 (drop (Suc k) ([b, c, y] @ ys)) \<noteq> sync_bytes"
      proof (intro allI impI)
        fix k assume "k < length ys - 1"
        then have "take 3 (drop (Suc (Suc k)) ([a, b, c] @ y # ys)) \<noteq> sync_bytes"
          using Cons.prems(3) [rule_format, of "Suc k"] by simp
        then show "take 3 (drop (Suc k) ([b, c, y] @ ys)) \<noteq> sync_bytes" by simp
      qed
      show "take 3 (drop (length ys) ([b, c, y] @ ys)) = sync_bytes"
        using Cons.prems(4) by simp
    qed
    moreover have "\<not> 4096 \<le> i" using Cons.prems(2) False by (cases ys) auto
    ultimately show ?thesis using False rd no
      by (subst sync_loop.simps) (simp add: sync_oem4_Cons)
  qed
qed simp

text \<open>Bytes before a frame that do not contain (or complete) the synchronisation pattern.\<close>

definition junk :: "byte list \<Rightarrow> bool" where
  "junk xs \<longleftrightarrow> length xs \<le> 4094 \<and> (\<forall>k < length xs. take 3 (drop k (xs @ sync_bytes)) \<noteq> sync_bytes)"

lemma sync_after_junk:
  assumes "junk xs"
  shows "sync_loop 0 (0 # 0 # 0 # B) ((xs @ sync_bytes @ rest) # cs) =
    Some (Synced, sync_bytes @ B, if rest = [] then cs else rest # cs)"
proof -
  let ?ys = "xs @ sync_bytes"
  have "take 3 (drop (Suc k) ([0, 0, 0] @ ?ys)) \<noteq> sync_bytes" if "k < length ?ys - 1" for k
  proof (cases "k < 2")
    case True
    then have "k = 0 \<or> k = 1" by auto
    then show ?thesis by (auto simp: OEM4SYNC1_def)
  next
    case False
    then obtain j where k: "k = Suc (Suc j)" by (metis add_2_eq_Suc le_Suc_ex not_less)
    with that assms have "take 3 (drop j ?ys) \<noteq> sync_bytes" by (simp add: junk_def)
    then show ?thesis by (simp add: k)
  qed
  moreover have "take 3 (drop (length ?ys) ([0, 0, 0] @ ?ys)) = sync_bytes" by simp
  moreover have "0 + length ?ys \<le> 4097" using assms by (simp add: junk_def)
  ultimately have "sync_loop 0 (0 # 0 # 0 # B) ((?ys @ rest) # cs) = Some (Synced, sync_bytes @ B, if rest = [] then cs else rest # cs)"
    by (intro sync_loop_finds) auto
  then show ?thesis by simp
qed

text \<open>A frame: header, payload and checksum, the payload length in the header.\<close>

definition framed :: "byte list \<Rightarrow> nat \<Rightarrow> bool" where
  "framed fr n \<longleftrightarrow> length fr = n + 4 \<and> 28 \<le> n \<and> n \<le> 4092 \<and> take 3 fr = sync_bytes
     \<and> le_nat (take 2 (drop 8 fr)) + 28 = n"

definition received :: "byte list \<Rightarrow> nat \<Rightarrow> hcnraw_t" where
  "received fr n = hcnraw_zero\<lparr>raw_len := int n, raw_buff := fr @ replicate (4096 - length fr) 0\<rparr>"

lemma received_ok: "framed fr n \<Longrightarrow> hcnraw_ok (received fr n)"
  unfolding received_def
  by (intro hcnraw_ok_updates hcnraw_zero_ok) (simp add: framed_def MAXRAWLEN_def)

lemma uint_of_nat_short: "n < 2 ^ 16 \<Longrightarrow> uint (of_nat n :: 16 word) = int n"
  by (simp add: unsigned_of_nat take_bit_nat_eq_self uint_nat unat_of_nat)

text \<open>The header and the body of a frame, as they are read and stored.\<close>

lemma framed_parts:
  assumes "framed fr n"
  shows "fr = sync_bytes @ take 7 (drop 3 fr) @ drop 10 fr" and "take 10 fr = sync_bytes @ take 7 (drop 3 fr)"
proof -
  have s: "take 3 fr = sync_bytes" using assms by (simp add: framed_def)
  then show "take 10 fr = sync_bytes @ take 7 (drop 3 fr)" using take_add [of 3 7 fr] by simp
  then show "fr = sync_bytes @ take 7 (drop 3 fr) @ drop 10 fr"
    using append_take_drop_id [of 10 fr] by (simp del: append_take_drop_id)
qed

lemma framed_stored:
  assumes "framed fr n"
  shows "mem_write (sync_bytes @ replicate 4093 0) 3 (take 7 (drop 3 fr)) = Some (take 10 fr @ replicate 4086 0)"
    and "mem_write (take 10 fr @ replicate 4086 0) 10 (drop 10 fr) = Some (fr @ replicate (4096 - length fr) 0)"
    and "U2 (take 10 fr @ replicate 4086 0) 8 = Some (of_nat (n - 28))"
    and "uint (of_nat (n - 28) :: 16 word) = int n - 28"
proof -
  have len: "length fr = n + 4" "28 \<le> n" "n \<le> 4092" using assms by (simp_all add: framed_def)
  show "mem_write (sync_bytes @ replicate 4093 0) 3 (take 7 (drop 3 fr)) = Some (take 10 fr @ replicate 4086 0)"
    using mem_write_front [of "take 7 (drop 3 fr)" "replicate 4093 0" sync_bytes] len framed_parts(2) [OF assms] by (simp add: numeral_3_eq_3)
  show "mem_write (take 10 fr @ replicate 4086 0) 10 (drop 10 fr) = Some (fr @ replicate (4096 - length fr) 0)"
    using mem_write_front [of "drop 10 fr" "replicate 4086 0" "take 10 fr"] len by simp
  have "n - 28 = le_nat (take 2 (drop 8 fr))" using assms unfolding framed_def by linarith
  then show "U2 (take 10 fr @ replicate 4086 0) 8 = Some (of_nat (n - 28))" using len by (simp add: drop_take)
  show "uint (of_nat (n - 28) :: 16 word) = int n - 28" using uint_of_nat_short [of "n - 28"] len by simp
qed

lemma input_frame_received:
  assumes "framed fr n"
  shows "input_frame now (hcnraw_zero\<lparr>raw_buff := sync_bytes @ replicate 4093 0\<rparr>) ((drop 3 fr @ rest) # cs) =
    do { (raw, ty, out, res) \<leftarrow> decode_hcnoem4 now (received fr n);
         Some (raw, Some ty, out, res, if rest = [] then cs else rest # cs) }"
proof -
  let ?h = "take 7 (drop 3 fr)" and ?b = "drop 10 fr" and ?rest = "if rest = [] then cs else rest # cs"
  have len: "length fr = n + 4" "28 \<le> n" "n \<le> 4092" using assms by (simp_all add: framed_def)
  have split: "drop 3 fr @ rest = ?h @ ?b @ rest" using append_take_drop_id [of 7 "drop 3 fr"] by (simp only: drop_drop append_assoc [symmetric]) simp
  have h: "fd_read 7 ((drop 3 fr @ rest) # cs) = (?h, (?b @ rest) # cs)"
    unfolding split using len fd_read_chunk [of ?h 7 "?b @ rest" cs] by simp
  have b: "fd_read (nat (int n - 6)) ((?b @ rest) # cs) = (?b, ?rest)"
    using len fd_read_chunk [of ?b "n - 6" rest cs] by (simp add: nat_diff_distrib')
  note s = framed_stored [OF assms]
  have raw: "raw_buff (hcnraw_zero\<lparr>raw_buff := x\<rparr>) = x" for x by simp
  have ne: "\<not> length ?h < 1" "\<not> length ?b < 1" using len by simp_all
  have eq: "hcnraw_zero\<lparr>raw_len := int n, raw_buff := y, raw_nbyte := 0\<rparr> =
      hcnraw_zero\<lparr>raw_len := int n, raw_buff := y\<rparr>" for y
    by (simp add: hcnraw_zero_def)
  show ?thesis
    unfolding input_frame_def h Let_def prod.case raw s(1) bind.bind_lunit s(3,4) if_not_P [OF ne(1)]
    using ne len b s(2) by (simp add: OEM4HLEN_def MAXRAWLEN_def eq received_def)
qed


lemma hcnraw_zero_start:
  "raw_buff hcnraw_zero = 0 # 0 # 0 # replicate 4093 0" "raw_nbyte hcnraw_zero = 0"
proof -
  have "(4096 :: nat) = Suc (Suc (Suc 4093))" by simp
  then have "replicate 4096 (0 :: byte) = 0 # 0 # 0 # replicate 4093 0" by (simp only: replicate_Suc)
  then show "raw_buff hcnraw_zero = 0 # 0 # 0 # replicate 4093 0"
    unfolding hcnraw_zero_def MAXRAWLEN_def by (simp only: hcnraw_t.select_convs)
qed (simp add: hcnraw_zero_def)

lemma input_received:
  assumes "junk xs" and "framed fr n"
  shows "input_hcnoem4p now hcnraw_zero ((xs @ fr @ rest) # cs) =
    do { (raw, ty, out, res) \<leftarrow> decode_hcnoem4 now (received fr n);
         Some (raw, Some ty, out, res, if rest = [] then cs else rest # cs) }"
proof -
  have fr: "fr = sync_bytes @ drop 3 fr" "drop 3 fr \<noteq> []"
    using assms(2) append_take_drop_id [of 3 fr] by (auto simp: framed_def)
  note z = hcnraw_zero_start
  have "sync_loop 0 (raw_buff hcnraw_zero) ((xs @ sync_bytes @ drop 3 fr @ rest) # cs) =
      Some (Synced, sync_bytes @ replicate 4093 0, (drop 3 fr @ rest) # cs)"
    unfolding z using sync_after_junk [OF assms(1), of "replicate 4093 0" "drop 3 fr @ rest" cs] fr(2) by simp
  moreover have "xs @ sync_bytes @ drop 3 fr @ rest = xs @ fr @ rest" using fr(1) by simp
  ultimately have "sync_loop 0 (raw_buff hcnraw_zero) ((xs @ fr @ rest) # cs) =
      Some (Synced, sync_bytes @ replicate 4093 0, (drop 3 fr @ rest) # cs)" by (simp only:)
  then show ?thesis unfolding input_hcnoem4p_def z(2)
    using input_frame_received [OF assms(2), of now rest cs] by simp
qed

section \<open>What a message decodes to\<close>

text \<open>The type, the format bits and the time of a buffered message.\<close>

definition frame_type :: "byte list \<Rightarrow> 16 word" where
  "frame_type b = of_nat (le_nat (take 2 (drop 4 b)))"

definition frame_format :: "byte list \<Rightarrow> byte" where
  "frame_format b = drop_bit 4 (b ! 6) AND 3"

definition frame_time :: "double list \<Rightarrow> byte list \<Rightarrow> gtime_t option" where
  "frame_time now b = do {
     week \<leftarrow> adjgpsweek now (uint (of_nat (le_nat (take 2 (drop 14 b))) :: 16 word));
     gpst2time week (d_mul (d_of_int (uint (of_nat (le_nat (take 4 (drop 16 b))) :: 32 word))) 0x3F50624DD2F1A9FC) }"

definition crc_ok :: "byte list \<Rightarrow> int \<Rightarrow> bool" where
  "crc_ok b len \<longleftrightarrow> crc32 b len = U4 b (nat len)"

lemma decode_hcnoem4_eq:
  assumes "hcnraw_ok raw" and "0 \<le> raw_len raw" and "raw_len raw \<le> 4092" and "raw_outtype raw = 0"
  shows "decode_hcnoem4 now raw =
    (if \<not> crc_ok (raw_buff raw) (raw_len raw) then Some (raw, uint (frame_type (raw_buff raw)), [Logged crc_error], - 1)
     else do {
       t \<leftarrow> frame_time now (raw_buff raw);
       if frame_format (raw_buff raw) \<noteq> 0 then Some (raw\<lparr>raw_time := t\<rparr>, uint (frame_type (raw_buff raw)), [], 0)
       else do {
         (raw', out, res) \<leftarrow> decode_message (unat (frame_type (raw_buff raw))) (raw\<lparr>raw_time := t\<rparr>);
         Some (raw', uint (frame_type (raw_buff raw)), out, res) } })"
proof -
  let ?b = "raw_buff raw"
  have len: "length ?b = 4096" using assms by (simp add: hcnraw_ok_def MAXRAWLEN_def)
  have crc: "crc32 ?b (raw_len raw) = Some (crc_bytes 0 (take (nat (raw_len raw)) ?b))"
    using crc32_bytes [of "nat (raw_len raw)" ?b] assms len by simp
  have stored: "U4 ?b (nat (raw_len raw)) = Some (of_nat (le_nat (take 4 (drop (nat (raw_len raw)) ?b))))"
    using assms(3) len by simp
  have fields: "U2 ?b 4 = Some (frame_type ?b)" "U1 ?b 6 = Some (?b ! 6)"
    using len by (simp_all add: frame_type_def)
  have report: "report_message (raw\<lparr>raw_time := t\<rparr>) t' ty m = Some (raw\<lparr>raw_time := t\<rparr>)" for t t' ty m
    using assms(4) by (simp add: report_message_def)
  have fmt: "uint (drop_bit 4 (?b ! 6) AND 3) \<noteq> 0 \<longleftrightarrow> frame_format ?b \<noteq> 0"
    by (simp add: frame_format_def uint_0_iff)
  show ?thesis
  proof (cases "crc_ok ?b (raw_len raw)")
    case True
    then have "crc32 ?b (raw_len raw) = Some x \<longleftrightarrow> U4 ?b (nat (raw_len raw)) = Some x" for x by (simp add: crc_ok_def)
    with crc stored have eq: "crc_bytes 0 (take (nat (raw_len raw)) ?b) = of_nat (le_nat (take 4 (drop (nat (raw_len raw)) ?b)))"
      by simp
    have "decode_hcnoem4 now raw = do {
       wn \<leftarrow> U2 ?b 14; week \<leftarrow> adjgpsweek now (uint wn); ms \<leftarrow> U4 ?b 16;
       t \<leftarrow> gpst2time week (d_mul (d_of_int (uint ms)) 0x3F50624DD2F1A9FC);
       if frame_format ?b \<noteq> 0 then Some (raw\<lparr>raw_time := t\<rparr>, uint (frame_type ?b), [], 0)
       else do {
         (raw', out, res) \<leftarrow> decode_message (unat (frame_type ?b)) (raw\<lparr>raw_time := t\<rparr>);
         Some (raw', uint (frame_type ?b), out, res) } }"
      unfolding decode_hcnoem4_def Let_def crc stored fields bind.bind_lunit report fmt
      by (simp only: eq simp_thms if_False)
    with True len show ?thesis by (simp add: frame_time_def)
  next
    case False
    then show ?thesis using crc stored fields
      by (simp add: decode_hcnoem4_def crc_ok_def Let_def)
  qed
qed

lemma received_sel [simp]:
  "raw_buff (received fr n) = fr @ replicate (4096 - length fr) 0" "raw_len (received fr n) = int n"
  "raw_outtype (received fr n) = 0"
  by (simp_all add: received_def hcnraw_zero_def)

section \<open>Properties\<close>

text \<open>C26. Memory safety of the decoder: for a message whose length passed the check of \<open>input_hcnoem4p\<close>,
  decoding stays inside the buffers and the defined behaviour exactly when the checksum is wrong, or the GPS time fits in
  32 bits and the message is not a satellite message with more than 58 records or an interface message
  with more than 26. The declared limits are 75 and 100; the counts come from the wire unchecked.\<close>

theorem decode_hcnoem4_defined_iff:
  assumes "hcnraw_ok raw" and "0 \<le> raw_len raw" and "raw_len raw \<le> 4092" and "raw_outtype raw = 0"
  shows "decode_hcnoem4 now raw \<noteq> None \<longleftrightarrow>
    (if crc_ok (raw_buff raw) (raw_len raw)
     then frame_time now (raw_buff raw) \<noteq> None \<and>
       (frame_format (raw_buff raw) = 0 \<longrightarrow>
          (unat (frame_type (raw_buff raw)) = ID_SAT \<longrightarrow> unat (raw_buff raw ! 31) \<le> 58) \<and>
          (unat (frame_type (raw_buff raw)) = ID_INTER \<longrightarrow> unat (raw_buff raw ! 28) \<le> 26))
     else True)"
proof (cases "crc_ok (raw_buff raw) (raw_len raw)")
  case True
  have ok: "hcnraw_ok (raw\<lparr>raw_time := t\<rparr>)" "raw_len (raw\<lparr>raw_time := t\<rparr>) \<le> 4092" for t
    using assms by (simp_all add: hcnraw_ok_updates)
  have dm: "decode_message ty (raw\<lparr>raw_time := t\<rparr>) \<noteq> None \<longleftrightarrow> (ty = ID_SAT \<longrightarrow> unat (raw_buff raw ! 31) \<le> 58)
      \<and> (ty = ID_INTER \<longrightarrow> unat (raw_buff raw ! 28) \<le> 26)" for t ty
    using decode_message_defined_iff [OF ok] by simp
  have prod: "Option.bind x (\<lambda>(a, b, c). Some (f a b c)) \<noteq> None \<longleftrightarrow> x \<noteq> None"
    for x :: "('a \<times> 'b \<times> 'c) option" and f :: "'a \<Rightarrow> 'b \<Rightarrow> 'c \<Rightarrow> 'd"
    by (cases x) auto
  show ?thesis
  proof (cases "frame_time now (raw_buff raw)")
    case (Some t)
    then show ?thesis using True dm [of "unat (frame_type (raw_buff raw))" t]
      unfolding decode_hcnoem4_eq [OF assms] Some bind.bind_lunit
      by (simp only: prod if_True simp_thms not_True_eq_False if_False split: if_split) (auto simp: prod)
  qed (simp add: decode_hcnoem4_eq [OF assms] True)
qed (simp add: decode_hcnoem4_eq [OF assms])

theorem decode_hcnoem4_defined_iff_witness:
  "decode_hcnoem4 [] (hcnraw_zero\<lparr>raw_buff := ([0, 0, 0, 0, 1, 0x7D, 0, 0, 0, 0, 0, 0, 0, 0, 0, 0, 0, 0, 0, 0, 0, 0, 0, 0, 0, 0, 0, 0, 0, 0, 0, 59] @ replicate 4064 0)\<rparr>) = None"
proof -
  let ?b = "([0, 0, 0, 0, 1, 0x7D, 0, 0, 0, 0, 0, 0, 0, 0, 0, 0, 0, 0, 0, 0, 0, 0, 0, 0, 0, 0, 0, 0, 0, 0, 0, 59] @ replicate 4064 0) :: byte list"
  have "hcnraw_ok (hcnraw_zero\<lparr>raw_buff := ?b\<rparr>)"
    by (intro hcnraw_ok_updates hcnraw_zero_ok) (simp add: MAXRAWLEN_def)
  moreover have "raw_len (hcnraw_zero\<lparr>raw_buff := ?b\<rparr>) = 0" "raw_outtype (hcnraw_zero\<lparr>raw_buff := ?b\<rparr>) = 0"
    "raw_buff (hcnraw_zero\<lparr>raw_buff := ?b\<rparr>) = ?b"
    by (simp_all add: hcnraw_zero_def)
  moreover have four: "take 4 ?b = [0, 0, 0, 0]" "take 2 (drop 4 ?b) = [1, 0x7D]" "?b ! 6 = 0" "?b ! 31 = 59"
    by simp_all
  moreover have "crc_ok ?b 0" using four by (simp add: crc_ok_def crc32_def)
  moreover have "frame_type ?b = 32001" "frame_format ?b = 0"
    using four by (simp_all add: frame_type_def frame_format_def)
  ultimately show ?thesis
    using decode_hcnoem4_defined_iff [of "hcnraw_zero\<lparr>raw_buff := ?b\<rparr>" "[]"]
    by (simp add: ID_SAT_def del: not_None_eq)
qed

lemma input_decodes:
  assumes "junk xs" and "framed fr n" and "crc_ok fr (int n)" and "frame_format fr = 0"
  shows "input_hcnoem4p now hcnraw_zero ((xs @ fr @ rest) # cs) =
    do { t \<leftarrow> frame_time now fr;
         (raw, out, res) \<leftarrow> decode_message (unat (frame_type fr)) ((received fr n)\<lparr>raw_time := t\<rparr>);
         Some (raw, Some (uint (frame_type fr)), out, res, if rest = [] then cs else rest # cs) }"
proof -
  have len: "length fr = n + 4" "28 \<le> n" "n \<le> 4092" using assms(2) by (simp_all add: framed_def)
  let ?b = "fr @ replicate (4096 - length fr) 0"
  have "crc_ok ?b (int n)"
    using assms(3) len by (simp add: crc_ok_def crc32_bytes)
  moreover have "frame_type ?b = frame_type fr" "frame_time now ?b = frame_time now fr" "frame_format ?b = frame_format fr"
    using len by (simp_all add: frame_type_def frame_time_def frame_format_def nth_append)
  ultimately show ?thesis
    using assms(4) len unfolding input_received [OF assms(1,2)]
    by (subst decode_hcnoem4_eq) (simp_all add: received_ok [OF assms(2)] split_def)
qed


text \<open>C27. Resynchronisation: from any bytes without the synchronisation pattern, the receiver finds the
  frame behind them, consumes exactly these bytes and the frame, and gives what the frame decodes to.\<close>

theorem input_delivers_frame:
  assumes "junk xs" and "framed fr n" and "crc_ok fr (int n)" and "frame_format fr = 0"
  shows "input_hcnoem4p now hcnraw_zero ((xs @ fr @ rest) # cs) =
    do { t \<leftarrow> frame_time now fr;
         (raw, out, res) \<leftarrow> decode_message (unat (frame_type fr)) ((received fr n)\<lparr>raw_time := t\<rparr>);
         Some (raw, Some (uint (frame_type fr)), out, res, if rest = [] then cs else rest # cs) }"
  by (rule input_decodes [OF assms])

text \<open>A small frame: the checksum of its first eight bytes is 0, and so is that of the zeros behind them.\<close>

definition small_frame :: "byte list" where
  "small_frame = [170, 68, 18, 12, 133, 224, 7, 36] @ replicate 24 0"

lemma small_frame_crc: "crc_bytes 0 small_frame = 0"
proof -
  have unroll: "crc_byte c b = crc_bit (crc_bit (crc_bit (crc_bit (crc_bit (crc_bit (crc_bit (crc_bit (c XOR ucast b))))))))" for c b
    by (simp add: crc_byte_def numeral_eq_Suc)
  have "crc_byte 0 170 = 0x36034af6" "crc_byte 0x36034af6 68 = 0x2559d1ea" "crc_byte 0x2559d1ea 18 = 0xb34323ff"
    "crc_byte 0xb34323ff 12 = 0x2407e085" "crc_byte 0x2407e085 133 = 0x2407e0" "crc_byte 0x2407e0 224 = 0x2407"
    "crc_byte 0x2407 7 = 0x24" "crc_byte 0x24 36 = 0"
    by (simp_all add: unroll crc_bit_def POLYCRC32_def)
  moreover have "crc_bytes 0 (replicate k 0) = 0" for k by (induction k) (simp_all add: crc_byte_def)
  ultimately show ?thesis by (simp add: small_frame_def)
qed

lemma small_frame:
  "framed small_frame 28" "crc_ok small_frame 28" "frame_format small_frame = 0" "frame_type small_frame = 57477"
proof -
  show "framed small_frame 28" by (simp add: framed_def small_frame_def OEM4SYNC1_def OEM4SYNC2_def OEM4SYNC3_def numeral_2_eq_2)
  have "length small_frame = 32" by (simp add: small_frame_def)
  then show "crc_ok small_frame 28" using frame_ok_iff [of 28 small_frame] small_frame_crc by (simp add: crc_ok_def)
  show "frame_format small_frame = 0" "frame_type small_frame = 57477"
    by (simp_all add: small_frame_def frame_format_def frame_type_def nth_append)
qed

lemma junk_example: "junk [0, 0xAA, 0x44]"
proof -
  have "take 3 (drop k ([0, 0xAA, 0x44] @ sync_bytes)) \<noteq> sync_bytes" if "k < 3" for k
  proof -
    from that have "k = 0 \<or> k = 1 \<or> k = 2" by auto
    then show ?thesis by (auto simp: OEM4SYNC1_def OEM4SYNC2_def OEM4SYNC3_def)
  qed
  then show ?thesis by (simp add: junk_def)
qed

theorem input_delivers_frame_witness:
  "input_hcnoem4p [] hcnraw_zero [[0, 0xAA, 0x44] @ small_frame @ [7]] =
    do { t \<leftarrow> frame_time [] small_frame;
         Some ((received small_frame 28)\<lparr>raw_time := t\<rparr>, Some 57477, [], 0, [[7]]) }"
proof -
  have ty: "unat (57477 :: 16 word) = 57477" "uint (57477 :: 16 word) = 57477" by simp_all
  have dm: "decode_message 57477 r = Some (r, [], 0)" for r
    by (simp add: decode_message_def ID_HCNBOARD_def ID_HCNPIPE_def ID_BESTPOS_def ID_SATVIS_def ID_DIREC_def
      ID_SAT_def ID_INTER_def)
  show ?thesis
    using input_delivers_frame [OF junk_example small_frame(1), of "[]" "[7]" "[]"] small_frame(2,3)
    unfolding small_frame(4) ty dm bind.bind_lunit prod.case by simp
qed

lemma input_corrupted:
  assumes "junk xs" and "framed (pre @ w @ post) n" and "crc_ok (pre @ w @ post) (int n)"
    and "10 \<le> length pre" and "length w = 4" and "length w' = 4" and "w \<noteq> w'"
  shows "\<exists>raw ty. input_hcnoem4p now hcnraw_zero ((xs @ (pre @ w' @ post) @ rest) # cs) =
    Some (raw, Some ty, [Logged crc_error], - 1, if rest = [] then cs else rest # cs)"
proof -
  let ?fr = "pre @ w @ post" and ?bad = "pre @ w' @ post"
  have "take 3 ?bad = take 3 ?fr" "take 2 (drop 8 ?bad) = take 2 (drop 8 ?fr)" "length ?bad = length ?fr"
    using assms(4-6) by simp_all
  then have bad: "framed ?bad n" using assms(2) unfolding framed_def by (simp only:)
  have n: "length ?bad = n + 4" "length ?fr = n + 4" "n \<le> 4092"
    using assms(2) bad unfolding framed_def by blast+
  let ?b = "?bad @ replicate (4096 - length ?bad) 0"
  have fr: "n + 4 \<le> length ?b" "take (n + 4) ?b = ?bad" "n + 4 \<le> length ?fr" "take (n + 4) ?fr = ?fr" using n by simp_all
  have "crc_bytes 0 ?fr = 0"
    using assms(3) frame_ok_iff [OF fr(3)] unfolding crc_ok_def nat_int fr(4) by blast
  then have c: "crc_bytes 0 ?bad \<noteq> 0" using crc_burst [OF assms(5-7), of pre post] by simp
  have "\<not> crc_ok ?b (int n)" using c frame_ok_iff [OF fr(1)] unfolding crc_ok_def nat_int fr(2) by blast
  then have eq: "decode_hcnoem4 now (received ?bad n) = Some (received ?bad n, uint (frame_type ?b), [Logged crc_error], - 1)"
    using decode_hcnoem4_eq [OF received_ok [OF bad], of now] n(3) unfolding received_sel by simp
  then show ?thesis unfolding input_received [OF assms(1) bad] eq bind.bind_lunit prod.case by blast
qed

text \<open>C28. Corrupted messages: when any four consecutive bytes behind the length field of a valid frame
  (header, payload or checksum) arrive changed, the receiver reports an error and logs it, whatever
  the type of the message, and goes on behind the frame.\<close>

theorem input_rejects_corruption:
  assumes "junk xs" and "framed (pre @ w @ post) n" and "crc_ok (pre @ w @ post) (int n)"
    and "10 \<le> length pre" and "length w = 4" and "length w' = 4" and "w \<noteq> w'"
  shows "\<exists>raw ty. input_hcnoem4p now hcnraw_zero ((xs @ (pre @ w' @ post) @ rest) # cs) =
    Some (raw, Some ty, [Logged crc_error], - 1, if rest = [] then cs else rest # cs)"
  by (rule input_corrupted [OF assms])

theorem input_rejects_corruption_witness:
  "\<exists>raw ty. input_hcnoem4p [] hcnraw_zero [[0, 0xAA, 0x44] @ (take 10 small_frame @ [1, 0, 0, 0] @ replicate 18 0)] =
    Some (raw, Some ty, [Logged crc_error], - 1, [])"
proof -
  have "small_frame = take 10 small_frame @ [0, 0, 0, 0] @ replicate 18 0"
    by (simp add: small_frame_def numeral_eq_Suc)
  then show ?thesis
    using input_rejects_corruption [of "[0, 0xAA, 0x44]" "take 10 small_frame" "[0, 0, 0, 0]" "replicate 18 0" 28
      "[1, 0, 0, 0]" "[]" "[]" "[]"] small_frame(1,2) junk_example
    by (simp add: small_frame_def)
qed

text \<open>C29. Every operation of the receiver keeps the shape of the message (no array changes its length), and
  takes a prefix of at most 8190 bytes out of the pipe.\<close>

theorem input_keeps_shape:
  assumes "hcnraw_ok raw" and "input_hcnoem4p now raw fd = Some (raw', ty, out, res, fd')"
  shows "hcnraw_ok raw' \<and> (\<exists>used. concat fd = used @ concat fd' \<and> length used \<le> 8190)"
  using wlpD [OF input_hcnoem4p_shape [OF assms(1)] assms(2)] by simp

theorem input_keeps_shape_witness:
  "hcnraw_ok (hcnraw_zero\<lparr>raw_buff := 0 # 0 # 7 # replicate 4093 0\<rparr>)"
proof -
  have "input_hcnoem4p [] hcnraw_zero [[7]] =
      Some (hcnraw_zero\<lparr>raw_buff := 0 # 0 # 7 # replicate 4093 0\<rparr>, None, [], - 2, [])"
    unfolding input_hcnoem4p_def hcnraw_zero_start
    by (subst sync_loop.simps, subst sync_loop.simps) (simp add: sync_oem4_Cons OEM4SYNC1_def)
  from input_keeps_shape [OF hcnraw_zero_ok this] show ?thesis by simp
qed

end
