(* ===== verification/Guide_State.thy ===== *)
theory Guide_State
  imports Decode
begin

text \<open>
  The state that the two halves of the program share: the structures of \<^verbatim>\<open>src/pro.h\<close>.
  \<open>deal_pro\<close> fills it from receiver messages and \<open>web_pro\<close> reads it. The prefixes of the
  fields name their structure; arrays are lists of the declared length.
\<close>

section \<open>Sizes\<close>

definition MAXIP :: nat where "MAXIP = 50"
definition MAXTIMELEN :: nat where "MAXTIMELEN = 1024"
definition MAXACC :: nat where "MAXACC = 50"
definition MAXPASS :: nat where "MAXPASS = 50"
definition GPSNUM :: nat where "GPSNUM = 40"
definition GLONUM :: nat where "GLONUM = 40"
definition CMPNUM :: nat where "CMPNUM = 40"
definition SBASNUM :: nat where "SBASNUM = 70"
definition GALINUM :: nat where "GALINUM = 40"
definition MAXINTERFACE :: nat where "MAXINTERFACE = 100"
definition MAXPRNGPS :: nat where "MAXPRNGPS = 32"
definition MAXPRNGLO :: nat where "MAXPRNGLO = 32"
definition MAXPRNGAL :: nat where "MAXPRNGAL = 32"
definition MAXPRNCMP :: nat where "MAXPRNCMP = 32"
definition MAXPRNSBS :: nat where "MAXPRNSBS = 32"

section \<open>Structures\<close>

record antenna_t =
  an_mainantnworksta :: byte
  an_mainantnrfsta :: byte
  an_aantnworksta :: byte
  an_aantnrfsta :: byte

record cpu_t =
  cpu_acpuload :: byte
  cpu_dcpuload :: byte
  cpu_astatus :: byte
  cpu_dstatus :: byte
  cpu_fstatus :: byte

record state_t =
  st_utctime :: cbuf
  st_antn :: antenna_t
  st_cpu :: cpu_t

record sateprn_t =
  sn_satnu :: "byte list"
  sn_gps :: "byte list"
  sn_glo :: "byte list"
  sn_gali :: "byte list"
  sn_cmp :: "byte list"
  sn_sbas :: "byte list"

record net_t =
  nt_ip :: cbuf
  nt_gateway :: cbuf
  nt_netmask :: cbuf
  nt_dns :: cbuf
  nt_serverip :: cbuf

record direcdata_t =
  dd_mlat :: double
  dd_mlon :: double
  dd_mhgt :: double
  dd_alat :: double
  dd_alon :: double
  dd_ahgt :: double
  dd_pitch :: double
  dd_heading :: double
  dd_roll :: double
  dd_qf :: byte
  dd_hdop :: single
  dd_satnum :: byte
  dd_utctime :: cbuf

record posstate_t =
  pt_lat :: double
  pt_lon :: double
  pt_hgt :: double
  pt_undulation :: double
  pt_postype :: byte
  pt_difftime :: single
  pt_stnid :: "byte list"
  pt_gpsweek :: int
  pt_gpssec :: single
  pt_pdop :: single
  pt_hdop :: single
  pt_vdop :: single
  pt_tdop :: single
  pt_solsatnu :: byte
  pt_sateprn :: sateprn_t

record prncn_t =
  pc_prn :: byte
  pc_elev :: double
  pc_az :: double
  pc_cn :: "single list"
  pc_satstatus :: byte

record tracetable_t =
  tt_satnu :: "byte list"
  tt_gps :: "prncn_t list"
  tt_glo :: "prncn_t list"
  tt_gali :: "prncn_t list"
  tt_cmp :: "prncn_t list"
  tt_sbas :: "prncn_t list"
  tt_ecutoff :: single

record basepos_t =
  ba_lat :: double
  ba_lon :: double
  ba_hgt :: double
  ba_ecutoff :: single

record user_t =
  us_account :: cbuf
  us_password :: cbuf

record interfaces_t =
  if_comid :: byte
  if_flag :: byte
  if_msgid :: "16 word"
  if_period :: "16 word"

record interface_t =
  it_num :: byte
  it_interfaces :: "interfaces_t list"
  it_retype :: byte
  it_comtype :: "byte list"
  it_sytype :: byte
  it_sidotype :: byte
  it_dirtype :: byte
  it_dirlen :: double

record guide_t =
  g_state :: state_t
  g_sateprn :: sateprn_t
  g_posstate :: posstate_t
  g_tracetable :: tracetable_t
  g_basepos :: basepos_t
  g_user :: user_t
  g_direcdata :: direcdata_t
  g_entype :: byte
  g_net :: net_t
  g_interface :: interface_t
  g_chansta :: "byte list"
  g_serclient :: byte

section \<open>The state as \<open>calloc\<close> gives it\<close>

definition sateprn_zero :: sateprn_t where
  "sateprn_zero = \<lparr>sn_satnu = replicate 5 0, sn_gps = replicate MAXPRNGPS 0, sn_glo = replicate MAXPRNGLO 0,
     sn_gali = replicate MAXPRNGAL 0, sn_cmp = replicate MAXPRNCMP 0, sn_sbas = replicate MAXPRNSBS 0\<rparr>"

definition prncn_zero :: prncn_t where
  "prncn_zero = \<lparr>pc_prn = 0, pc_elev = 0, pc_az = 0, pc_cn = replicate 3 0, pc_satstatus = 0\<rparr>"

definition guide_zero :: guide_t where
  "guide_zero = \<lparr>
     g_state = \<lparr>st_utctime = replicate MAXTIMELEN NUL,
       st_antn = \<lparr>an_mainantnworksta = 0, an_mainantnrfsta = 0, an_aantnworksta = 0, an_aantnrfsta = 0\<rparr>,
       st_cpu = \<lparr>cpu_acpuload = 0, cpu_dcpuload = 0, cpu_astatus = 0, cpu_dstatus = 0, cpu_fstatus = 0\<rparr>\<rparr>,
     g_sateprn = sateprn_zero,
     g_posstate = \<lparr>pt_lat = 0, pt_lon = 0, pt_hgt = 0, pt_undulation = 0, pt_postype = 0, pt_difftime = 0,
       pt_stnid = replicate 4 0, pt_gpsweek = 0, pt_gpssec = 0, pt_pdop = 0, pt_hdop = 0, pt_vdop = 0, pt_tdop = 0,
       pt_solsatnu = 0, pt_sateprn = sateprn_zero\<rparr>,
     g_tracetable = \<lparr>tt_satnu = replicate 5 0, tt_gps = replicate GPSNUM prncn_zero, tt_glo = replicate GLONUM prncn_zero,
       tt_gali = replicate GALINUM prncn_zero, tt_cmp = replicate CMPNUM prncn_zero,
       tt_sbas = replicate SBASNUM prncn_zero, tt_ecutoff = 0\<rparr>,
     g_basepos = \<lparr>ba_lat = 0, ba_lon = 0, ba_hgt = 0, ba_ecutoff = 0\<rparr>,
     g_user = \<lparr>us_account = replicate MAXACC NUL, us_password = replicate MAXPASS NUL\<rparr>,
     g_direcdata = \<lparr>dd_mlat = 0, dd_mlon = 0, dd_mhgt = 0, dd_alat = 0, dd_alon = 0, dd_ahgt = 0, dd_pitch = 0,
       dd_heading = 0, dd_roll = 0, dd_qf = 0, dd_hdop = 0, dd_satnum = 0, dd_utctime = replicate MAXTIMELEN NUL\<rparr>,
     g_entype = 0,
     g_net = \<lparr>nt_ip = replicate MAXIP NUL, nt_gateway = replicate MAXIP NUL, nt_netmask = replicate MAXIP NUL,
       nt_dns = replicate MAXIP NUL, nt_serverip = replicate MAXIP NUL\<rparr>,
     g_interface = \<lparr>it_num = 0,
       it_interfaces = replicate MAXINTERFACE \<lparr>if_comid = 0, if_flag = 0, if_msgid = 0, if_period = 0\<rparr>,
       it_retype = 0, it_comtype = replicate 3 0, it_sytype = 0, it_sidotype = 0, it_dirtype = 0, it_dirlen = 0\<rparr>,
     g_chansta = replicate FRENUM 0,
     g_serclient = 0\<rparr>"

text \<open>The declared length of every array.\<close>

definition sateprn_ok :: "sateprn_t \<Rightarrow> bool" where
  "sateprn_ok p \<longleftrightarrow> length (sn_satnu p) = 5 \<and> length (sn_gps p) = MAXPRNGPS \<and> length (sn_glo p) = MAXPRNGLO
     \<and> length (sn_gali p) = MAXPRNGAL \<and> length (sn_cmp p) = MAXPRNCMP \<and> length (sn_sbas p) = MAXPRNSBS"

definition tracetable_ok :: "tracetable_t \<Rightarrow> bool" where
  "tracetable_ok t \<longleftrightarrow> length (tt_satnu t) = 5 \<and> length (tt_gps t) = GPSNUM \<and> length (tt_glo t) = GLONUM
     \<and> length (tt_gali t) = GALINUM \<and> length (tt_cmp t) = CMPNUM \<and> length (tt_sbas t) = SBASNUM"

definition net_ok :: "net_t \<Rightarrow> bool" where
  "net_ok n \<longleftrightarrow> length (nt_ip n) = MAXIP \<and> length (nt_gateway n) = MAXIP \<and> length (nt_netmask n) = MAXIP
     \<and> length (nt_dns n) = MAXIP \<and> length (nt_serverip n) = MAXIP"

definition guide_ok :: "guide_t \<Rightarrow> bool" where
  "guide_ok g \<longleftrightarrow> length (st_utctime (g_state g)) = MAXTIMELEN \<and> sateprn_ok (g_sateprn g)
     \<and> length (pt_stnid (g_posstate g)) = 4 \<and> sateprn_ok (pt_sateprn (g_posstate g))
     \<and> tracetable_ok (g_tracetable g) \<and> length (us_account (g_user g)) = MAXACC
     \<and> length (us_password (g_user g)) = MAXPASS \<and> length (dd_utctime (g_direcdata g)) = MAXTIMELEN
     \<and> net_ok (g_net g) \<and> length (it_interfaces (g_interface g)) = MAXINTERFACE
     \<and> length (it_comtype (g_interface g)) = 3 \<and> length (g_chansta g) = FRENUM"

lemma guide_zero_ok: "guide_ok guide_zero"
  by (simp add: guide_ok_def guide_zero_def sateprn_ok_def sateprn_zero_def tracetable_ok_def net_ok_def)

end
