(* ===== verification/Guide.thy ===== *)
theory Guide
  imports Guide_State
begin

text \<open>
  \<^verbatim>\<open>src/deal_pro.c\<close>: a decoded receiver message is copied into the shared state. \<open>None\<close> also
  stands for the height iteration of \<open>ecef2pos\<close> not ending; the parameter \<open>m\<close> holds the functions of
  the mathematical library.
\<close>

section \<open>Board messages\<close>

text \<open>\<open>sprintf(dst,"%.0f-%.0f-%.0f-%.0f-%.0f-%.0f",...)\<close> of the UTC time.\<close>

definition utc_text :: "gtime_t \<Rightarrow> string option" where
  "utc_text t = do {
     utc \<leftarrow> gpst2utc t;
     let timer = map (fmt_fixed 0) (time2epoch utc);
     Some (timer ! 0 @ ''-'' @ timer ! 1 @ ''-'' @ timer ! 2 @ ''-'' @ timer ! 3 @ ''-'' @ timer ! 4 @ ''-'' @ timer ! 5) }"

definition statesend :: "hcnraw_t \<Rightarrow> guide_t \<Rightarrow> guide_t option" where
  "statesend raw g = do {
     s \<leftarrow> utc_text (raw_time raw);
     utctime \<leftarrow> str_write (st_utctime (g_state g)) 0 s;
     let b = raw_board raw;
     Some (g\<lparr>g_state := \<lparr>st_utctime = utctime,
       st_antn = \<lparr>an_mainantnworksta = b_mainantnworksta b, an_mainantnrfsta = b_mainantnrfsta b,
         an_aantnworksta = b_aantnworksta b, an_aantnrfsta = b_aantnrfsta b\<rparr>,
       st_cpu = \<lparr>cpu_acpuload = b_acpuload b, cpu_dcpuload = b_dcpuload b, cpu_astatus = b_astatus b,
         cpu_dstatus = b_dstatus b, cpu_fstatus = b_fstatus b\<rparr>\<rparr>\<rparr>) }"

definition enginesend :: "hcnraw_t \<Rightarrow> guide_t \<Rightarrow> guide_t" where
  "enginesend raw g = g\<lparr>g_entype := b_workstatus (raw_board raw)\<rparr>"

text \<open>\<open>%d.%d.%d.%d\<close>\<close>

definition dotted :: "byte list \<Rightarrow> string option" where
  "dotted a = do {
     a0 \<leftarrow> rd a 0; a1 \<leftarrow> rd a 1; a2 \<leftarrow> rd a 2; a3 \<leftarrow> rd a 3;
     Some (show_nat (unat a0) @ ''.'' @ show_nat (unat a1) @ ''.'' @ show_nat (unat a2) @ ''.'' @ show_nat (unat a3)) }"

definition ipsend :: "hcnraw_t \<Rightarrow> guide_t \<Rightarrow> guide_t option" where
  "ipsend raw g = (let b = raw_board raw; n = g_net g in do {
     ip \<leftarrow> dotted (b_ip b);
     ip \<leftarrow> str_write (nt_ip n) 0 (ip @ ''.'' @ show_nat (unat (b_port b)));
     gateway \<leftarrow> dotted (b_gateway b); gateway \<leftarrow> str_write (nt_gateway n) 0 gateway;
     netmask \<leftarrow> dotted (b_netmask b); netmask \<leftarrow> str_write (nt_netmask n) 0 netmask;
     dns \<leftarrow> dotted (b_dns b); dns \<leftarrow> str_write (nt_dns n) 0 dns;
     serverip \<leftarrow> dotted (b_serverip b); serverip \<leftarrow> str_write (nt_serverip n) 0 serverip;
     Some (g\<lparr>g_net := \<lparr>nt_ip = ip, nt_gateway = gateway, nt_netmask = netmask, nt_dns = dns, nt_serverip = serverip\<rparr>\<rparr>) })"

definition serclientsend :: "hcnraw_t \<Rightarrow> guide_t \<Rightarrow> guide_t" where
  "serclientsend raw g = g\<lparr>g_serclient := b_socktype (raw_board raw)\<rparr>"

definition rboard :: "hcnraw_t \<Rightarrow> guide_t \<Rightarrow> guide_t option" where
  "rboard raw g = do {
     g \<leftarrow> statesend raw g;
     let g = enginesend raw g;
     g \<leftarrow> ipsend raw g;
     Some (serclientsend raw g) }"

section \<open>Satellite messages\<close>

text \<open>The system of each signal type; the table has fourteen entries.\<close>

definition sys_table :: "byte list" where
  "sys_table = [0x01, 0x04, 0x20, 0x20, 0x01, 0x04, 0x20, 0x01, 0x04, 0x08, 0x02, 0x02, 0x08, 0x08]"

text \<open>\<open>xs[satnu[k]++] = v\<close>, with the increment of an \<open>unsigned char\<close>.\<close>

definition push_at :: "byte list \<Rightarrow> nat \<Rightarrow> 'a list \<Rightarrow> 'a \<Rightarrow> (byte list \<times> 'a list) option" where
  "push_at satnu k xs v = do {
     n \<leftarrow> rd satnu k;
     xs \<leftarrow> wr xs (unat n) v;
     satnu \<leftarrow> wr satnu k (n + 1);
     Some (satnu, xs) }"

definition push_prn :: "byte \<Rightarrow> byte \<Rightarrow> sateprn_t \<Rightarrow> sateprn_t option" where
  "push_prn sys svid p =
     (if sys = SYS_GPS then do { (n, xs) \<leftarrow> push_at (sn_satnu p) 0 (sn_gps p) svid; Some (p\<lparr>sn_satnu := n, sn_gps := xs\<rparr>) }
      else if sys = SYS_GLO then do { (n, xs) \<leftarrow> push_at (sn_satnu p) 1 (sn_glo p) svid; Some (p\<lparr>sn_satnu := n, sn_glo := xs\<rparr>) }
      else if sys = SYS_GAL then do { (n, xs) \<leftarrow> push_at (sn_satnu p) 2 (sn_gali p) svid; Some (p\<lparr>sn_satnu := n, sn_gali := xs\<rparr>) }
      else if sys = SYS_CMP then do { (n, xs) \<leftarrow> push_at (sn_satnu p) 3 (sn_cmp p) svid; Some (p\<lparr>sn_satnu := n, sn_cmp := xs\<rparr>) }
      else if sys = SYS_SBS then do { (n, xs) \<leftarrow> push_at (sn_satnu p) 4 (sn_sbas p) svid; Some (p\<lparr>sn_satnu := n, sn_sbas := xs\<rparr>) }
      else Some p)"

text \<open>The loop over the satellites; \<open>all\<close> is false where those with a status are skipped.\<close>

fun prn_loop :: "bool \<Rightarrow> satprosat_t list \<Rightarrow> nat \<Rightarrow> nat \<Rightarrow> sateprn_t \<Rightarrow> sateprn_t option" where
  "prn_loop all sats i 0 p = Some p"
| "prn_loop all sats i (Suc n) p = do {
     s \<leftarrow> rd sats i;
     p \<leftarrow> (if \<not> all \<and> ss_satstatus s \<noteq> 0 then Some p
          else do { sys \<leftarrow> rd sys_table (unat (ss_sigtype s)); push_prn sys (ucast (ss_svid s)) p });
     prn_loop all sats (Suc i) n p }"

definition getpossend :: "libm \<Rightarrow> hcnraw_t \<Rightarrow> guide_t \<Rightarrow> (guide_t \<times> message list) option" where
  "getpossend m raw g = (let sp = raw_satpro raw in
     if sp_satnum sp = 0 then Some (g, [Printed (''demo:satnum==0'' @ [LF])])
     else do {
       e \<leftarrow> ecef2pos m [sp_x sp, sp_y sp, sp_z sp];
       Some (g\<lparr>g_basepos := \<lparr>ba_lat = d_mul (e ! 0) R2D, ba_lon = d_mul (e ! 1) R2D, ba_hgt = e ! 2,
         ba_ecutoff = sp_ecutoff sp\<rparr>\<rparr>, []) })"

definition actionsend :: "hcnraw_t \<Rightarrow> guide_t \<Rightarrow> guide_t option" where
  "actionsend raw g = (let sp = raw_satpro raw in
     if sp_satnum sp = 0 then Some g
     else do {
       p \<leftarrow> prn_loop True (sp_satprosat sp) 0 (unat (sp_satnum sp)) ((g_sateprn g)\<lparr>sn_satnu := replicate 5 0\<rparr>);
       Some (g\<lparr>g_sateprn := p\<rparr>) })"

definition possend :: "libm \<Rightarrow> hcnraw_t \<Rightarrow> guide_t \<Rightarrow> guide_t option" where
  "possend m raw g = (let sp = raw_satpro raw; po = g_posstate g in do {
     e \<leftarrow> ecef2pos m [sp_x sp, sp_y sp, sp_z sp];
     (gpssec, gpsweek) \<leftarrow> time2gpst (raw_time raw);
     p \<leftarrow> prn_loop False (sp_satprosat sp) 0 (unat (sp_satnum sp)) ((pt_sateprn po)\<lparr>sn_satnu := replicate 5 0\<rparr>);
     Some (g\<lparr>g_posstate := \<lparr>pt_lat = d_mul (e ! 0) R2D, pt_lon = d_mul (e ! 1) R2D, pt_hgt = e ! 2,
       pt_undulation = s_to_d (sp_undulation sp), pt_postype = sp_pvtstatus sp, pt_difftime = sp_age sp,
       pt_stnid = sp_stnid sp, pt_gpsweek = gpsweek, pt_gpssec = d_to_s gpssec,
       pt_pdop = sp_pdop sp, pt_hdop = sp_hdop sp, pt_vdop = sp_vdop sp, pt_tdop = sp_tdop sp,
       pt_solsatnu = sp_solsatnum sp, pt_sateprn = p\<rparr>\<rparr>) })"

definition trace_entry :: "satprosat_t \<Rightarrow> prncn_t" where
  "trace_entry s = \<lparr>pc_prn = ucast (ss_svid s), pc_elev = s_to_d (ss_elevation s), pc_az = s_to_d (ss_azimuth s),
     pc_cn = ss_cn s, pc_satstatus = ss_satstatus s\<rparr>"

definition push_trace :: "byte \<Rightarrow> prncn_t \<Rightarrow> tracetable_t \<Rightarrow> tracetable_t option" where
  "push_trace sys v t =
     (if sys = SYS_GPS then do { (n, xs) \<leftarrow> push_at (tt_satnu t) 0 (tt_gps t) v; Some (t\<lparr>tt_satnu := n, tt_gps := xs\<rparr>) }
      else if sys = SYS_GLO then do { (n, xs) \<leftarrow> push_at (tt_satnu t) 1 (tt_glo t) v; Some (t\<lparr>tt_satnu := n, tt_glo := xs\<rparr>) }
      else if sys = SYS_GAL then do { (n, xs) \<leftarrow> push_at (tt_satnu t) 2 (tt_gali t) v; Some (t\<lparr>tt_satnu := n, tt_gali := xs\<rparr>) }
      else if sys = SYS_CMP then do { (n, xs) \<leftarrow> push_at (tt_satnu t) 3 (tt_cmp t) v; Some (t\<lparr>tt_satnu := n, tt_cmp := xs\<rparr>) }
      else if sys = SYS_SBS then do { (n, xs) \<leftarrow> push_at (tt_satnu t) 4 (tt_sbas t) v; Some (t\<lparr>tt_satnu := n, tt_sbas := xs\<rparr>) }
      else Some t)"

fun trace_loop :: "satprosat_t list \<Rightarrow> nat \<Rightarrow> nat \<Rightarrow> tracetable_t \<Rightarrow> tracetable_t option" where
  "trace_loop sats i 0 t = Some t"
| "trace_loop sats i (Suc n) t = do {
     s \<leftarrow> rd sats i;
     sys \<leftarrow> rd sys_table (unat (ss_sigtype s));
     t \<leftarrow> push_trace sys (trace_entry s) t;
     trace_loop sats (Suc i) n t }"

definition tracesend :: "hcnraw_t \<Rightarrow> guide_t \<Rightarrow> guide_t option" where
  "tracesend raw g = (let sp = raw_satpro raw in
     if sp_satnum sp \<le> 0 then Some g
     else do {
       t \<leftarrow> trace_loop (sp_satprosat sp) 0 (unat (sp_satnum sp))
         ((g_tracetable g)\<lparr>tt_ecutoff := sp_ecutoff sp, tt_satnu := replicate 5 0\<rparr>);
       Some (g\<lparr>g_tracetable := t\<rparr>) })"

definition rsat :: "libm \<Rightarrow> hcnraw_t \<Rightarrow> guide_t \<Rightarrow> (guide_t \<times> message list) option" where
  "rsat m raw g = do {
     (g, out) \<leftarrow> getpossend m raw g;
     g \<leftarrow> actionsend raw g;
     g \<leftarrow> possend m raw g;
     g \<leftarrow> tracesend raw g;
     Some (g, out) }"

section \<open>Interface, direction and channel messages\<close>

fun interface_loop :: "inters_t list \<Rightarrow> nat \<Rightarrow> nat \<Rightarrow> interfaces_t list \<Rightarrow> interfaces_t list option" where
  "interface_loop xs i 0 ys = Some ys"
| "interface_loop xs i (Suc n) ys = do {
     x \<leftarrow> rd xs i;
     ys \<leftarrow> wr ys i \<lparr>if_comid = is_comid x, if_flag = is_flag x, if_msgid = is_msgid x, if_period = is_period x\<rparr>;
     interface_loop xs (Suc i) n ys }"

definition rinter :: "hcnraw_t \<Rightarrow> guide_t \<Rightarrow> guide_t option" where
  "rinter raw g = (let r = raw_inter raw in do {
     ys \<leftarrow> interface_loop (in_inters r) 0 (unat (in_num r)) (it_interfaces (g_interface g));
     Some (g\<lparr>g_interface := \<lparr>it_num = in_num r, it_interfaces = ys, it_retype = in_retype r, it_comtype = in_comtype r,
       it_sytype = in_sytype r, it_sidotype = in_sidotype r, it_dirtype = in_dirtype r, it_dirlen = in_dirlen r\<rparr>\<rparr>) })"

definition rdirec :: "hcnraw_t \<Rightarrow> guide_t \<Rightarrow> guide_t option" where
  "rdirec raw g = (let d = raw_direc raw in do {
     s \<leftarrow> utc_text (raw_time raw);
     utctime \<leftarrow> str_write (dd_utctime (g_direcdata g)) 0 s;
     Some (g\<lparr>g_direcdata := \<lparr>dd_mlat = di_baselat d, dd_mlon = di_baselon d, dd_mhgt = di_basehgt d,
       dd_alat = di_rovelat d, dd_alon = di_rovelon d, dd_ahgt = di_rovehgt d, dd_pitch = di_pitch d,
       dd_heading = di_heading d, dd_roll = di_roll d, dd_qf = di_qf d, dd_hdop = di_hdop d, dd_satnum = di_satnum d,
       dd_utctime = utctime\<rparr>\<rparr>) })"

fun chansta_loop :: "pipe_t list \<Rightarrow> nat \<Rightarrow> nat \<Rightarrow> byte list \<Rightarrow> byte list option" where
  "chansta_loop ps i 0 c = Some c"
| "chansta_loop ps i (Suc n) c = do {
     p \<leftarrow> rd ps i;
     c \<leftarrow> wr c (unat (sw_frenu (pi_staword p))) 1;
     chansta_loop ps (Suc i) n c }"

definition rchansta :: "hcnraw_t \<Rightarrow> guide_t \<Rightarrow> guide_t option" where
  "rchansta raw g = (let ps = raw_pipes raw in do {
     c \<leftarrow> chansta_loop (ps_pipe ps) 0 (unat (ps_channum ps)) (replicate FRENUM 0);
     Some (g\<lparr>g_chansta := c\<rparr>) })"

section \<open>The handler\<close>

text \<open>The switch of \<open>deal_pro\<close>, and \<open>deal_pro\<close>: one message from the pipe \<open>fd\<close>, into a fresh
  \<open>hcnraw_t\<close>. The result is the state, what was logged and printed, and the rest of the pipe.\<close>

definition deal_message :: "libm \<Rightarrow> int \<Rightarrow> hcnraw_t \<Rightarrow> guide_t \<Rightarrow> (guide_t \<times> message list) option" where
  "deal_message m ty raw g =
     (if ty = int ID_HCNBOARD then map_option (\<lambda>g. (g, [])) (rboard raw g)
      else if ty = int ID_DIREC then map_option (\<lambda>g. (g, [])) (rdirec raw g)
      else if ty = int ID_SAT then rsat m raw g
      else if ty = int ID_INTER then map_option (\<lambda>g. (g, [])) (rinter raw g)
      else if ty = int ID_HCNPIPE then map_option (\<lambda>g. (g, [])) (rchansta raw g)
      else Some (g, []))"

definition deal_pro :: "libm \<Rightarrow> double list \<Rightarrow> guide_t \<Rightarrow> fifo \<Rightarrow> (guide_t \<times> message list \<times> fifo) option" where
  "deal_pro m now g fd = do {
     (raw, ty, out, res, fd) \<leftarrow> input_hcnoem4p now hcnraw_zero fd;
     if res > 0 then do {
       t \<leftarrow> ty;
       (g, out') \<leftarrow> deal_message m t raw g;
       Some (g, out @ out', fd) }
     else Some (g, out, fd) }"

section \<open>Lists of satellites\<close>

text \<open>The abstract view of the satellite lists: per system, the numbers in use.\<close>

definition systems :: "byte list" where
  "systems = [SYS_GPS, SYS_GLO, SYS_GAL, SYS_CMP, SYS_SBS]"

definition prn_arrays :: "sateprn_t \<Rightarrow> byte list list" where
  "prn_arrays p = [sn_gps p, sn_glo p, sn_gali p, sn_cmp p, sn_sbas p]"

definition listed :: "sateprn_t \<Rightarrow> nat \<Rightarrow> byte list" where
  "listed p k = take (unat (sn_satnu p ! k)) (prn_arrays p ! k)"

definition of_system :: "nat \<Rightarrow> satprosat_t list \<Rightarrow> satprosat_t list" where
  "of_system k sats = filter (\<lambda>s. sys_table ! unat (ss_sigtype s) = systems ! k) sats"

text \<open>Both kinds of list, the plain numbers and the trace table, are filled the same way. The interface:
  a push for a full system is undefined, any other appends the entry to its system and leaves the other
  systems alone.\<close>

definition prn_inv :: "sateprn_t \<Rightarrow> bool" where
  "prn_inv p \<longleftrightarrow> sateprn_ok p \<and> (\<forall>k < 5. unat (sn_satnu p ! k) \<le> 32)"

lemma sys_values: "SYS_GPS = 1" "SYS_GLO = 4" "SYS_GAL = 8" "SYS_CMP = 32" "SYS_SBS = 2"
  by (simp_all add: SYS_GPS_def SYS_GLO_def SYS_GAL_def SYS_CMP_def SYS_SBS_def)

lemma less_5: "k < 5 \<longleftrightarrow> k = 0 \<or> k = 1 \<or> k = 2 \<or> k = 3 \<or> k = (4 :: nat)"
  by auto

lemma all_less_5: "(\<forall>k < (5 :: nat). P k) \<longleftrightarrow> P 0 \<and> P 1 \<and> P 2 \<and> P 3 \<and> P 4"
  by (auto simp: less_5)

lemma systems_distinct: "j < 5 \<Longrightarrow> k < 5 \<Longrightarrow> systems ! j = systems ! k \<longleftrightarrow> j = k"
  by (auto simp: less_5 systems_def sys_values)

lemma sys_table_systems:
  assumes "i < 14"
  obtains k where "k < 5" "sys_table ! i = systems ! k"
proof -
  have "list_all (\<lambda>x. x \<in> set systems) sys_table"
    by (simp add: sys_table_def systems_def sys_values)
  moreover have "length sys_table = 14" by (simp add: sys_table_def)
  ultimately have "sys_table ! i \<in> set systems" using assms by (simp add: list_all_iff)
  then obtain k where "k < length systems" "systems ! k = sys_table ! i" by (metis in_set_conv_nth)
  then show ?thesis using that [of k] by (simp add: systems_def)
qed

lemma sys_table_length: "length sys_table = 14"
  by (simp add: sys_table_def)

lemma unat_succ: "unat (n :: byte) < 70 \<Longrightarrow> unat (n + 1) = unat n + 1"
  by (simp add: unat_word_ariths)

lemma push_at_eq:
  assumes "k < length satnu"
  shows "push_at satnu k xs v = (if unat (satnu ! k) < length xs
    then Some (satnu[k := satnu ! k + 1], xs[unat (satnu ! k) := v]) else None)"
  using assms by (simp add: push_at_def wr_def)

lemma take_push: "c < length xs \<Longrightarrow> take (c + 1) (xs[c := v]) = take c xs @ [v]"
  by (simp add: take_Suc_conv_app_nth)

lemma push_prn_spec:
  assumes "prn_inv p" and "k < 5"
  shows "unat (sn_satnu p ! k) = 32 \<Longrightarrow> push_prn (systems ! k) v p = None"
    and "unat (sn_satnu p ! k) < 32 \<Longrightarrow> \<exists>p'. push_prn (systems ! k) v p = Some p' \<and> prn_inv p' \<and>
      (\<forall>j < 5. unat (sn_satnu p' ! j) = unat (sn_satnu p ! j) + (if j = k then 1 else 0) \<and>
        listed p' j = listed p j @ (if j = k then [v] else []))"
proof -
  have len: "length (sn_satnu p) = 5" "length (sn_gps p) = 32" "length (sn_glo p) = 32" "length (sn_gali p) = 32"
    "length (sn_cmp p) = 32" "length (sn_sbas p) = 32"
    using assms(1) by (simp_all add: prn_inv_def sateprn_ok_def MAXPRNGPS_def MAXPRNGLO_def MAXPRNGAL_def MAXPRNCMP_def MAXPRNSBS_def)
  note defs = push_prn_def systems_def sys_values push_at_eq len
  show "unat (sn_satnu p ! k) = 32 \<Longrightarrow> push_prn (systems ! k) v p = None"
    using assms(2) by (auto simp: less_5 defs)
  assume c: "unat (sn_satnu p ! k) < 32"
  note sizes = sateprn_ok_def MAXPRNGPS_def MAXPRNGLO_def MAXPRNGAL_def MAXPRNCMP_def MAXPRNSBS_def
  have inv: "unat (sn_satnu p ! 0) \<le> 32" "unat (sn_satnu p ! 1) \<le> 32" "unat (sn_satnu p ! 2) \<le> 32"
    "unat (sn_satnu p ! 3) \<le> 32" "unat (sn_satnu p ! 4) \<le> 32"
    using assms(1) by (simp_all add: prn_inv_def)
  show "\<exists>p'. push_prn (systems ! k) v p = Some p' \<and> prn_inv p' \<and>
      (\<forall>j < 5. unat (sn_satnu p' ! j) = unat (sn_satnu p ! j) + (if j = k then 1 else 0) \<and>
        listed p' j = listed p j @ (if j = k then [v] else []))"
    using assms(2) c inv unfolding less_5
    by (elim disjE)
      (simp_all add: defs prn_inv_def sizes all_less_5 listed_def prn_arrays_def unat_succ take_push [unfolded Suc_eq_plus1] del: One_nat_def Suc_eq_plus1)
qed

definition prn_count :: "sateprn_t \<Rightarrow> nat \<Rightarrow> nat" where
  "prn_count p k = unat (sn_satnu p ! k)"

text \<open>The trace table, with its larger arrays.\<close>

definition trace_arrays :: "tracetable_t \<Rightarrow> prncn_t list list" where
  "trace_arrays t = [tt_gps t, tt_glo t, tt_gali t, tt_cmp t, tt_sbas t]"

definition trace_cap :: "nat \<Rightarrow> nat" where
  "trace_cap k = (if k = 4 then 70 else 40)"

definition trace_count :: "tracetable_t \<Rightarrow> nat \<Rightarrow> nat" where
  "trace_count t k = unat (tt_satnu t ! k)"

definition traced :: "tracetable_t \<Rightarrow> nat \<Rightarrow> prncn_t list" where
  "traced t k = take (unat (tt_satnu t ! k)) (trace_arrays t ! k)"

definition trace_inv :: "tracetable_t \<Rightarrow> bool" where
  "trace_inv t \<longleftrightarrow> tracetable_ok t \<and> (\<forall>k < 5. unat (tt_satnu t ! k) \<le> trace_cap k)"

lemma push_trace_spec:
  assumes "trace_inv t" and "k < 5"
  shows "unat (tt_satnu t ! k) = trace_cap k \<Longrightarrow> push_trace (systems ! k) v t = None"
    and "unat (tt_satnu t ! k) < trace_cap k \<Longrightarrow> \<exists>t'. push_trace (systems ! k) v t = Some t' \<and> trace_inv t' \<and>
      (\<forall>j < 5. unat (tt_satnu t' ! j) = unat (tt_satnu t ! j) + (if j = k then 1 else 0) \<and>
        traced t' j = traced t j @ (if j = k then [v] else []))"
proof -
  have len: "length (tt_satnu t) = 5" "length (tt_gps t) = 40" "length (tt_glo t) = 40" "length (tt_gali t) = 40"
    "length (tt_cmp t) = 40" "length (tt_sbas t) = 70"
    using assms(1) by (simp_all add: trace_inv_def tracetable_ok_def GPSNUM_def GLONUM_def GALINUM_def CMPNUM_def SBASNUM_def)
  note defs = push_trace_def systems_def sys_values push_at_eq len trace_cap_def
  show "unat (tt_satnu t ! k) = trace_cap k \<Longrightarrow> push_trace (systems ! k) v t = None"
    using assms(2) by (auto simp: less_5 defs)
  assume c: "unat (tt_satnu t ! k) < trace_cap k"
  note sizes = tracetable_ok_def GPSNUM_def GLONUM_def GALINUM_def CMPNUM_def SBASNUM_def
  have inv: "unat (tt_satnu t ! 0) \<le> 40" "unat (tt_satnu t ! 1) \<le> 40" "unat (tt_satnu t ! 2) \<le> 40"
    "unat (tt_satnu t ! 3) \<le> 40" "unat (tt_satnu t ! 4) \<le> 70"
    using assms(1) by (simp_all add: trace_inv_def trace_cap_def all_less_5)
  show "\<exists>t'. push_trace (systems ! k) v t = Some t' \<and> trace_inv t' \<and>
      (\<forall>j < 5. unat (tt_satnu t' ! j) = unat (tt_satnu t ! j) + (if j = k then 1 else 0) \<and>
        traced t' j = traced t j @ (if j = k then [v] else []))"
    using assms(2) c inv unfolding less_5
    by (elim disjE)
      (simp_all add: defs trace_inv_def sizes all_less_5 traced_def trace_arrays_def unat_succ
        take_push [unfolded Suc_eq_plus1] del: One_nat_def Suc_eq_plus1)
qed

text \<open>The common loop.\<close>

fun sat_fold :: "(byte \<Rightarrow> satprosat_t \<Rightarrow> 's \<Rightarrow> 's option) \<Rightarrow> (satprosat_t \<Rightarrow> bool) \<Rightarrow> satprosat_t list \<Rightarrow> nat \<Rightarrow> nat \<Rightarrow> 's \<Rightarrow> 's option" where
  "sat_fold push keep sats i 0 p = Some p"
| "sat_fold push keep sats i (Suc n) p = do {
     s \<leftarrow> rd sats i;
     p \<leftarrow> (if keep s then do { sys \<leftarrow> rd sys_table (unat (ss_sigtype s)); push sys s p } else Some p);
     sat_fold push keep sats (Suc i) n p }"

lemma prn_loop_fold:
  "prn_loop all sats i n p = sat_fold (\<lambda>sys s. push_prn sys (ucast (ss_svid s))) (\<lambda>s. all \<or> ss_satstatus s = 0) sats i n p"
proof (induction n arbitrary: i p)
  case (Suc n)
  have IH: "prn_loop all sats (Suc i) n =
      sat_fold (\<lambda>sys s. push_prn sys (ucast (ss_svid s))) (\<lambda>s. all \<or> ss_satstatus s = 0) sats (Suc i) n"
    by (intro ext Suc.IH)
  show ?case unfolding prn_loop.simps sat_fold.simps IH by (intro Option.bind_cong refl) auto
qed simp

lemma trace_loop_fold:
  "trace_loop sats i n t = sat_fold (\<lambda>sys s. push_trace sys (trace_entry s)) (\<lambda>s. True) sats i n t"
proof (induction n arbitrary: i t)
  case (Suc n)
  have "trace_loop sats (Suc i) n = sat_fold (\<lambda>sys s. push_trace sys (trace_entry s)) (\<lambda>s. True) sats (Suc i) n"
    by (intro ext Suc.IH)
  then show ?case by simp
qed simp

lemma of_system_Cons:
  "k < 5 \<Longrightarrow> sys_table ! unat (ss_sigtype s) = systems ! j \<Longrightarrow> j < 5 \<Longrightarrow>
    of_system k (s # sats) = (if k = j then s # of_system k sats else of_system k sats)"
  by (simp add: of_system_def systems_distinct)

locale sat_lists =
  fixes push :: "byte \<Rightarrow> satprosat_t \<Rightarrow> 's \<Rightarrow> 's option"
    and inv :: "'s \<Rightarrow> bool" and cap :: "nat \<Rightarrow> nat" and count :: "'s \<Rightarrow> nat \<Rightarrow> nat"
    and listing :: "'s \<Rightarrow> nat \<Rightarrow> 'e list" and entry :: "satprosat_t \<Rightarrow> 'e"
  assumes count_cap: "inv p \<Longrightarrow> k < 5 \<Longrightarrow> count p k \<le> cap k"
    and push_full: "inv p \<Longrightarrow> k < 5 \<Longrightarrow> count p k = cap k \<Longrightarrow> push (systems ! k) s p = None"
    and push_room: "inv p \<Longrightarrow> k < 5 \<Longrightarrow> count p k < cap k \<Longrightarrow>
      \<exists>p'. push (systems ! k) s p = Some p' \<and> inv p' \<and>
        (\<forall>j < 5. count p' j = count p j + (if j = k then 1 else 0) \<and>
          listing p' j = listing p j @ (if j = k then [entry s] else []))"
begin

text \<open>When a list of satellites fits: known signal types, and room in each system.\<close>

abbreviation fits :: "'s \<Rightarrow> satprosat_t list \<Rightarrow> bool" where
  "fits p sats \<equiv> (\<forall>s \<in> set sats. unat (ss_sigtype s) < 14)
     \<and> (\<forall>k < 5. count p k + length (of_system k sats) \<le> cap k)"

lemma push_spec:
  assumes "inv p"
  shows "case rd sys_table (unat (ss_sigtype s)) \<bind> (\<lambda>sys. push sys s p) of
      None \<Rightarrow> \<not> fits p (s # rest)
    | Some q \<Rightarrow> inv q \<and> (fits q rest \<longleftrightarrow> fits p (s # rest)) \<and>
        (\<forall>j < 5. listing q j @ map entry (of_system j rest) = listing p j @ map entry (of_system j (s # rest)))"
proof (cases "unat (ss_sigtype s) < 14")
  case False
  then show ?thesis by (simp add: rd_def sys_table_length)
next
  case sig: True
  then obtain k where k: "k < 5" "sys_table ! unat (ss_sigtype s) = systems ! k" by (rule sys_table_systems)
  have rd: "rd sys_table (unat (ss_sigtype s)) = Some (systems ! k)" using sig k(2) by (simp add: sys_table_length)
  have sys: "of_system j (s # rest) = (if j = k then s # of_system j rest else of_system j rest)" if "j < 5" for j
    using of_system_Cons [OF that k(2,1)] .
  consider "count p k = cap k" | "count p k < cap k" using count_cap [OF assms k(1)] by linarith
  then show ?thesis
  proof cases
    case 1
    then have "\<not> fits p (s # rest)" using k(1) sys [OF k(1)] by (intro notI) (auto dest!: spec [of _ k])
    then show ?thesis unfolding rd using push_full [OF assms k(1) 1] by simp
  next
    case 2
    from push_room [OF assms k(1) 2] obtain q where q: "push (systems ! k) s p = Some q" "inv q"
      "\<And>j. j < 5 \<Longrightarrow> count q j = count p j + (if j = k then 1 else 0)"
      "\<And>j. j < 5 \<Longrightarrow> listing q j = listing p j @ (if j = k then [entry s] else [])" by blast
    have "count q j + length (of_system j rest) = count p j + length (of_system j (s # rest))" if "j < 5" for j
      using q(3) [OF that] sys [OF that] by auto
    then have "fits q rest \<longleftrightarrow> fits p (s # rest)" using sig by simp
    moreover have "listing q j @ map entry (of_system j rest) = listing p j @ map entry (of_system j (s # rest))" if "j < 5" for j
      using q(4) [OF that] sys [OF that] by simp
    ultimately show ?thesis unfolding rd using q(1,2) by simp
  qed
qed

lemma fold_spec:
  assumes "inv p" and "i + n \<le> length sats"
  shows "case sat_fold push keep sats i n p of
      None \<Rightarrow> \<not> fits p (filter keep (take n (drop i sats)))
    | Some p' \<Rightarrow> fits p (filter keep (take n (drop i sats))) \<and> inv p' \<and>
        (\<forall>k < 5. listing p' k = listing p k @ map entry (of_system k (filter keep (take n (drop i sats)))))"
  using assms
proof (induction n arbitrary: i p)
  case 0
  then show ?case using count_cap by (auto simp: of_system_def)
next
  case (Suc n)
  let ?s = "sats ! i" and ?rest = "filter keep (take n (drop (Suc i) sats))"
  have i: "i < length sats" using Suc.prems by simp
  then have chosen: "filter keep (take (Suc n) (drop i sats)) = (if keep ?s then ?s # ?rest else ?rest)"
    by (simp flip: Cons_nth_drop_Suc)
  have IH: "case sat_fold push keep sats (Suc i) n q of None \<Rightarrow> \<not> fits q ?rest
      | Some p' \<Rightarrow> fits q ?rest \<and> inv p' \<and> (\<forall>k < 5. listing p' k = listing q k @ map entry (of_system k ?rest))"
    if "inv q" for q using Suc.IH [OF that, of "Suc i"] Suc.prems(2) by simp
  show ?case
  proof (cases "keep ?s")
    case False
    then show ?thesis unfolding chosen using IH [OF Suc.prems(1)] i by simp
  next
    case True
    let ?push = "rd sys_table (unat (ss_sigtype ?s)) \<bind> (\<lambda>sys. push sys ?s p)"
    have step: "sat_fold push keep sats i (Suc n) p = ?push \<bind> sat_fold push keep sats (Suc i) n"
      using True i by (cases "rd sys_table (unat (ss_sigtype ?s))") auto
    note one = push_spec [OF Suc.prems(1), of ?s ?rest]
    show ?thesis
    proof (cases ?push)
      case None
      then show ?thesis unfolding chosen step using one True by simp
    next
      case (Some q)
      then show ?thesis unfolding chosen step using one True IH [of q] by (simp split: option.splits)
    qed
  qed
qed

end

interpretation prns: sat_lists "\<lambda>sys s. push_prn sys (ucast (ss_svid s))" prn_inv "\<lambda>k. 32" prn_count listed "\<lambda>s. ucast (ss_svid s)"
proof unfold_locales
  show "prn_inv p \<Longrightarrow> k < 5 \<Longrightarrow> prn_count p k \<le> 32" for p k
    by (simp add: prn_inv_def prn_count_def)
qed (use push_prn_spec in \<open>auto simp: prn_count_def\<close>)

interpretation traces: sat_lists "\<lambda>sys s. push_trace sys (trace_entry s)" trace_inv trace_cap trace_count traced trace_entry
proof unfold_locales
  show "trace_inv p \<Longrightarrow> k < 5 \<Longrightarrow> trace_count p k \<le> trace_cap k" for p k
    by (simp add: trace_inv_def trace_count_def)
qed (use push_trace_spec in \<open>auto simp: trace_count_def\<close>)


section \<open>What the satellite messages leave in the state\<close>

lemma sateprn_ok_clear: "sateprn_ok p \<Longrightarrow> prn_inv (p\<lparr>sn_satnu := replicate 5 0\<rparr>)"
  by (simp add: prn_inv_def sateprn_ok_def all_less_5)

lemma cleared [simp]:
  "k < 5 \<Longrightarrow> prn_count (p\<lparr>sn_satnu := replicate 5 0\<rparr>) k = 0" "k < 5 \<Longrightarrow> listed (p\<lparr>sn_satnu := replicate 5 0\<rparr>) k = []"
  "k < 5 \<Longrightarrow> trace_count (t\<lparr>tt_ecutoff := e, tt_satnu := replicate 5 0\<rparr>) k = 0"
  "k < 5 \<Longrightarrow> traced (t\<lparr>tt_ecutoff := e, tt_satnu := replicate 5 0\<rparr>) k = []"
  by (simp_all add: prn_count_def listed_def trace_count_def traced_def)

lemma tracetable_ok_clear: "tracetable_ok t \<Longrightarrow> trace_inv (t\<lparr>tt_ecutoff := e, tt_satnu := replicate 5 0\<rparr>)"
  by (simp add: trace_inv_def tracetable_ok_def all_less_5)

text \<open>The satellites of a message, and the limits per system.\<close>

definition sats_of :: "hcnraw_t \<Rightarrow> satprosat_t list" where
  "sats_of raw = take (unat (sp_satnum (raw_satpro raw))) (sp_satprosat (raw_satpro raw))"

definition room_for :: "(nat \<Rightarrow> nat) \<Rightarrow> satprosat_t list \<Rightarrow> bool" where
  "room_for cap sats \<longleftrightarrow> (\<forall>s \<in> set sats. unat (ss_sigtype s) < 14) \<and> (\<forall>k < 5. length (of_system k sats) \<le> cap k)"

lemma actionsend_spec:
  assumes "guide_ok g" and "unat (sp_satnum (raw_satpro raw)) \<le> length (sp_satprosat (raw_satpro raw))"
    and "sp_satnum (raw_satpro raw) \<noteq> 0"
  shows "case actionsend raw g of
      None \<Rightarrow> \<not> room_for (\<lambda>k. 32) (sats_of raw)
    | Some g' \<Rightarrow> room_for (\<lambda>k. 32) (sats_of raw) \<and> guide_ok g' \<and> prn_inv (g_sateprn g') \<and>
        (\<forall>k < 5. listed (g_sateprn g') k = map (\<lambda>s. ucast (ss_svid s)) (of_system k (sats_of raw))) \<and>
        g' = g\<lparr>g_sateprn := g_sateprn g'\<rparr>"
proof -
  let ?n = "unat (sp_satnum (raw_satpro raw))" and ?sats = "sp_satprosat (raw_satpro raw)"
  let ?p = "(g_sateprn g)\<lparr>sn_satnu := replicate 5 0\<rparr>"
  have "prn_inv ?p" using assms(1) by (intro sateprn_ok_clear) (simp add: guide_ok_def)
  from prns.fold_spec [OF this, of 0 ?n ?sats "\<lambda>s. True \<or> ss_satstatus s = 0"] assms(2)
  show ?thesis
    using assms(1,3) unfolding prn_loop_fold [symmetric]
    by (auto simp: actionsend_def Let_def sats_of_def room_for_def guide_ok_def prn_inv_def split: option.splits)
qed

lemma tracesend_spec:
  assumes "guide_ok g" and "unat (sp_satnum (raw_satpro raw)) \<le> length (sp_satprosat (raw_satpro raw))"
    and "sp_satnum (raw_satpro raw) \<noteq> 0"
  shows "case tracesend raw g of
      None \<Rightarrow> \<not> room_for trace_cap (sats_of raw)
    | Some g' \<Rightarrow> room_for trace_cap (sats_of raw) \<and> guide_ok g' \<and>
        (\<forall>k < 5. traced (g_tracetable g') k = map trace_entry (of_system k (sats_of raw))) \<and>
        g' = g\<lparr>g_tracetable := g_tracetable g'\<rparr>"
proof -
  let ?n = "unat (sp_satnum (raw_satpro raw))" and ?sats = "sp_satprosat (raw_satpro raw)"
  let ?t = "(g_tracetable g)\<lparr>tt_ecutoff := sp_ecutoff (raw_satpro raw), tt_satnu := replicate 5 0\<rparr>"
  have inv: "trace_inv ?t" using assms(1) by (intro tracetable_ok_clear) (simp add: guide_ok_def)
  have pos: "(sp_satnum (raw_satpro raw) \<le> 0) = False" using assms(3) by (simp add: word_le_0_iff)
  from traces.fold_spec [OF inv, of 0 ?n ?sats "\<lambda>s. True"] assms(2)
  show ?thesis
    using assms(1) pos unfolding trace_loop_fold [symmetric]
    by (auto simp: tracesend_def Let_def sats_of_def room_for_def guide_ok_def trace_inv_def split: option.splits)
qed

section \<open>The time text\<close>

lemma time2epoch_fields:
  assumes "0 \<le> gt_time u" and "gt_time u < 2 ^ 31"
  shows "\<exists>y mo d h mi x. time2epoch u = map d_of_int [y, mo, d, h, mi] @ [x]
    \<and> {y, mo, d, h, mi} \<subseteq> {0..9999}"
proof -
  let ?t = "gt_time u"
  obtain day mon where ml: "month_loop mday (?t div 86400 mod 1461) 0 = (day, mon)" by fastforce
  have days: "0 \<le> ?t div 86400" "?t div 86400 \<le> 24855" using assms by simp_all
  note date = month_loop_date [OF days ml]
  have "?t - ?t div 86400 * 86400 = ?t mod 86400" by (simp add: minus_div_mult_eq_mod)
  then have eq: "time2epoch u = map d_of_int [1970 + ?t div 86400 div 1461 * 4 + mon div 12, mon mod 12 + 1, day + 1,
      ?t mod 86400 div 3600, ?t mod 86400 mod 3600 div 60] @ [d_add (d_of_int (?t mod 86400 mod 60)) (gt_sec u)]"
    using assms date(4) ml by (simp add: time2epoch_def Let_def)
  have q: "0 \<le> ?t div 86400 div 1461" "?t div 86400 div 1461 \<le> 17" using days by linarith+
  have c: "0 \<le> mon div 12" "mon div 12 \<le> 3" "0 \<le> mon mod 12" "mon mod 12 < 12" using date by linarith+
  have h: "0 \<le> x div 3600 \<and> x div 3600 < 24" if "0 \<le> x" "x < 86400" for x :: int using that by linarith
  have mi: "0 \<le> x div 60 \<and> x div 60 < 60" if "0 \<le> x" "x < 3600" for x :: int using that by linarith
  have "{1970 + ?t div 86400 div 1461 * 4 + mon div 12, mon mod 12 + 1, day + 1,
      ?t mod 86400 div 3600, ?t mod 86400 mod 3600 div 60} \<subseteq> {0..9999}"
  proof -
    have "0 \<le> ?t mod 86400" "?t mod 86400 < 86400" "0 \<le> ?t mod 86400 mod 3600" "?t mod 86400 mod 3600 < 3600" by simp_all
    note hm = h [OF this(1,2)] mi [OF this(3,4)]
    have gen: "{1970 + q * 4 + c, mm + 1, dd + 1, hh, mi} \<subseteq> {0..9999}"
      if "0 \<le> q" "q \<le> 17" "0 \<le> c" "c \<le> 3" "0 \<le> mm" "mm < 12" "0 \<le> dd" "dd < 31" "0 \<le> hh \<and> hh < 24" "0 \<le> mi \<and> mi < 60"
      for q c mm dd hh mi :: int using that by simp
    show ?thesis by (rule gen [OF q c date(2,3) hm])
  qed
  with eq show ?thesis by (intro exI) (rule conjI)
qed

lemma utc_text_defined:
  assumes "gpst2utc t = Some u" and "0 \<le> gt_time u" and "gt_time u < 2 ^ 31"
  shows "\<exists>s. utc_text t = Some s \<and> length s < 1024"
proof -
  obtain y mo d h mi x where
    e: "time2epoch u = map d_of_int [y, mo, d, h, mi] @ [x]" and r: "{y, mo, d, h, mi} \<subseteq> {0..9999}"
    using time2epoch_fields [OF assms(2,3)] by (elim exE conjE) (rule that)
  have len: "length (show_nat (nat i)) \<le> 4" if "i \<in> {0..9999}" for i :: int
    using that by (intro show_nat_length) auto
  have "length (show_nat (nat y)) \<le> 4" "length (show_nat (nat mo)) \<le> 4" "length (show_nat (nat d)) \<le> 4"
    "length (show_nat (nat h)) \<le> 4" "length (show_nat (nat mi)) \<le> 4" using r by (auto intro: len)
  moreover have "map (fmt_fixed 0) (time2epoch u) =
      [show_nat (nat y), show_nat (nat mo), show_nat (nat d), show_nat (nat h), show_nat (nat mi), fmt_fixed 0 x]"
    using r by (simp add: e fmt_fixed_of_int)
  ultimately show ?thesis using fmt_fixed_0_length [of x]
    by (simp add: utc_text_def assms(1) Let_def)
qed

lemma str_write_fits: "length s < length b \<Longrightarrow> str_write b 0 s = Some (s @ NUL # drop (Suc (length s)) b)"
  unfolding str_write_def by (subst mem_write_inside) auto

lemma dotted_eq:
  assumes "length a = 4"
  shows "dotted a = Some (show_nat (unat (a ! 0)) @ ''.'' @ show_nat (unat (a ! 1)) @ ''.'' @
      show_nat (unat (a ! 2)) @ ''.'' @ show_nat (unat (a ! 3)))"
    and "length (the (dotted a)) \<le> 15"
proof -
  show eq: "dotted a = Some (show_nat (unat (a ! 0)) @ ''.'' @ show_nat (unat (a ! 1)) @ ''.'' @
      show_nat (unat (a ! 2)) @ ''.'' @ show_nat (unat (a ! 3)))"
    using assms by (simp add: dotted_def)
  have "length (show_nat (unat b)) \<le> 3" for b :: byte
  proof -
    have "unat b < 2 ^ LENGTH(8)" by (rule unsigned_less)
    then have "unat b < 10 ^ 3" by simp
    then show ?thesis by (intro show_nat_length) simp_all
  qed
  then have "length (show_nat (unat (a ! i))) \<le> 3" for i by blast
  from this [of 0] this [of 1] this [of 2] this [of 3] show "length (the (dotted a)) \<le> 15" by (simp add: eq)
qed

section \<open>Every message keeps the shape of the state\<close>

lemma push_at_length: "push_at n k xs v = Some (n', xs') \<Longrightarrow> length n' = length n \<and> length xs' = length xs"
  by (auto simp: push_at_def c_mem)

lemma push_prn_ok: "sateprn_ok p \<Longrightarrow> wlp (push_prn sys v p) sateprn_ok"
  unfolding push_prn_def
  by (intro wlp_intros) (auto simp: sateprn_ok_def dest: push_at_length)

lemma push_trace_ok: "tracetable_ok t \<Longrightarrow> wlp (push_trace sys v t) tracetable_ok"
  unfolding push_trace_def
  by (intro wlp_intros) (auto simp: tracetable_ok_def dest: push_at_length)

lemma sat_fold_ok:
  assumes "\<And>sys s p. P p \<Longrightarrow> wlp (push sys s p) P" and "P p"
  shows "wlp (sat_fold push keep sats i n p) P"
  using assms(2)
proof (induction n arbitrary: i p)
  case (Suc n)
  show ?case unfolding sat_fold.simps
  proof (rule wlp_bind, rule wlp_bind)
    fix s q assume "(if keep s then do { sys \<leftarrow> rd sys_table (unat (ss_sigtype s)); push sys s p } else Some p) = Some q"
    then have "P q" using Suc.prems assms(1) by (auto simp: c_mem wlp_def split: if_splits)
    then show "wlp (sat_fold push keep sats (Suc i) n q) P" by (rule Suc.IH)
  qed
qed (simp add: wlp_Some)

lemma prn_loop_ok: "sateprn_ok p \<Longrightarrow> wlp (prn_loop all sats i n p) sateprn_ok"
  unfolding prn_loop_fold by (intro sat_fold_ok push_prn_ok)

lemma trace_loop_ok: "tracetable_ok t \<Longrightarrow> wlp (trace_loop sats i n t) tracetable_ok"
  unfolding trace_loop_fold by (intro sat_fold_ok push_trace_ok)

lemma interface_loop_length: "interface_loop xs i n ys = Some ys' \<Longrightarrow> length ys' = length ys"
  by (induction xs i n ys rule: interface_loop.induct) (auto simp: c_mem)

lemma chansta_loop_length: "chansta_loop xs i n ys = Some ys' \<Longrightarrow> length ys' = length ys"
  by (induction xs i n ys rule: chansta_loop.induct) (auto simp: c_mem)

lemma rboard_ok: "guide_ok g \<Longrightarrow> wlp (rboard raw g) guide_ok"
  unfolding rboard_def statesend_def ipsend_def Let_def enginesend_def serclientsend_def
  by (intro wlp_intros) (auto simp: guide_ok_def net_ok_def c_mem dest!: str_write_length)

lemma rdirec_ok: "guide_ok g \<Longrightarrow> wlp (rdirec raw g) guide_ok"
  unfolding rdirec_def Let_def
  by (intro wlp_intros) (auto simp: guide_ok_def dest!: str_write_length)

lemma rinter_ok: "guide_ok g \<Longrightarrow> hcnraw_ok raw \<Longrightarrow> wlp (rinter raw g) guide_ok"
  unfolding rinter_def Let_def
  by (intro wlp_intros) (auto simp: guide_ok_def hcnraw_ok_def dest!: interface_loop_length)

lemma rchansta_ok: "guide_ok g \<Longrightarrow> wlp (rchansta raw g) guide_ok"
  unfolding rchansta_def Let_def
  by (intro wlp_intros) (auto simp: guide_ok_def dest!: chansta_loop_length)

lemma sat_sends_ok:
  assumes "guide_ok g"
  shows "wlp (getpossend m raw g) (\<lambda>(g', out). guide_ok g')" and "wlp (actionsend raw g) guide_ok"
    and "hcnraw_ok raw \<Longrightarrow> wlp (possend m raw g) guide_ok" and "wlp (tracesend raw g) guide_ok"
proof -
  have clear: "sateprn_ok p \<Longrightarrow> sateprn_ok (p\<lparr>sn_satnu := replicate 5 0\<rparr>)"
    "tracetable_ok t \<Longrightarrow> tracetable_ok (t\<lparr>tt_ecutoff := e, tt_satnu := replicate 5 0\<rparr>)" for p t e
    by (simp_all add: sateprn_ok_def tracetable_ok_def)
  have parts: "sateprn_ok (g_sateprn g)" "sateprn_ok (pt_sateprn (g_posstate g))" "tracetable_ok (g_tracetable g)"
    using assms by (simp_all add: guide_ok_def)
  show "wlp (getpossend m raw g) (\<lambda>(g', out). guide_ok g')"
    unfolding getpossend_def Let_def using assms by (intro wlp_intros) (auto simp: guide_ok_def)
  show "wlp (actionsend raw g) guide_ok"
    unfolding actionsend_def Let_def using assms
    by (intro wlp_intros) (auto simp: guide_ok_def dest: wlpD [OF prn_loop_ok [OF clear(1) [OF parts(1)]]])
  show "hcnraw_ok raw \<Longrightarrow> wlp (possend m raw g) guide_ok"
    unfolding possend_def Let_def using assms
    by (intro wlp_intros) (auto simp: guide_ok_def hcnraw_ok_def dest: wlpD [OF prn_loop_ok [OF clear(1) [OF parts(2)]]])
  show "wlp (tracesend raw g) guide_ok"
    unfolding tracesend_def Let_def using assms
    by (intro wlp_intros) (auto simp: guide_ok_def dest: wlpD [OF trace_loop_ok [OF clear(2) [OF parts(3)]]])
qed

lemma rsat_ok:
  assumes "guide_ok g" and "hcnraw_ok raw"
  shows "wlp (rsat m raw g) (\<lambda>(g', out). guide_ok g')"
proof (rule wlpI, clarify)
  fix g' out assume "rsat m raw g = Some (g', out)"
  then obtain g1 g2 g3 where s: "getpossend m raw g = Some (g1, out)" "actionsend raw g1 = Some g2"
    "possend m raw g2 = Some g3" "tracesend raw g3 = Some g'"
    by (auto simp: rsat_def c_mem)
  from wlpD [OF sat_sends_ok(1) s(1)] assms(1) have "guide_ok g1" by simp
  from wlpD [OF sat_sends_ok(2) s(2)] this have "guide_ok g2" .
  from wlpD [OF sat_sends_ok(3) s(3)] this assms(2) have "guide_ok g3" by simp
  from wlpD [OF sat_sends_ok(4) s(4)] this show "guide_ok g'" .
qed

lemma wlp_map_pair: "wlp f P \<Longrightarrow> wlp (map_option (\<lambda>g. (g, x)) f) (\<lambda>(g', out). P g')"
  by (auto simp: wlp_def)

lemma deal_message_ok:
  assumes "guide_ok g" and "hcnraw_ok raw"
  shows "wlp (deal_message m ty raw g) (\<lambda>(g', out). guide_ok g')"
  unfolding deal_message_def
  using assms by (intro wlp_if wlp_map_pair rboard_ok rdirec_ok rsat_ok rinter_ok rchansta_ok) (simp_all add: wlp_Some)

lemma deal_pro_ok:
  assumes "guide_ok g" and "deal_pro m now g fd = Some (g', out, fd')"
  shows "guide_ok g' \<and> (\<exists>used. concat fd = used @ concat fd' \<and> length used \<le> 8190)"
proof -
  from assms(2) obtain raw ty o1 res where i: "input_hcnoem4p now hcnraw_zero fd = Some (raw, ty, o1, res, fd')"
    by (auto simp: deal_pro_def c_mem split: if_splits)
  have "hcnraw_ok raw" "\<exists>used. concat fd = used @ concat fd' \<and> length used \<le> 8190"
    using wlpD [OF input_hcnoem4p_shape [OF hcnraw_zero_ok] i] by simp_all
  moreover have "guide_ok g'"
  proof (cases "res > 0")
    case True
    with assms(2) i obtain t o2 where "deal_message m t raw g = Some (g', o2)"
      by (auto simp: deal_pro_def c_mem)
    with wlpD [OF deal_message_ok [OF assms(1) \<open>hcnraw_ok raw\<close>] this] show ?thesis by simp
  next
    case False
    with assms i show ?thesis by (simp add: deal_pro_def)
  qed
  ultimately show ?thesis by blast
qed

lemma possend_spec:
  assumes "guide_ok g" and "hcnraw_ok raw" and "unat (sp_satnum (raw_satpro raw)) \<le> 75"
    and "ecef2pos m [sp_x (raw_satpro raw), sp_y (raw_satpro raw), sp_z (raw_satpro raw)] = Some e"
    and "time2gpst (raw_time raw) = Some wk"
  shows "case possend m raw g of
      None \<Rightarrow> \<not> room_for (\<lambda>k. 32) (filter (\<lambda>s. ss_satstatus s = 0) (sats_of raw))
    | Some g' \<Rightarrow> room_for (\<lambda>k. 32) (filter (\<lambda>s. ss_satstatus s = 0) (sats_of raw)) \<and> guide_ok g' \<and>
        (\<forall>k < 5. listed (pt_sateprn (g_posstate g')) k =
          map (\<lambda>s. ucast (ss_svid s)) (of_system k (filter (\<lambda>s. ss_satstatus s = 0) (sats_of raw)))) \<and>
        g' = g\<lparr>g_posstate := g_posstate g'\<rparr>"
proof -
  let ?n = "unat (sp_satnum (raw_satpro raw))" and ?sats = "sp_satprosat (raw_satpro raw)"
  let ?p = "(pt_sateprn (g_posstate g))\<lparr>sn_satnu := replicate 5 0\<rparr>"
  have inv: "prn_inv ?p" using assms(1) by (intro sateprn_ok_clear) (simp add: guide_ok_def)
  have n: "0 + ?n \<le> length ?sats" using assms(2,3) by (simp add: hcnraw_ok_def MAXSAT_def)
  from prns.fold_spec [OF inv n, of "\<lambda>s. False \<or> ss_satstatus s = 0"]
  show ?thesis
    using assms(1,2) unfolding prn_loop_fold [symmetric]
    by (cases wk)
      (auto simp: possend_def Let_def assms(4,5) sats_of_def room_for_def guide_ok_def prn_inv_def hcnraw_ok_def split: option.splits)
qed

lemma room_for_filter: "room_for cap sats \<Longrightarrow> room_for cap (filter P sats)"
proof -
  have "length (of_system k (filter P sats)) \<le> length (of_system k sats)" for k
  proof -
    have "of_system k (filter P sats) = filter P (of_system k sats)"
      by (simp add: of_system_def conj_commute)
    then show ?thesis by (simp only: length_filter_le)
  qed
  then show "room_for cap sats \<Longrightarrow> ?thesis" unfolding room_for_def by (auto intro: le_trans)
qed

lemma room_for_trace: "room_for (\<lambda>k. 32) sats \<Longrightarrow> room_for trace_cap sats"
proof -
  have "32 \<le> trace_cap k" for k by (simp add: trace_cap_def)
  then show "room_for (\<lambda>k. 32) sats \<Longrightarrow> ?thesis" unfolding room_for_def by (blast intro: le_trans)
qed


lemma ecef2pos_origin: "\<exists>e. ecef2pos m [0, 0, 0] = Some e"
proof -
  have z: "d_val 0 = Finite False 0 (- 1074)" by (simp add: d_val_def mag_val_def dfmt_def)
  have v: "d_val 0x3F1A36E2EB1C432D = Finite False 7378697629483821 (- 66)"
    by (simp add: d_val_def mag_val_def dfmt_def Let_def)
  have "\<not> d_le 0x3F1A36E2EB1C432D (d_abs (d_sub 0 0))"
  proof -
    have "d_abs (d_sub 0 0) = 0" by (simp add: zero_double d_sub_of_int) (simp add: d_of_int_0 d_zero_def d_abs_def)
    then show ?thesis by (simp add: d_le_def d_lt_def d_eq_def z v fp_cmp_def signed_int_def)
  qed
  then show ?thesis
    by (simp add: ecef2pos_def dot_def ecef_loop.simps numeral_2_eq_2 Let_def)
qed


text \<open>A satellite message with satellites, either way.\<close>

lemma rsat_lists:
  assumes "guide_ok g" and "hcnraw_ok raw" and "sp_satnum (raw_satpro raw) \<noteq> 0" and "unat (sp_satnum (raw_satpro raw)) \<le> 75"
    and "ecef2pos m [sp_x (raw_satpro raw), sp_y (raw_satpro raw), sp_z (raw_satpro raw)] = Some e"
    and "time2gpst (raw_time raw) = Some wk"
  shows "if room_for (\<lambda>k. 32) (sats_of raw)
    then \<exists>g'. rsat m raw g = Some (g', []) \<and> prn_inv (g_sateprn g') \<and>
      (\<forall>k < 5. listed (g_sateprn g') k = map (\<lambda>s. ucast (ss_svid s)) (of_system k (sats_of raw)) \<and>
        listed (pt_sateprn (g_posstate g')) k =
          map (\<lambda>s. ucast (ss_svid s)) (of_system k (filter (\<lambda>s. ss_satstatus s = 0) (sats_of raw))) \<and>
        traced (g_tracetable g') k = map trace_entry (of_system k (sats_of raw)))
    else rsat m raw g = None"
proof -
  have n: "unat (sp_satnum (raw_satpro raw)) \<le> length (sp_satprosat (raw_satpro raw))"
    using assms(2,4) by (simp add: hcnraw_ok_def MAXSAT_def)
  obtain g1 where g1: "getpossend m raw g = Some (g1, [])" "guide_ok g1"
    using assms(1,3,5) by (auto simp: getpossend_def Let_def guide_ok_def)
  note a = actionsend_spec [OF g1(2) n assms(3)]
  show ?thesis
  proof (cases "room_for (\<lambda>k. 32) (sats_of raw)")
    case False
    then have "actionsend raw g1 = None" using a by (simp split: option.splits)
    then show ?thesis using False g1(1) by (simp add: rsat_def)
  next
    case True
    obtain g2 where g2: "actionsend raw g1 = Some g2" "guide_ok g2" "prn_inv (g_sateprn g2)"
      "\<forall>k < 5. listed (g_sateprn g2) k = map (\<lambda>s. ucast (ss_svid s)) (of_system k (sats_of raw))"
      using a True by (auto split: option.splits)
    obtain g3 where g3: "possend m raw g2 = Some g3" "guide_ok g3" "g3 = g2\<lparr>g_posstate := g_posstate g3\<rparr>"
      "\<forall>k < 5. listed (pt_sateprn (g_posstate g3)) k =
        map (\<lambda>s. ucast (ss_svid s)) (of_system k (filter (\<lambda>s. ss_satstatus s = 0) (sats_of raw)))"
      using possend_spec [OF g2(2) assms(2,4,5,6)] room_for_filter [OF True] by (auto split: option.splits)
    obtain g4 where g4: "tracesend raw g3 = Some g4" "g4 = g3\<lparr>g_tracetable := g_tracetable g4\<rparr>"
      "\<forall>k < 5. traced (g_tracetable g4) k = map trace_entry (of_system k (sats_of raw))"
      using tracesend_spec [OF g3(2) n assms(3)] room_for_trace [OF True] by (auto split: option.splits)
    have "g_sateprn g4 = g_sateprn g2" "g_posstate g4 = g_posstate g3"
      using arg_cong [OF g3(3), of g_sateprn] arg_cong [OF g4(2), of g_sateprn] arg_cong [OF g4(2), of g_posstate] by simp_all
    moreover have "rsat m raw g = Some (g4, [])" by (simp add: rsat_def g1 g2 g3(1) g4(1))
    ultimately show ?thesis using True g2(3,4) g3(4) g4(3) by simp
  qed
qed

section \<open>Properties\<close>

text \<open>C18. Refinement: a satellite message with satellites is copied exactly when every signal type is known and no system has
  more than 32 satellites, and then the three tables that the web pages show are the abstract ones: per
  system the satellites of the message in order, in the position table those with status 0 only.\<close>

theorem satellite_message_lists:
  assumes "guide_ok g" and "hcnraw_ok raw" and "sp_satnum (raw_satpro raw) \<noteq> 0" and "unat (sp_satnum (raw_satpro raw)) \<le> 75"
    and "ecef2pos m [sp_x (raw_satpro raw), sp_y (raw_satpro raw), sp_z (raw_satpro raw)] = Some e"
    and "time2gpst (raw_time raw) = Some wk"
  shows "case rsat m raw g of
      None \<Rightarrow> \<not> room_for (\<lambda>k. 32) (sats_of raw)
    | Some (g', out) \<Rightarrow> room_for (\<lambda>k. 32) (sats_of raw) \<and> out = [] \<and>
        (\<forall>k < 5. listed (g_sateprn g') k = map (\<lambda>s. ucast (ss_svid s)) (of_system k (sats_of raw)) \<and>
          listed (pt_sateprn (g_posstate g')) k =
            map (\<lambda>s. ucast (ss_svid s)) (of_system k (filter (\<lambda>s. ss_satstatus s = 0) (sats_of raw))) \<and>
          traced (g_tracetable g') k = map trace_entry (of_system k (sats_of raw)))"
  using rsat_lists [OF assms] by (auto split: if_splits)

text \<open>One GPS satellite (signal type 0) and one of GLONASS that is not usable.\<close>

definition two_sats :: hcnraw_t where
  "two_sats = hcnraw_zero\<lparr>raw_time := gtime 400000000 0, raw_satpro := satpro_zero\<lparr>sp_satnum := 2,
     sp_satprosat := satprosat_zero\<lparr>ss_svid := 7\<rparr> # satprosat_zero\<lparr>ss_svid := 40, ss_sigtype := 1, ss_satstatus := 3\<rparr> #
       replicate 73 satprosat_zero\<rparr>\<rparr>"

definition plain_libm :: libm where
  "plain_libm = \<lparr>m_sqrt = (\<lambda>x. x), m_atan = (\<lambda>x. x), m_atan2 = (\<lambda>y x. y)\<rparr>"

lemma two_sats:
  "hcnraw_ok two_sats" "sp_satnum (raw_satpro two_sats) = 2" "raw_time two_sats = gtime 400000000 0"
  "sp_x (raw_satpro two_sats) = 0" "sp_y (raw_satpro two_sats) = 0" "sp_z (raw_satpro two_sats) = 0"
  "sats_of two_sats = [satprosat_zero\<lparr>ss_svid := 7\<rparr>, satprosat_zero\<lparr>ss_svid := 40, ss_sigtype := 1, ss_satstatus := 3\<rparr>]"
  using hcnraw_zero_ok
  by (simp_all add: two_sats_def hcnraw_ok_def satpro_zero_def sats_of_def MAXSAT_def)

theorem satellite_message_lists_witness:
  "\<exists>g. rsat plain_libm two_sats guide_zero = Some (g, []) \<and> listed (g_sateprn g) 0 = [7] \<and> listed (g_sateprn g) 1 = [40] \<and>
    listed (pt_sateprn (g_posstate g)) 0 = [7] \<and> listed (pt_sateprn (g_posstate g)) 1 = []"
proof -
  obtain e where e: "ecef2pos plain_libm [0, 0, 0] = Some e" using ecef2pos_origin by blast
  have wk: "time2gpst (gtime 400000000 0) = Some (d_add (d_of_int (400000000 - 315964800 - 138 * 604800)) 0, 138)"
    by (simp add: time2gpst_def gpst0_time gtime_def Let_def)
  have sys: "of_system 0 (sats_of two_sats) = [satprosat_zero\<lparr>ss_svid := 7\<rparr>]"
    "of_system 1 (sats_of two_sats) = [satprosat_zero\<lparr>ss_svid := 40, ss_sigtype := 1, ss_satstatus := 3\<rparr>]"
    "of_system 0 (filter (\<lambda>s. ss_satstatus s = 0) (sats_of two_sats)) = [satprosat_zero\<lparr>ss_svid := 7\<rparr>]"
    "of_system 1 (filter (\<lambda>s. ss_satstatus s = 0) (sats_of two_sats)) = []"
    by (simp_all add: two_sats(7) of_system_def satprosat_zero_def systems_def sys_table_def sys_values)
  have "room_for (\<lambda>k. 32) (sats_of two_sats)"
    by (auto simp: room_for_def two_sats(7) of_system_def satprosat_zero_def)
  then show ?thesis
    using satellite_message_lists [OF guide_zero_ok two_sats(1), of plain_libm e, unfolded two_sats(2-6), OF _ _ e wk] sys
    by (auto simp: all_less_5 satprosat_zero_def split: option.splits)
qed



text \<open>C21. A message that was corrupted on the way (four consecutive bytes changed behind the length field) changes nothing in the
  shared state: it is logged, and the next message is read from behind it.\<close>

theorem deal_pro_corrupted:
  assumes "junk xs" and "framed (pre @ w @ post) n" and "crc_ok (pre @ w @ post) (int n)"
    and "10 \<le> length pre" and "length w = 4" and "length w' = 4" and "w \<noteq> w'"
  shows "deal_pro m now g ((xs @ (pre @ w' @ post) @ rest) # cs) =
    Some (g, [Logged crc_error], if rest = [] then cs else rest # cs)"
  using input_corrupted [OF assms, of now rest cs] by (auto simp: deal_pro_def)

theorem deal_pro_corrupted_witness:
  "deal_pro plain_libm [] guide_zero [[0, 0xAA, 0x44] @ (take 10 small_frame @ [1, 0, 0, 0] @ replicate 18 0)] =
    Some (guide_zero, [Logged crc_error], [])"
proof -
  have "small_frame = take 10 small_frame @ [0, 0, 0, 0] @ replicate 18 0"
    by (simp add: small_frame_def numeral_eq_Suc)
  then show ?thesis
    using deal_pro_corrupted [of "[0, 0xAA, 0x44]" "take 10 small_frame" "[0, 0, 0, 0]" "replicate 18 0" 28
      "[1, 0, 0, 0]" plain_libm "[]" guide_zero "[]" "[]"] small_frame(1,2) junk_example
    by (simp add: small_frame_def)
qed

section \<open>A board message from the pipe to the shared state\<close>

lemma cstr_at_str_write: "nul_free s \<Longrightarrow> str_write b 0 s = Some b' \<Longrightarrow> cstr_at b' 0 = Some s"
  using cstr_at_append [of s "[]"] by (auto simp: str_write_def mem_write_Some_iff)

lemma str_write_defined: "length s < length b \<Longrightarrow> \<exists>b'. str_write b 0 s = Some b'"
  by (simp add: str_write_fits)

lemma dotted_text:
  assumes "length a = 4"
  shows "\<exists>s. dotted a = Some s \<and> nul_free s \<and> length s \<le> 15"
proof -
  have "length (show_nat (unat (x :: byte))) \<le> 3" for x
    using unat_lt_256 [of x] by (intro show_nat_length) simp_all
  from this [of "a ! 0"] this [of "a ! 1"] this [of "a ! 2"] this [of "a ! 3"] assms
  show ?thesis by (simp add: dotted_def)
qed

lemma utc_text_nul_free: "utc_text t = Some s \<Longrightarrow> nul_free s"
proof -
  have "nul_free (map (fmt_fixed 0) (time2epoch u) ! i)" if "i < 6" for u i
  proof -
    have "length (time2epoch u) = 6" by (simp add: time2epoch_def Let_def split_def)
    then show ?thesis using that by simp
  qed
  then show "utc_text t = Some s \<Longrightarrow> nul_free s" by (auto simp: utc_text_def Let_def c_mem)
qed

lemma ipsend_spec:
  assumes "guide_ok g" and "hcnraw_ok raw"
  shows "\<exists>n. ipsend raw g = Some (g\<lparr>g_net := n\<rparr>) \<and> net_ok n \<and>
    cstr_at (nt_ip n) 0 = map_option (\<lambda>s. s @ ''.'' @ show_nat (unat (b_port (raw_board raw)))) (dotted (b_ip (raw_board raw))) \<and>
    cstr_at (nt_gateway n) 0 = dotted (b_gateway (raw_board raw)) \<and> cstr_at (nt_netmask n) 0 = dotted (b_netmask (raw_board raw)) \<and>
    cstr_at (nt_dns n) 0 = dotted (b_dns (raw_board raw)) \<and> cstr_at (nt_serverip n) 0 = dotted (b_serverip (raw_board raw))"
proof -
  let ?b = "raw_board raw" and ?n = "g_net g"
  have len: "length (nt_ip ?n) = 50" "length (nt_gateway ?n) = 50" "length (nt_netmask ?n) = 50" "length (nt_dns ?n) = 50"
    "length (nt_serverip ?n) = 50" using assms(1) by (simp_all add: guide_ok_def net_ok_def MAXIP_def)
  have four: "length (b_ip ?b) = 4" "length (b_gateway ?b) = 4" "length (b_netmask ?b) = 4" "length (b_dns ?b) = 4"
    "length (b_serverip ?b) = 4" using assms(2) by (simp_all add: hcnraw_ok_def)
  let ?port = "''.'' @ show_nat (unat (b_port ?b))"
  have "length (show_nat (unat (b_port ?b))) \<le> 5" using unat_lt_65536 [of "b_port ?b"] by (intro show_nat_length) simp_all
  then have port: "length ?port \<le> 6" "nul_free ?port" by simp_all
  obtain ip gw nm dn sv where texts: "dotted (b_ip ?b) = Some ip" "dotted (b_gateway ?b) = Some gw"
    "dotted (b_netmask ?b) = Some nm" "dotted (b_dns ?b) = Some dn" "dotted (b_serverip ?b) = Some sv"
    and free: "nul_free ip" "nul_free gw" "nul_free nm" "nul_free dn" "nul_free sv"
    and short: "length ip \<le> 15" "length gw \<le> 15" "length nm \<le> 15" "length dn \<le> 15" "length sv \<le> 15"
    using four [THEN dotted_text] by blast
  have "length (ip @ ?port) < 50" using port(1) short(1) by simp
  then obtain ip' where w1: "str_write (nt_ip ?n) 0 (ip @ ?port) = Some ip'" using len str_write_defined by metis
  obtain gw' where w2: "str_write (nt_gateway ?n) 0 gw = Some gw'" using len short str_write_defined [of gw "nt_gateway ?n"] by auto
  obtain nm' where w3: "str_write (nt_netmask ?n) 0 nm = Some nm'" using len short str_write_defined [of nm "nt_netmask ?n"] by auto
  obtain dn' where w4: "str_write (nt_dns ?n) 0 dn = Some dn'" using len short str_write_defined [of dn "nt_dns ?n"] by auto
  obtain sv' where w5: "str_write (nt_serverip ?n) 0 sv = Some sv'" using len short str_write_defined [of sv "nt_serverip ?n"] by auto
  note ws = w1 w2 w3 w4 w5
  have "ipsend raw g = Some (g\<lparr>g_net := \<lparr>nt_ip = ip', nt_gateway = gw', nt_netmask = nm', nt_dns = dn', nt_serverip = sv'\<rparr>\<rparr>)"
    unfolding ipsend_def Let_def texts bind.bind_lunit ws by (rule refl)
  moreover have "cstr_at ip' 0 = Some (ip @ ?port)" using free(1) port(2) by (intro cstr_at_str_write [OF _ w1]) simp
  moreover note cstr_at_str_write [OF free(2) w2] cstr_at_str_write [OF free(3) w3] cstr_at_str_write [OF free(4) w4]
    cstr_at_str_write [OF free(5) w5]
  moreover have "length ip' = 50" "length gw' = 50" "length nm' = 50" "length dn' = 50" "length sv' = 50"
    using ws [THEN str_write_length] len by simp_all
  ultimately show ?thesis using texts
    by (intro exI [of _ "\<lparr>nt_ip = ip', nt_gateway = gw', nt_netmask = nm', nt_dns = dn', nt_serverip = sv'\<rparr>"])
      (simp add: net_ok_def MAXIP_def)
qed

definition board_state :: "board_t \<Rightarrow> cbuf \<Rightarrow> state_t" where
  "board_state b utctime = \<lparr>st_utctime = utctime,
     st_antn = \<lparr>an_mainantnworksta = b_mainantnworksta b, an_mainantnrfsta = b_mainantnrfsta b,
       an_aantnworksta = b_aantnworksta b, an_aantnrfsta = b_aantnrfsta b\<rparr>,
     st_cpu = \<lparr>cpu_acpuload = b_acpuload b, cpu_dcpuload = b_dcpuload b, cpu_astatus = b_astatus b,
       cpu_dstatus = b_dstatus b, cpu_fstatus = b_fstatus b\<rparr>\<rparr>"

lemma statesend_spec:
  assumes "guide_ok g" and "gpst2utc (raw_time raw) = Some u" and "0 \<le> gt_time u" and "gt_time u < 2 ^ 31"
  shows "\<exists>b. statesend raw g = Some (g\<lparr>g_state := board_state (raw_board raw) b\<rparr>) \<and>
    guide_ok (g\<lparr>g_state := board_state (raw_board raw) b\<rparr>) \<and> cstr_at b 0 = utc_text (raw_time raw)"
proof -
  obtain t where t: "utc_text (raw_time raw) = Some t" "length t < 1024" using utc_text_defined [OF assms(2-4)] by blast
  have len: "length (st_utctime (g_state g)) = 1024" using assms(1) by (simp add: guide_ok_def MAXTIMELEN_def)
  then obtain b where b: "str_write (st_utctime (g_state g)) 0 t = Some b" using t(2) str_write_defined [of t "st_utctime (g_state g)"] by auto
  have "cstr_at b 0 = Some t" using utc_text_nul_free [OF t(1)] b by (rule cstr_at_str_write)
  moreover have "statesend raw g = Some (g\<lparr>g_state := board_state (raw_board raw) b\<rparr>)"
    by (simp add: statesend_def t(1) b Let_def board_state_def)
  moreover have "guide_ok (g\<lparr>g_state := board_state (raw_board raw) b\<rparr>)"
    using assms(1) str_write_length [OF b] by (simp add: guide_ok_def board_state_def)
  ultimately show ?thesis using t(1) by auto
qed

text \<open>What the board decoder reads of a received frame.\<close>

definition frame_board :: "byte list \<Rightarrow> board_t" where
  "frame_board fr = \<lparr>b_acpuload = fr ! 28, b_dcpuload = fr ! 29, b_astatus = fr ! 30, b_dstatus = fr ! 31,
     b_fstatus = fr ! 32, b_workstatus = fr ! 33, b_mainantnworksta = fr ! 34, b_mainantnrfsta = fr ! 35,
     b_aantnworksta = fr ! 36, b_aantnrfsta = fr ! 37, b_flaread = fr ! 38, b_flawrite = fr ! 39,
     b_ip = take 4 (drop 48 fr), b_netmask = take 4 (drop 52 fr), b_gateway = take 4 (drop 56 fr),
     b_dns = take 4 (drop 60 fr), b_socktype = fr ! 64, b_port = of_nat (le_nat (take 2 (drop 65 fr))),
     b_serverip = take 4 (drop 67 fr)\<rparr>"

lemma decode_board_received:
  assumes "framed fr n" and "71 \<le> n"
  shows "decode_hcnboard ((received fr n)\<lparr>raw_time := t\<rparr>) =
    Some ((received fr n)\<lparr>raw_time := t, raw_board := frame_board fr\<rparr>, [], 12)"
proof -
  have len: "length fr = n + 4" "n \<le> 4092" using assms(1) by (simp_all add: framed_def)
  let ?p = "fr @ replicate (4096 - length fr) 0"
  have "length ?p = 4096" using len by simp
  moreover have "?p ! i = fr ! i" if "i < 75" for i using that len assms(2) by (simp add: nth_append)
  moreover have "take k (drop i ?p) = take k (drop i fr)" if "i + k < 75" for i k using that len assms(2) by simp
  ultimately show ?thesis using assms(2)
    by (simp add: decode_hcnboard_def Let_def frame_board_def)
qed


lemma board_delivered:
  assumes "junk xs" and "framed fr n" and "71 \<le> n" and "crc_ok fr (int n)" and "frame_format fr = 0"
    and "unat (frame_type fr) = ID_HCNBOARD" and "frame_time now fr = Some t"
    and "gpst2utc t = Some u" and "0 \<le> gt_time u" and "gt_time u < 2 ^ 31" and "guide_ok g"
  shows "\<exists>b n. deal_pro m now g ((xs @ fr @ rest) # cs) =
      Some (g\<lparr>g_state := board_state (frame_board fr) b, g_entype := fr ! 33, g_net := n, g_serclient := fr ! 64\<rparr>, [],
        if rest = [] then cs else rest # cs)
    \<and> cstr_at b 0 = utc_text t
    \<and> cstr_at (nt_ip n) 0 = map_option (\<lambda>a. a @ ''.'' @ show_nat (le_nat (take 2 (drop 65 fr)))) (dotted (take 4 (drop 48 fr)))
    \<and> cstr_at (nt_netmask n) 0 = dotted (take 4 (drop 52 fr)) \<and> cstr_at (nt_gateway n) 0 = dotted (take 4 (drop 56 fr))
    \<and> cstr_at (nt_dns n) 0 = dotted (take 4 (drop 60 fr)) \<and> cstr_at (nt_serverip n) 0 = dotted (take 4 (drop 67 fr))"
proof -
  let ?raw = "(received fr n)\<lparr>raw_time := t, raw_board := frame_board fr\<rparr>"
  have len: "length fr = n + 4" using assms(2) by (simp add: framed_def)
  have input: "input_hcnoem4p now hcnraw_zero ((xs @ fr @ rest) # cs) =
      Some (?raw, Some (int ID_HCNBOARD), [], 12, if rest = [] then cs else rest # cs)"
    using input_decodes [OF assms(1,2,4,5), of now rest cs] decode_board_received [OF assms(2,3), of t]
    by (simp add: assms(6,7) decode_message_def flip: assms(6))
  have raw: "hcnraw_ok ?raw" "raw_board ?raw = frame_board fr" "raw_time ?raw = t"
    using received_ok [OF assms(2)] len assms(3) by (simp_all add: hcnraw_ok_def frame_board_def)
  from statesend_spec [OF assms(11), of ?raw u] assms(8-10) raw obtain b where s:
    "statesend ?raw g = Some (g\<lparr>g_state := board_state (frame_board fr) b\<rparr>)"
    "guide_ok (g\<lparr>g_state := board_state (frame_board fr) b\<rparr>)" "cstr_at b 0 = utc_text t"
    by auto
  let ?g = "enginesend ?raw (g\<lparr>g_state := board_state (frame_board fr) b\<rparr>)"
  have "guide_ok ?g" using s(2) by (simp add: enginesend_def guide_ok_def)
  from ipsend_spec [OF this raw(1)] obtain n where n: "ipsend ?raw ?g = Some (?g\<lparr>g_net := n\<rparr>)"
    "cstr_at (nt_ip n) 0 = map_option (\<lambda>s. s @ ''.'' @ show_nat (unat (b_port (frame_board fr)))) (dotted (b_ip (frame_board fr)))"
    "cstr_at (nt_gateway n) 0 = dotted (b_gateway (frame_board fr))" "cstr_at (nt_netmask n) 0 = dotted (b_netmask (frame_board fr))"
    "cstr_at (nt_dns n) 0 = dotted (b_dns (frame_board fr))" "cstr_at (nt_serverip n) 0 = dotted (b_serverip (frame_board fr))"
    unfolding raw(2) by blast
  have port: "unat (b_port (frame_board fr)) = le_nat (take 2 (drop 65 fr))"
  proof -
    have "le_nat (take 2 (drop 65 fr)) < 256 ^ length (take 2 (drop 65 fr))" by (rule le_nat_less)
    also have "length (take 2 (drop 65 fr)) = 2" using len assms(3) by simp
    finally show ?thesis by (simp add: frame_board_def unat_of_nat take_bit_nat_eq_self)
  qed
  have board: "rboard ?raw g = Some (g\<lparr>g_state := board_state (frame_board fr) b, g_entype := fr ! 33, g_net := n, g_serclient := fr ! 64\<rparr>)"
    unfolding rboard_def s(1) bind.bind_lunit Let_def n(1)
    by (simp add: enginesend_def serclientsend_def frame_board_def)
  have "deal_pro m now g ((xs @ fr @ rest) # cs) =
      Some (g\<lparr>g_state := board_state (frame_board fr) b, g_entype := fr ! 33, g_net := n, g_serclient := fr ! 64\<rparr>, [], if rest = [] then cs else rest # cs)"
    unfolding deal_pro_def input by (simp add: deal_message_def board)
  with s(3) n(2-) show ?thesis unfolding port
    by (intro exI [of _ b] exI [of _ n]) (simp add: frame_board_def)
qed

text \<open>C19. A board message end to end: from a pipe that holds any junk and a valid board frame, \<open>deal_pro\<close> always returns, and the
  shared state then shows the addresses, the engine state, the client mode, the load and the UTC time of that frame
  and is otherwise unchanged.\<close>

theorem deal_pro_board:
  assumes "junk xs" and "framed fr n" and "71 \<le> n" and "crc_ok fr (int n)" and "frame_format fr = 0"
    and "unat (frame_type fr) = ID_HCNBOARD" and "frame_time now fr = Some t"
    and "gpst2utc t = Some u" and "0 \<le> gt_time u" and "gt_time u < 2 ^ 31" and "guide_ok g"
  shows "\<exists>s n. deal_pro m now g ((xs @ fr @ rest) # cs) =
      Some (g\<lparr>g_state := s, g_entype := fr ! 33, g_net := n, g_serclient := fr ! 64\<rparr>, [], if rest = [] then cs else rest # cs)
    \<and> cstr_at (st_utctime s) 0 = utc_text t \<and> cpu_acpuload (st_cpu s) = fr ! 28
    \<and> cstr_at (nt_ip n) 0 = map_option (\<lambda>a. a @ ''.'' @ show_nat (le_nat (take 2 (drop 65 fr)))) (dotted (take 4 (drop 48 fr)))
    \<and> cstr_at (nt_netmask n) 0 = dotted (take 4 (drop 52 fr)) \<and> cstr_at (nt_gateway n) 0 = dotted (take 4 (drop 56 fr))
    \<and> cstr_at (nt_dns n) 0 = dotted (take 4 (drop 60 fr)) \<and> cstr_at (nt_serverip n) 0 = dotted (take 4 (drop 67 fr))"
proof -
  obtain b n where "deal_pro m now g ((xs @ fr @ rest) # cs) =
      Some (g\<lparr>g_state := board_state (frame_board fr) b, g_entype := fr ! 33, g_net := n, g_serclient := fr ! 64\<rparr>, [],
        if rest = [] then cs else rest # cs)"
    and "cstr_at b 0 = utc_text t"
    and "cstr_at (nt_ip n) 0 = map_option (\<lambda>a. a @ ''.'' @ show_nat (le_nat (take 2 (drop 65 fr)))) (dotted (take 4 (drop 48 fr)))"
    and "cstr_at (nt_netmask n) 0 = dotted (take 4 (drop 52 fr))" and "cstr_at (nt_gateway n) 0 = dotted (take 4 (drop 56 fr))"
    and "cstr_at (nt_dns n) 0 = dotted (take 4 (drop 60 fr))" and "cstr_at (nt_serverip n) 0 = dotted (take 4 (drop 67 fr))"
    using board_delivered [OF assms, of m rest cs] by (elim exE conjE) (rule that)
  then show ?thesis
    by (intro exI [of _ "board_state (frame_board fr) b"] exI [of _ n]) (simp add: board_state_def frame_board_def)
qed

text \<open>A board frame of week 1877 with address 192.168.1.2; unused bytes are chosen so that its checksum is 0.\<close>

definition board_frame :: "byte list" where
  "board_frame = [170, 68, 18, 28, 2, 125, 0, 0, 43, 0, 227, 112, 30, 153, 85, 7, 0, 0, 0, 0, 84, 69, 99, 238] @ replicate 9 0 @ [1, 150, 48, 7, 119] @ replicate 10 0 @ [192, 168, 1, 2, 179, 178, 51, 86] @ replicate 19 0"

lemma board_frame_crc: "crc_bytes 0 board_frame = 0"
proof -
  have unroll: "crc_byte c b = crc_bit (crc_bit (crc_bit (crc_bit (crc_bit (crc_bit (crc_bit (crc_bit (c XOR ucast b))))))))" for c b
    by (simp add: crc_byte_def numeral_eq_Suc)
  have steps: "crc_byte 0x0 170 = 0x36034af6" "crc_byte 0x36034af6 68 = 0x2559d1ea" "crc_byte 0x2559d1ea 18 = 0xb34323ff" "crc_byte 0xb34323ff 28 = 0x39b0f0e1"
    "crc_byte 0x39b0f0e1 2 = 0x393a0332" "crc_byte 0x393a0332 125 = 0xe65a6602" "crc_byte 0xe65a6602 0 = 0xeee83b4a" "crc_byte 0xeee83b4a 0 = 0x96e740b5"
    "crc_byte 0x96e740b5 43 = 0x17215903" "crc_byte 0x17215903 0 = 0x991e70e3" "crc_byte 0x991e70e3 227 = 0x991e70" "crc_byte 0x991e70 112 = 0x991e"
    "crc_byte 0x991e 30 = 0x99" "crc_byte 0x99 153 = 0x0" "crc_byte 0x0 85 = 0x1b01a57b" "crc_byte 0x1b01a57b 7 = 0x59a83cb2"
    "crc_byte 0x59a83cb2 0 = 0x25367a9c" "crc_byte 0x25367a9c 0 = 0xf99ce915" "crc_byte 0xf99ce915 0 = 0x6d247802" "crc_byte 0x6d247802 0 = 0xee634554"
    "crc_byte 0xee634554 84 = 0xee6345" "crc_byte 0xee6345 69 = 0xee63" "crc_byte 0xee63 99 = 0xee" "crc_byte 0xee 238 = 0x0"
    "crc_byte 0x0 1 = 0x77073096" "crc_byte 0x77073096 150 = 0x770730" "crc_byte 0x770730 48 = 0x7707" "crc_byte 0x7707 7 = 0x77"
    "crc_byte 0x77 119 = 0x0" "crc_byte 0x0 192 = 0x9b64c2b0" "crc_byte 0x9b64c2b0 168 = 0x13f7fc94" "crc_byte 0x13f7fc94 1 = 0x80769037"
    "crc_byte 0x80769037 2 = 0x5633b2b3" "crc_byte 0x5633b2b3 179 = 0x5633b2" "crc_byte 0x5633b2 178 = 0x5633" "crc_byte 0x5633 51 = 0x56"
    "crc_byte 0x56 86 = 0x0"
    by (simp_all add: unroll crc_bit_def POLYCRC32_def)
  have zeros: "crc_bytes 0 (replicate k 0) = 0" for k by (induction k) (simp_all add: crc_byte_def)
  show ?thesis unfolding board_frame_def foldl_append zeros
    by (simp add: steps zeros)
qed

lemma board_frame:
  "framed board_frame 71" "crc_ok board_frame 71" "frame_format board_frame = 0" "unat (frame_type board_frame) = ID_HCNBOARD"
proof -
  show "framed board_frame 71"
    by (simp add: framed_def board_frame_def OEM4SYNC1_def OEM4SYNC2_def OEM4SYNC3_def)
  have "length board_frame = 75" by (simp add: board_frame_def)
  then show "crc_ok board_frame 71" using frame_ok_iff [of 71 board_frame] board_frame_crc by (simp add: crc_ok_def)
  show "frame_format board_frame = 0" "unat (frame_type board_frame) = ID_HCNBOARD"
    by (simp_all add: board_frame_def frame_format_def frame_type_def ID_HCNBOARD_def)
qed

definition year_2016 :: "double list" where
  "year_2016 = map d_of_int [2016, 1, 1, 0, 0, 0]"

lemma board_frame_time: "frame_time year_2016 board_frame = Some (gtime 1451174400 0)"
proof -
  have now: "epoch2time year_2016 = Some (gtime 1451606400 0)"
    unfolding year_2016_def using epoch2time_int [of 2016 1 1 0 0 0] by (simp add: day_number_def doy_def)
  have get: "timeget year_2016 = Some (gtime 1451606400 0)"
    using timeadd_int [of 1451606400 0] by (simp add: timeget_def now timeoffset_0_def zero_double)
  have gps: "utc2gpst (gtime 1451606400 0) = Some (gtime 1451606416 0)"
    using utc2gpst_loop_int [OF leaps_row_times _ _ leap_times_rows(2), of 1451606400]
    by (simp add: utc2gpst_def leap_times_def)
  have wk: "time2gpst (gtime 1451606416 0) = Some (d_add (d_of_int 432016) 0, 1877)"
    by (simp add: time2gpst_def gpst0_time gtime_def)
  have week: "adjgpsweek year_2016 1877 = Some 1877"
    by (simp add: adjgpsweek_def get gps wk)
  have z: "d_val 0 = Finite False 0 (- 1074)" by (simp add: d_val_def mag_val_def dfmt_def)
  have "d_mul (d_of_int 0) 0x3F50624DD2F1A9FC = d_of_int 0"
    by (simp add: d_of_int_0 d_zero_def d_mul_def z d_val_def mag_val_def dfmt_def Let_def d_round_def round_mag_def scale_n_def)
  moreover have "gpst2time 1877 (d_of_int 0) = Some (gtime 1451174400 0)"
    unfolding gpst2time_def gpst0_time
    by (simp add: d_cmp_of_int d_to_int_of_int d_sub_of_int Let_def gtime_def zero_double)
  ultimately show ?thesis
    by (simp add: frame_time_def board_frame_def week)
qed

theorem deal_pro_board_witness:
  "\<exists>g. deal_pro plain_libm year_2016 guide_zero [[0, 0xAA, 0x44] @ board_frame] = Some (g, [], [])
    \<and> cstr_at (nt_ip (g_net g)) 0 = Some ''192.168.1.2.0'' \<and> g_entype g = 1"
proof -
  have utc: "gpst2utc (gtime 1451174400 0) = Some (gtime 1451174384 0)"
    using gpst2utc_loop_int [OF leaps_row_times _ _ leap_times_rows(2), of 1451174400]
    by (simp add: gpst2utc_def leap_times_def)
  have bytes: "take 4 (drop 48 board_frame) = [192, 168, 1, 2]" "take 2 (drop 65 board_frame) = [0, 0]" "board_frame ! 33 = 1"
    by (simp_all add: board_frame_def numeral_2_eq_2 nth_append)
  have shown: "dotted [192, 168, 1, 2] = Some ''192.168.1.2''" "show_nat 0 = ''0''"
    by code_simp+
  show ?thesis
    using deal_pro_board [OF junk_example board_frame(1) _ _ board_frame(3,4) board_frame_time utc _ _ guide_zero_ok,
      of plain_libm "[]" "[]"] board_frame(2)
    by (auto simp: bytes shown gtime_def)
qed

end
