(* ===== verification/Json_Value.thy ===== *)
theory Json_Value
  imports C_Lib
begin

text \<open>
  JSON values, objects and arrays of \<^verbatim>\<open>src/parson.c\<close>, the library compiled into the
  program. A \<open>JSON_Value\<close> owns everything below it and no two values share a part, so a value is a
  tree and the in-place updates of the C code are functional updates of the object or array at
  hand. A possibly null \<open>JSON_Value *\<close> is a \<open>json option\<close>. Objects and arrays keep their
  capacity, because the growth rule decides when an insertion fails. Allocation is taken to succeed:
  the branches on a null result of \<open>parson_malloc\<close> are not modelled, and \<open>free\<close> has no counterpart.
\<close>

datatype json =
    JNull
  | JString string
  | JNumber double
  | JObject "(string \<times> json) list" nat    \<comment> \<open>names with values in order, capacity\<close>
  | JArray "json list" nat                    \<comment> \<open>items, capacity\<close>
  | JBoolean bool

datatype json_type = JSONError | JSONNull | JSONString | JSONNumber | JSONObject | JSONArray | JSONBoolean

datatype json_status = JSONSuccess | JSONFailure

type_synonym json_object = "(string \<times> json) list \<times> nat"
type_synonym json_array = "json list \<times> nat"

definition STARTING_CAPACITY :: nat where "STARTING_CAPACITY = 15"
definition ARRAY_MAX_CAPACITY :: nat where "ARRAY_MAX_CAPACITY = 122880"
definition OBJECT_MAX_CAPACITY :: nat where "OBJECT_MAX_CAPACITY = 960"

section \<open>Value API\<close>

fun json_value_get_type :: "json option \<Rightarrow> json_type" where
  "json_value_get_type None = JSONError"
| "json_value_get_type (Some JNull) = JSONNull"
| "json_value_get_type (Some (JString _)) = JSONString"
| "json_value_get_type (Some (JNumber _)) = JSONNumber"
| "json_value_get_type (Some (JObject _ _)) = JSONObject"
| "json_value_get_type (Some (JArray _ _)) = JSONArray"
| "json_value_get_type (Some (JBoolean _)) = JSONBoolean"

definition json_value_get_object :: "json option \<Rightarrow> json_object option" where
  "json_value_get_object v = (case v of Some (JObject kvs cap) \<Rightarrow> Some (kvs, cap) | _ \<Rightarrow> None)"

definition json_value_get_array :: "json option \<Rightarrow> json_array option" where
  "json_value_get_array v = (case v of Some (JArray xs cap) \<Rightarrow> Some (xs, cap) | _ \<Rightarrow> None)"

definition json_value_get_string :: "json option \<Rightarrow> string option" where
  "json_value_get_string v = (case v of Some (JString s) \<Rightarrow> Some s | _ \<Rightarrow> None)"

definition json_value_get_number :: "json option \<Rightarrow> double" where
  "json_value_get_number v = (case v of Some (JNumber d) \<Rightarrow> d | _ \<Rightarrow> 0)"

definition json_value_get_boolean :: "json option \<Rightarrow> int" where
  "json_value_get_boolean v = (case v of Some (JBoolean b) \<Rightarrow> (if b then 1 else 0) | _ \<Rightarrow> - 1)"

text \<open>The objects and arrays inside a value, put back after an update.\<close>

definition of_object :: "json_object \<Rightarrow> json" where "of_object ob = JObject (fst ob) (snd ob)"
definition of_array :: "json_array \<Rightarrow> json" where "of_array a = JArray (fst a) (snd a)"

definition json_value_init_object :: json where "json_value_init_object = JObject [] 0"
definition json_value_init_array :: json where "json_value_init_array = JArray [] 0"
definition json_value_init_number :: "double \<Rightarrow> json" where "json_value_init_number d = JNumber d"
definition json_value_init_null :: json where "json_value_init_null = JNull"
definition json_value_init_boolean :: "int \<Rightarrow> json" where
  "json_value_init_boolean i = JBoolean (i \<noteq> 0)"

section \<open>UTF-8 validity, checked when a string value is made\<close>

definition IS_CONT :: "nat \<Rightarrow> bool" where
  "IS_CONT b \<longleftrightarrow> 0x80 \<le> b \<and> b < 0xC0"

definition num_bytes_in_utf8_sequence :: "nat \<Rightarrow> nat" where
  "num_bytes_in_utf8_sequence c =
     (if c = 0xC0 \<or> c = 0xC1 \<or> c > 0xF4 \<or> IS_CONT c then 0
      else if c < 0x80 then 1
      else if 0xC0 \<le> c \<and> c < 0xE0 then 2
      else if 0xE0 \<le> c \<and> c < 0xF0 then 3
      else if 0xF0 \<le> c \<and> c < 0xF8 then 4
      else 0)"

text \<open>Byte \<open>i\<close> of the string, 0 at its terminator; the checks stop there, since 0 is no
  continuation byte.\<close>

definition byte_at :: "string \<Rightarrow> nat \<Rightarrow> nat" where
  "byte_at s i = (if i < length s then of_char (s ! i) else 0)"

definition verify_utf8_sequence :: "string \<Rightarrow> nat option" where
  "verify_utf8_sequence s =
     (let len = num_bytes_in_utf8_sequence (byte_at s 0);
          cp = (if len = 1 then Some (byte_at s 0)
                else if len = 2 \<and> IS_CONT (byte_at s 1) then
                  Some (byte_at s 0 mod 0x20 * 64 + byte_at s 1 mod 64)
                else if len = 3 \<and> IS_CONT (byte_at s 1) \<and> IS_CONT (byte_at s 2) then
                  Some ((byte_at s 0 mod 0x10 * 64 + byte_at s 1 mod 64) * 64 + byte_at s 2 mod 64)
                else if len = 4 \<and> IS_CONT (byte_at s 1) \<and> IS_CONT (byte_at s 2) \<and> IS_CONT (byte_at s 3) then
                  Some (((byte_at s 0 mod 8 * 64 + byte_at s 1 mod 64) * 64 + byte_at s 2 mod 64) * 64
                    + byte_at s 3 mod 64)
                else None)
      in case cp of
           None \<Rightarrow> None
         | Some cp \<Rightarrow>
             if (cp < 0x80 \<and> len > 1) \<or> (cp < 0x800 \<and> len > 2) \<or> (cp < 0x10000 \<and> len > 3) then None
             else if cp > 0x10FFFF then None
             else if 0xD800 \<le> cp \<and> cp \<le> 0xDFFF then None
             else Some len)"

lemma verify_utf8_len: "verify_utf8_sequence s = Some n \<Longrightarrow> 0 < n"
  by (auto simp: verify_utf8_sequence_def Let_def split: if_splits)

function is_valid_utf8 :: "string \<Rightarrow> bool" where
  "is_valid_utf8 s =
     (if s = [] then True
      else case verify_utf8_sequence s of
             None \<Rightarrow> False
           | Some n \<Rightarrow> is_valid_utf8 (drop n s))"
  by pat_completeness auto
termination
  by (relation "measure length") (auto dest: verify_utf8_len)

declare is_valid_utf8.simps [simp del]

definition json_value_init_string :: "string option \<Rightarrow> json option" where
  "json_value_init_string s = (case s of
       None \<Rightarrow> None
     | Some s \<Rightarrow> if is_valid_utf8 s then Some (JString s) else None)"

section \<open>Objects\<close>

definition json_object_get_count :: "json_object option \<Rightarrow> nat" where
  "json_object_get_count ob = (case ob of Some (kvs, cap) \<Rightarrow> length kvs | None \<Rightarrow> 0)"

text \<open>\<open>json_object_nget_value\<close> compares the first \<open>n\<close> characters of \<open>name\<close> with names of
  length \<open>n\<close>; \<open>json_object_get_value\<close> passes the whole name.\<close>

fun nget :: "(string \<times> json) list \<Rightarrow> string \<Rightarrow> nat \<Rightarrow> json option" where
  "nget [] name n = None"
| "nget ((k, v) # kvs) name n =
     (if length k = n \<and> take n name = k then Some v else nget kvs name n)"

definition json_object_nget_value :: "json_object option \<Rightarrow> string \<Rightarrow> nat \<Rightarrow> json option" where
  "json_object_nget_value ob name n = (case ob of None \<Rightarrow> None | Some (kvs, cap) \<Rightarrow> nget kvs name n)"

definition json_object_get_value :: "json_object option \<Rightarrow> string \<Rightarrow> json option" where
  "json_object_get_value ob name =
     (case ob of None \<Rightarrow> None | Some _ \<Rightarrow> json_object_nget_value ob name (length name))"

definition json_object_get_name :: "json_object option \<Rightarrow> nat \<Rightarrow> string option" where
  "json_object_get_name ob i = (case ob of
       None \<Rightarrow> None
     | Some (kvs, cap) \<Rightarrow> if i \<ge> length kvs then None else Some (fst (kvs ! i)))"

definition json_object_get_string :: "json_object option \<Rightarrow> string \<Rightarrow> string option" where
  "json_object_get_string ob name = json_value_get_string (json_object_get_value ob name)"

definition json_object_get_number :: "json_object option \<Rightarrow> string \<Rightarrow> double" where
  "json_object_get_number ob name = json_value_get_number (json_object_get_value ob name)"

definition json_object_get_object :: "json_object option \<Rightarrow> string \<Rightarrow> json_object option" where
  "json_object_get_object ob name = json_value_get_object (json_object_get_value ob name)"

definition json_object_get_array :: "json_object option \<Rightarrow> string \<Rightarrow> json_array option" where
  "json_object_get_array ob name = json_value_get_array (json_object_get_value ob name)"

definition json_object_get_boolean :: "json_object option \<Rightarrow> string \<Rightarrow> int" where
  "json_object_get_boolean ob name = json_value_get_boolean (json_object_get_value ob name)"

text \<open>Resizing: failure for capacity 0 (the test that names and values are both null or both set
  holds, since they are allocated together).\<close>

definition json_object_resize :: "json_object \<Rightarrow> nat \<Rightarrow> json_status \<times> json_object" where
  "json_object_resize ob new_capacity =
     (if new_capacity = 0 then (JSONFailure, ob) else (JSONSuccess, (fst ob, new_capacity)))"

text \<open>The room check at the head of \<open>json_object_add\<close> (and of \<open>json_array_add\<close> with its own
  limit): double the capacity, at least to 15, and fail beyond the limit.\<close>

definition grow_capacity :: "nat \<Rightarrow> nat \<Rightarrow> nat \<Rightarrow> nat option" where
  "grow_capacity limit count cap =
     (if count \<ge> cap then
        (let new_capacity = max (cap * 2) STARTING_CAPACITY in
         if new_capacity > limit then None else Some new_capacity)
      else Some cap)"

definition json_object_add :: "json_object \<Rightarrow> string \<Rightarrow> json \<Rightarrow> json_status \<times> json_object" where
  "json_object_add ob name value =
     (case grow_capacity OBJECT_MAX_CAPACITY (length (fst ob)) (snd ob) of
        None \<Rightarrow> (JSONFailure, ob)
      | Some cap \<Rightarrow>
          if json_object_get_value (Some (fst ob, cap)) name \<noteq> None then (JSONFailure, (fst ob, cap))
          else (JSONSuccess, (fst ob @ [(name, value)], cap)))"

text \<open>The overwrite loop of \<open>json_object_set_value\<close>.\<close>

fun overwrite :: "(string \<times> json) list \<Rightarrow> string \<Rightarrow> json \<Rightarrow> (string \<times> json) list" where
  "overwrite [] name v = []"
| "overwrite ((k, w) # kvs) name v = (if k = name then (k, v) # kvs else (k, w) # overwrite kvs name v)"

definition json_object_set_value ::
    "json_object \<Rightarrow> string \<Rightarrow> json option \<Rightarrow> json_status \<times> json_object" where
  "json_object_set_value ob name value = (case value of
       None \<Rightarrow> (JSONFailure, ob)
     | Some v \<Rightarrow>
         if json_object_get_value (Some ob) name \<noteq> None
         then (JSONSuccess, (overwrite (fst ob) name v, snd ob))
         else json_object_add ob name v)"

definition json_object_set_string :: "json_object \<Rightarrow> string \<Rightarrow> string \<Rightarrow> json_status \<times> json_object" where
  "json_object_set_string ob name s = json_object_set_value ob name (json_value_init_string (Some s))"

definition json_object_set_number :: "json_object \<Rightarrow> string \<Rightarrow> double \<Rightarrow> json_status \<times> json_object" where
  "json_object_set_number ob name d = json_object_set_value ob name (Some (json_value_init_number d))"

definition json_object_set_boolean :: "json_object \<Rightarrow> string \<Rightarrow> int \<Rightarrow> json_status \<times> json_object" where
  "json_object_set_boolean ob name b = json_object_set_value ob name (Some (json_value_init_boolean b))"

definition json_object_set_null :: "json_object \<Rightarrow> string \<Rightarrow> json_status \<times> json_object" where
  "json_object_set_null ob name = json_object_set_value ob name (Some json_value_init_null)"

text \<open>Removal moves the last pair into the hole.\<close>

fun find_name :: "(string \<times> json) list \<Rightarrow> string \<Rightarrow> nat option" where
  "find_name [] name = None"
| "find_name ((k, v) # kvs) name = (if k = name then Some 0 else map_option Suc (find_name kvs name))"

definition remove_at :: "'a list \<Rightarrow> nat \<Rightarrow> 'a list" where
  "remove_at xs i =
     (let last_ix = length xs - 1 in
      butlast (if i \<noteq> last_ix then xs[i := xs ! last_ix] else xs))"

definition json_object_remove :: "json_object \<Rightarrow> string \<Rightarrow> json_status \<times> json_object" where
  "json_object_remove ob name =
     (if json_object_get_value (Some ob) name = None then (JSONFailure, ob)
      else case find_name (fst ob) name of
             None \<Rightarrow> (JSONFailure, ob)
           | Some i \<Rightarrow> (JSONSuccess, (remove_at (fst ob) i, snd ob)))"

definition json_object_clear :: "json_object \<Rightarrow> json_status \<times> json_object" where
  "json_object_clear ob = (JSONSuccess, ([], snd ob))"

section \<open>Arrays\<close>

definition json_array_get_count :: "json_array option \<Rightarrow> nat" where
  "json_array_get_count a = (case a of Some (xs, cap) \<Rightarrow> length xs | None \<Rightarrow> 0)"

definition json_array_get_value :: "json_array option \<Rightarrow> nat \<Rightarrow> json option" where
  "json_array_get_value a i = (case a of
       None \<Rightarrow> None
     | Some (xs, cap) \<Rightarrow> if i \<ge> length xs then None else Some (xs ! i))"

definition json_array_get_string :: "json_array option \<Rightarrow> nat \<Rightarrow> string option" where
  "json_array_get_string a i = json_value_get_string (json_array_get_value a i)"

definition json_array_get_number :: "json_array option \<Rightarrow> nat \<Rightarrow> double" where
  "json_array_get_number a i = json_value_get_number (json_array_get_value a i)"

definition json_array_get_object :: "json_array option \<Rightarrow> nat \<Rightarrow> json_object option" where
  "json_array_get_object a i = json_value_get_object (json_array_get_value a i)"

definition json_array_get_array :: "json_array option \<Rightarrow> nat \<Rightarrow> json_array option" where
  "json_array_get_array a i = json_value_get_array (json_array_get_value a i)"

definition json_array_get_boolean :: "json_array option \<Rightarrow> nat \<Rightarrow> int" where
  "json_array_get_boolean a i = json_value_get_boolean (json_array_get_value a i)"

definition json_array_resize :: "json_array \<Rightarrow> nat \<Rightarrow> json_status \<times> json_array" where
  "json_array_resize a new_capacity =
     (if new_capacity = 0 then (JSONFailure, a) else (JSONSuccess, (fst a, new_capacity)))"

definition json_array_add :: "json_array \<Rightarrow> json \<Rightarrow> json_status \<times> json_array" where
  "json_array_add a value =
     (case grow_capacity ARRAY_MAX_CAPACITY (length (fst a)) (snd a) of
        None \<Rightarrow> (JSONFailure, a)
      | Some cap \<Rightarrow> (JSONSuccess, (fst a @ [value], cap)))"

definition json_array_append_value :: "json_array \<Rightarrow> json option \<Rightarrow> json_status \<times> json_array" where
  "json_array_append_value a value = (case value of
       None \<Rightarrow> (JSONFailure, a)
     | Some v \<Rightarrow> json_array_add a v)"

definition json_array_append_number :: "json_array \<Rightarrow> double \<Rightarrow> json_status \<times> json_array" where
  "json_array_append_number a d = json_array_append_value a (Some (json_value_init_number d))"

definition json_array_append_string :: "json_array \<Rightarrow> string \<Rightarrow> json_status \<times> json_array" where
  "json_array_append_string a s = json_array_append_value a (json_value_init_string (Some s))"

definition json_array_append_boolean :: "json_array \<Rightarrow> int \<Rightarrow> json_status \<times> json_array" where
  "json_array_append_boolean a b = json_array_append_value a (Some (json_value_init_boolean b))"

definition json_array_append_null :: "json_array \<Rightarrow> json_status \<times> json_array" where
  "json_array_append_null a = json_array_append_value a (Some json_value_init_null)"

definition json_array_remove :: "json_array \<Rightarrow> nat \<Rightarrow> json_status \<times> json_array" where
  "json_array_remove a ix =
     (if ix \<ge> length (fst a) then (JSONFailure, a) else (JSONSuccess, (remove_at (fst a) ix, snd a)))"

definition json_array_replace_value :: "json_array \<Rightarrow> nat \<Rightarrow> json option \<Rightarrow> json_status \<times> json_array" where
  "json_array_replace_value a ix value = (case value of
       None \<Rightarrow> (JSONFailure, a)
     | Some v \<Rightarrow>
         if ix \<ge> length (fst a) then (JSONFailure, a) else (JSONSuccess, ((fst a)[ix := v], snd a)))"

definition json_array_replace_string :: "json_array \<Rightarrow> nat \<Rightarrow> string \<Rightarrow> json_status \<times> json_array" where
  "json_array_replace_string a i s = json_array_replace_value a i (json_value_init_string (Some s))"

definition json_array_replace_number :: "json_array \<Rightarrow> nat \<Rightarrow> double \<Rightarrow> json_status \<times> json_array" where
  "json_array_replace_number a i d = json_array_replace_value a i (Some (json_value_init_number d))"

definition json_array_replace_boolean :: "json_array \<Rightarrow> nat \<Rightarrow> int \<Rightarrow> json_status \<times> json_array" where
  "json_array_replace_boolean a i b = json_array_replace_value a i (Some (json_value_init_boolean b))"

definition json_array_replace_null :: "json_array \<Rightarrow> nat \<Rightarrow> json_status \<times> json_array" where
  "json_array_replace_null a i = json_array_replace_value a i (Some json_value_init_null)"

definition json_array_clear :: "json_array \<Rightarrow> json_status \<times> json_array" where
  "json_array_clear a = (JSONSuccess, ([], snd a))"

section \<open>The invariant of values\<close>

text \<open>Names of an object are distinct, counts stay within capacities and capacities within their
  limits, and every string is a C string.\<close>

fun wf_json :: "json \<Rightarrow> bool" where
  "wf_json JNull \<longleftrightarrow> True"
| "wf_json (JString s) \<longleftrightarrow> nul_free s"
| "wf_json (JNumber d) \<longleftrightarrow> True"
| "wf_json (JBoolean b) \<longleftrightarrow> True"
| "wf_json (JObject kvs cap) \<longleftrightarrow> distinct (map fst kvs) \<and> length kvs \<le> cap \<and> cap \<le> OBJECT_MAX_CAPACITY
     \<and> (\<forall>kv \<in> set kvs. nul_free (fst kv) \<and> wf_json (snd kv))"
| "wf_json (JArray xs cap) \<longleftrightarrow> length xs \<le> cap \<and> cap \<le> ARRAY_MAX_CAPACITY \<and> (\<forall>x \<in> set xs. wf_json x)"

abbreviation wf_object :: "json_object \<Rightarrow> bool" where "wf_object ob \<equiv> wf_json (of_object ob)"
abbreviation wf_array :: "json_array \<Rightarrow> bool" where "wf_array a \<equiv> wf_json (of_array a)"

text \<open>Lookup by name is lookup in the association list.\<close>

lemma nget_map_of: "nget kvs name (length name) = map_of kvs name"
  by (induction kvs) auto

lemma get_value_map_of [simp]: "json_object_get_value (Some (kvs, cap)) name = map_of kvs name"
  by (simp add: json_object_get_value_def json_object_nget_value_def nget_map_of)

lemma map_of_overwrite: "map_of kvs k \<noteq> None \<Longrightarrow> map_of (overwrite kvs k v) = (map_of kvs)(k \<mapsto> v)"
  by (induction kvs) (auto simp: fun_eq_iff)

lemma overwrite_names [simp]: "map fst (overwrite kvs k v) = map fst kvs"
  by (induction kvs) auto

lemma overwrite_length [simp]: "length (overwrite kvs k v) = length kvs"
  by (induction kvs) auto

lemma overwrite_set: "set (overwrite kvs k v) \<subseteq> insert (k, v) (set kvs)"
  by (induction kvs) (auto split: if_splits)

lemma grow_capacity_Some:
  assumes "grow_capacity limit n cap = Some cap'" and "n \<le> cap" and "cap \<le> limit"
  shows "n < cap' \<and> cap' \<le> limit"
  using assms by (auto simp: grow_capacity_def Let_def STARTING_CAPACITY_def split: if_splits)

lemma grow_capacity_None_iff:
  assumes "n \<le> cap"
  shows "grow_capacity limit n cap = None \<longleftrightarrow> n = cap \<and> max (cap * 2) STARTING_CAPACITY > limit"
  using assms by (auto simp: grow_capacity_def Let_def)

lemma json_object_add_wf:
  assumes "wf_object ob" and "nul_free name" and "wf_json v"
    and "json_object_add ob name v = (st, ob')"
  shows "wf_object ob'"
  using assms
  by (cases ob) (auto simp: json_object_add_def of_object_def map_of_eq_None_iff image_iff
      dest: grow_capacity_Some split: option.splits if_splits)

lemma json_object_set_value_wf:
  assumes "wf_object ob" and "nul_free name" and "\<And>w. v = Some w \<Longrightarrow> wf_json w"
    and "json_object_set_value ob name v = (st, ob')"
  shows "wf_object ob'"
proof (cases v)
  case None
  with assms show ?thesis by (simp add: json_object_set_value_def)
next
  case (Some w)
  obtain kvs cap where ob: "ob = (kvs, cap)" by (cases ob)
  show ?thesis
  proof (cases "map_of kvs name")
    case None
    then have "json_object_add ob name w = (st, ob')"
      using assms(4) Some by (simp add: json_object_set_value_def ob)
    with assms Some show ?thesis by (blast intro: json_object_add_wf)
  next
    case old: (Some u)
    then have "ob' = (overwrite kvs name w, cap)"
      using assms(4) Some by (simp add: json_object_set_value_def ob)
    moreover have "\<forall>kv \<in> set (overwrite kvs name w). nul_free (fst kv) \<and> wf_json (snd kv)"
      using overwrite_set [of kvs name w] assms Some by (auto simp: ob of_object_def)
    ultimately show ?thesis using assms(1) by (simp add: ob of_object_def)
  qed
qed

lemma json_object_set_value_get:
  assumes "json_object_set_value ob name (Some v) = (JSONSuccess, ob')"
  shows "json_object_get_value (Some ob') n =
    (if n = name then Some v else json_object_get_value (Some ob) n)"
proof -
  obtain kvs cap where ob: "ob = (kvs, cap)" by (cases ob)
  show ?thesis
  proof (cases "map_of kvs name")
    case None
    then show ?thesis
      using assms by (auto simp: ob json_object_set_value_def json_object_add_def map_add_def
          split: option.splits if_splits)
  next
    case (Some u)
    then show ?thesis using assms by (auto simp: ob json_object_set_value_def map_of_overwrite)
  qed
qed

lemma json_object_set_value_fails:
  assumes "wf_object ob"
  shows "fst (json_object_set_value ob name (Some v)) = JSONFailure \<longleftrightarrow>
    json_object_get_value (Some ob) name = None \<and> length (fst ob) = snd ob
      \<and> OBJECT_MAX_CAPACITY < max (snd ob * 2) STARTING_CAPACITY"
proof -
  obtain kvs cap where ob: "ob = (kvs, cap)" by (cases ob)
  then have "length kvs \<le> cap" using assms by (simp add: of_object_def)
  note full = grow_capacity_None_iff [OF this, of OBJECT_MAX_CAPACITY]
  show ?thesis
    by (cases "map_of kvs name"; cases "grow_capacity OBJECT_MAX_CAPACITY (length kvs) cap")
      (use full in \<open>auto simp: ob json_object_set_value_def json_object_add_def\<close>)
qed

lemma json_array_add_wf:
  assumes "wf_array a" and "wf_json v" and "json_array_add a v = (st, a')"
  shows "wf_array a'"
  using assms
  by (cases a) (auto simp: json_array_add_def of_array_def dest: grow_capacity_Some split: option.splits)

text \<open>Removing position \<open>i\<close> keeps the other elements.\<close>

lemma remove_at_snoc:
  "i < length (ys @ [z]) \<Longrightarrow> remove_at (ys @ [z]) i = (if i = length ys then ys else ys[i := z])"
  by (auto simp: remove_at_def nth_append list_update_append)

lemma find_name_Some: "find_name kvs name = Some i \<Longrightarrow>
    i < length kvs \<and> fst (kvs ! i) = name \<and> map_of kvs name = Some (snd (kvs ! i))"
  by (induction kvs name arbitrary: i rule: find_name.induct) (auto split: if_splits)

lemma find_name_None_iff: "find_name kvs name = None \<longleftrightarrow> map_of kvs name = None"
  by (induction kvs) auto

lemma remove_at_names:
  assumes "distinct (map fst kvs)" and "i < length kvs"
  shows "distinct (map fst (remove_at kvs i))"
    and "set (remove_at kvs i) = set kvs - {kvs ! i}"
    and "length (remove_at kvs i) = length kvs - 1"
proof -
  obtain ys z where kvs: "kvs = ys @ [z]" using assms(2) by (cases kvs rule: rev_cases) auto
  have d: "distinct (map fst ys)" "fst z \<notin> fst ` set ys" using assms(1) by (auto simp: kvs)
  then have "distinct ys" "z \<notin> set ys" by (auto simp: distinct_map)
  moreover have "distinct (map fst (ys[i := z]))" if "i < length ys"
    using d that by (simp add: map_update distinct_list_update image_iff)
  ultimately show "distinct (map fst (remove_at kvs i))"
    and "set (remove_at kvs i) = set kvs - {kvs ! i}"
    and "length (remove_at kvs i) = length kvs - 1"
    using assms(2) d unfolding kvs
    by (auto simp: remove_at_snoc nth_append set_update_distinct dest: nth_mem)
qed

lemma json_object_remove_correct:
  assumes "wf_object ob" and "json_object_remove ob name = (JSONSuccess, ob')"
  shows "wf_object ob'"
    and "json_object_get_value (Some ob') n = (if n = name then None else json_object_get_value (Some ob) n)"
proof -
  obtain kvs cap where ob: "ob = (kvs, cap)" by (cases ob)
  from assms(1) have d: "distinct (map fst kvs)" and l: "length kvs \<le> cap" "cap \<le> OBJECT_MAX_CAPACITY"
    and all: "\<forall>kv \<in> set kvs. nul_free (fst kv) \<and> wf_json (snd kv)" by (auto simp: ob of_object_def)
  from assms(2) obtain i where i: "find_name kvs name = Some i" and ob': "ob' = (remove_at kvs i, cap)"
    by (auto simp: ob json_object_remove_def split: option.splits if_splits)
  note f = find_name_Some [OF i]
  note r = remove_at_names [OF d conjunct1 [OF f]]
  show "wf_object ob'" using r l all by (auto simp: ob' of_object_def)
  have "map_of (remove_at kvs i) n = (if n = name then None else map_of kvs n)"
  proof (rule option.expand)
    show "(map_of (remove_at kvs i) n = None) = ((if n = name then None else map_of kvs n) = None)"
      using f d by (auto simp: map_of_eq_None_iff r(2) image_iff distinct_map inj_on_def)
    assume "map_of (remove_at kvs i) n \<noteq> None" and "(if n = name then None else map_of kvs n) \<noteq> None"
    then obtain v w where "map_of (remove_at kvs i) n = Some v" "n \<noteq> name" "map_of kvs n = Some w"
      by (auto split: if_splits)
    moreover from this(1) have "(n, v) \<in> set kvs" by (auto dest!: map_of_SomeD simp: r(2))
    ultimately show "the (map_of (remove_at kvs i) n) = the (if n = name then None else map_of kvs n)"
      using d by (simp add: map_of_is_SomeI)
  qed
  then show "json_object_get_value (Some ob') n = (if n = name then None else json_object_get_value (Some ob) n)"
    by (simp add: ob ob')
qed

section \<open>Objects as stores of named values\<close>

text \<open>The interface the request handlers use to build a response: set a name, read it back,
  remove it. \<open>None\<close> is failure.\<close>

fun put_seq :: "('o \<Rightarrow> string \<Rightarrow> 'v \<Rightarrow> 'o option) \<Rightarrow> 'o \<Rightarrow> (string \<times> 'v) list \<Rightarrow> 'o option" where
  "put_seq put ob [] = Some ob"
| "put_seq put ob ((k, v) # kvs) = do { ob' \<leftarrow> put ob k v; put_seq put ob' kvs }"

locale named_store =
  fixes ok :: "'o \<Rightarrow> bool" and ok_val :: "'v \<Rightarrow> bool"
    and get :: "'o \<Rightarrow> string \<Rightarrow> 'v option"
    and put :: "'o \<Rightarrow> string \<Rightarrow> 'v \<Rightarrow> 'o option"
    and del :: "'o \<Rightarrow> string \<Rightarrow> 'o option"
  assumes put_ok: "ok ob \<Longrightarrow> nul_free k \<Longrightarrow> ok_val v \<Longrightarrow> put ob k v = Some ob' \<Longrightarrow> ok ob'"
    and put_get: "put ob k v = Some ob' \<Longrightarrow> get ob' n = (if n = k then Some v else get ob n)"
    and put_present: "get ob k \<noteq> None \<Longrightarrow> \<exists>ob'. put ob k v = Some ob'"
    and del_ok: "ok ob \<Longrightarrow> del ob k = Some ob' \<Longrightarrow> ok ob'"
    and del_get: "ok ob \<Longrightarrow> del ob k = Some ob' \<Longrightarrow> get ob' n = (if n = k then None else get ob n)"
begin

lemma put_again: "put ob k v = Some ob' \<Longrightarrow> \<exists>ob''. put ob' k w = Some ob'' \<and> get ob'' k = Some w"
  using put_get [of ob k v ob' k] put_present [of ob' k w] by (auto simp: put_get)

lemma put_del:
  assumes "ok ob" and "nul_free k" and "ok_val v" and p: "put ob k v = Some ob'"
    and d: "del ob' k = Some ob''"
  shows "ok ob'' \<and> get ob'' = (get ob)(k := None)"
proof
  have ok': "ok ob'" using assms(1-4) by (rule put_ok)
  then show "ok ob''" using d by (rule del_ok)
  show "get ob'' = (get ob)(k := None)"
    by (simp add: fun_eq_iff del_get [OF ok' d] put_get [OF p])
qed

lemma put_seq_ok: "put_seq put ob kvs = Some ob' \<Longrightarrow> ok ob \<Longrightarrow>
    list_all (\<lambda>(k, v). nul_free k \<and> ok_val v) kvs \<Longrightarrow> ok ob'"
proof (induction kvs arbitrary: ob)
  case (Cons kv kvs)
  obtain k v where kv: "kv = (k, v)" by (cases kv)
  from Cons.prems obtain ob1 where p: "put ob k v = Some ob1" and "put_seq put ob1 kvs = Some ob'"
    by (auto simp: kv c_mem)
  moreover have "ok ob1" using Cons.prems by (intro put_ok [OF _ _ _ p]) (simp_all add: kv)
  ultimately show ?case using Cons.IH [of ob1] Cons.prems by (simp add: kv)
qed simp

lemma put_seq_get: "put_seq put ob kvs = Some ob' \<Longrightarrow>
    get ob' n = (case map_of (rev kvs) n of Some v \<Rightarrow> Some v | None \<Rightarrow> get ob n)"
proof (induction kvs arbitrary: ob)
  case (Cons kv kvs)
  obtain k v where kv: "kv = (k, v)" by (cases kv)
  from Cons.prems obtain ob1 where p: "put ob k v = Some ob1" and "put_seq put ob1 kvs = Some ob'"
    by (auto simp: kv c_mem)
  with Cons.IH [of ob1] show ?case by (simp add: kv map_add_def put_get [OF p] split: option.split)
qed simp

end

definition object_put :: "json_object \<Rightarrow> string \<Rightarrow> json \<Rightarrow> json_object option" where
  "object_put ob k v = (case json_object_set_value ob k (Some v) of
     (JSONSuccess, ob') \<Rightarrow> Some ob' | (JSONFailure, _) \<Rightarrow> None)"

definition object_del :: "json_object \<Rightarrow> string \<Rightarrow> json_object option" where
  "object_del ob k = (case json_object_remove ob k of
     (JSONSuccess, ob') \<Rightarrow> Some ob' | (JSONFailure, _) \<Rightarrow> None)"

lemma object_put_Some_iff:
  "object_put ob k v = Some ob' \<longleftrightarrow> json_object_set_value ob k (Some v) = (JSONSuccess, ob')"
  by (auto simp: object_put_def split: prod.splits json_status.splits)

lemma object_del_Some_iff:
  "object_del ob k = Some ob' \<longleftrightarrow> json_object_remove ob k = (JSONSuccess, ob')"
  by (auto simp: object_del_def split: prod.splits json_status.splits)

interpretation objects: named_store wf_object wf_json "\<lambda>ob. json_object_get_value (Some ob)" object_put object_del
proof unfold_locales
  fix ob k v ob' n
  show "wf_object ob \<Longrightarrow> nul_free k \<Longrightarrow> wf_json v \<Longrightarrow> object_put ob k v = Some ob' \<Longrightarrow> wf_object ob'"
    by (auto simp: object_put_Some_iff intro: json_object_set_value_wf)
  show "object_put ob k v = Some ob' \<Longrightarrow> json_object_get_value (Some ob') n =
      (if n = k then Some v else json_object_get_value (Some ob) n)"
    unfolding object_put_Some_iff by (rule json_object_set_value_get)
  show "json_object_get_value (Some ob) k \<noteq> None \<Longrightarrow> \<exists>ob'. object_put ob k v = Some ob'"
    by (simp add: object_put_def json_object_set_value_def)
  show "wf_object ob \<Longrightarrow> object_del ob k = Some ob' \<Longrightarrow> wf_object ob'"
    unfolding object_del_Some_iff by (rule json_object_remove_correct(1))
  show "wf_object ob \<Longrightarrow> object_del ob k = Some ob' \<Longrightarrow> json_object_get_value (Some ob') n =
      (if n = k then None else json_object_get_value (Some ob) n)"
    unfolding object_del_Some_iff by (rule json_object_remove_correct(2))
qed

section \<open>Properties\<close>

text \<open>C17. Setting a name in a well-formed object and removing it again: both updates keep the object
  well formed, the first makes exactly that name answer with the new value, and the second is
  the original object without the name, although it moves the last pair into the hole.\<close>

theorem json_object_set_then_remove:
  assumes "wf_object ob" and "nul_free k" and "wf_json v"
    and "json_object_set_value ob k (Some v) = (JSONSuccess, ob1)"
    and "json_object_remove ob1 k = (st, ob2)"
  shows "st = JSONSuccess \<and> wf_object ob1 \<and> wf_object ob2
    \<and> (\<lambda>n. json_object_get_value (Some ob1) n) = (\<lambda>n. json_object_get_value (Some ob) n)(k \<mapsto> v)
    \<and> (\<lambda>n. json_object_get_value (Some ob2) n) = (\<lambda>n. json_object_get_value (Some ob) n)(k := None)"
proof -
  have put: "object_put ob k v = Some ob1" using assms(4) by (simp add: object_put_Some_iff)
  have "json_object_get_value (Some ob1) k = Some v" using objects.put_get [OF put] by simp
  with assms(5) have st: "st = JSONSuccess"
    using find_name_None_iff [of "fst ob1" k]
    by (cases ob1) (auto simp: json_object_remove_def split: option.splits)
  have del: "object_del ob1 k = Some ob2" using assms(5) st by (simp add: object_del_Some_iff)
  show ?thesis
    using st objects.put_ok [OF assms(1-3) put] objects.put_del [OF assms(1-3) put del]
    by (simp add: fun_eq_iff objects.put_get [OF put])
qed

theorem json_object_set_then_remove_witness:
  "wf_object ([(''a'', JNull)], 15) \<and>
   (\<lambda>n. json_object_get_value (Some ([(''a'', JNull)], 15)) n) =
     (\<lambda>n. json_object_get_value (Some ([(''b'', JNull), (''a'', JNull)], 15)) n)(''b'' := None)"
  using json_object_set_then_remove [of "([(''b'', JNull), (''a'', JNull)], 15)" "''b''" "JBoolean True"
      "([(''b'', JBoolean True), (''a'', JNull)], 15)" JSONSuccess "([(''a'', JNull)], 15)"]
  by (simp add: of_object_def OBJECT_MAX_CAPACITY_def json_object_set_value_def json_object_remove_def
      remove_at_def)

text \<open>C33. Building an object by a sequence of sets, as the request handlers do: if every set
  succeeds the result is well formed, and each name answers with the value it was set to last, or
  with what the object held before.\<close>

theorem json_object_put_seq:
  assumes "wf_object ob" and "list_all (\<lambda>(k, v). nul_free k \<and> wf_json v) kvs"
    and "put_seq object_put ob kvs = Some ob'"
  shows "wf_object ob' \<and> json_object_get_value (Some ob') n =
    (case map_of (rev kvs) n of Some v \<Rightarrow> Some v | None \<Rightarrow> json_object_get_value (Some ob) n)"
  using objects.put_seq_ok [OF assms(3,1,2)] objects.put_seq_get [OF assms(3)] by blast

theorem json_object_put_seq_witness:
  "json_object_get_value (Some ([(''k'', JBoolean True), (''m'', JNull)], 15)) ''k'' = Some (JBoolean True)"
  using json_object_put_seq [of "([], 0)" "[(''k'', JNull), (''m'', JNull), (''k'', JBoolean True)]"
      "([(''k'', JBoolean True), (''m'', JNull)], 15)" "''k''"]
  by (simp add: of_object_def OBJECT_MAX_CAPACITY_def STARTING_CAPACITY_def json_object_set_value_def
      object_put_def json_object_add_def grow_capacity_def)

text \<open>C34. A set fails only for a new name in a full object whose doubled capacity would exceed 960;
  in particular it never fails below 480 names and never for a name that is present.\<close>

theorem json_object_set_fails_iff_full:
  assumes "wf_object ob"
  shows "fst (json_object_set_value ob name (Some v)) = JSONFailure \<longleftrightarrow>
    json_object_get_value (Some ob) name = None \<and> length (fst ob) = snd ob \<and> 480 < snd ob"
  using assms by (subst json_object_set_value_fails)
    (auto simp: STARTING_CAPACITY_def OBJECT_MAX_CAPACITY_def of_object_def)

theorem json_object_set_fails_iff_full_witness:
  "fst (json_object_set_value ([(''a'', JNull)], 1) ''b'' (Some JNull)) = JSONSuccess"
  using json_object_set_fails_iff_full [of "([(''a'', JNull)], 1)" "''b''" JNull]
  by (cases "fst (json_object_set_value ([(''a'', JNull)], 1) ''b'' (Some JNull))")
    (simp_all add: of_object_def OBJECT_MAX_CAPACITY_def)

end
