(* ===== verification/Json_Serialize.thy ===== *)
theory Json_Serialize
  imports Json_Value
begin

text \<open>
  Serialization of JSON values, the second half of \<^verbatim>\<open>src/parson.c\<close>. The C function
  \<open>json_serialize_to_buffer_r\<close> runs twice: with a null buffer it only counts, then it writes. The
  two modes are two definitions here, \<open>ser_size\<close> (\<open>None\<close> for the result -1) and \<open>ser_text\<close>
  (what the second run writes), and the public functions combine them as the code does.
\<close>

section \<open>Strings and indentation\<close>

definition json_escape :: "char \<Rightarrow> string" where
  "json_escape c =
     (if c = CHR 0x22 then [CHR 0x5C, CHR 0x22]
      else if c = CHR 0x5C then [CHR 0x5C, CHR 0x5C]
      else if c = CHR 0x08 then [CHR 0x5C, CHR ''b'']
      else if c = CHR 0x0C then [CHR 0x5C, CHR ''f'']
      else if c = CHR 0x0A then [CHR 0x5C, CHR ''n'']
      else if c = CHR 0x0D then [CHR 0x5C, CHR ''r'']
      else if c = CHR 0x09 then [CHR 0x5C, CHR ''t'']
      else [c])"

definition json_serialize_string :: "string \<Rightarrow> string" where
  "json_serialize_string s = CHR 0x22 # concat (map json_escape s) @ [CHR 0x22]"

text \<open>The counting mode adds the length of each piece.\<close>

definition json_string_size :: "string \<Rightarrow> nat" where
  "json_string_size s = 1 + sum_list (map (\<lambda>c. length (json_escape c)) s) + 1"

definition append_indent :: "nat \<Rightarrow> string" where
  "append_indent level = concat (replicate level ''    '')"

definition append_indent_size :: "nat \<Rightarrow> nat" where
  "append_indent_size level = sum_list (replicate level 4)"

section \<open>Numbers\<close>

text \<open>\<open>num == ((double)(int)num)\<close>: printed with \<open>%d\<close>, otherwise with \<open>%.8f\<close>.\<close>

definition is_int_double :: "double \<Rightarrow> bool" where
  "is_int_double num \<longleftrightarrow> d_eq num (d_of_int (d_to_int num))"

definition ser_number :: "double \<Rightarrow> string" where
  "ser_number num = (if is_int_double num then show_int (d_to_int num) else fmt_fixed 8 num)"

section \<open>\<open>json_serialize_to_buffer_r\<close>\<close>

lemma nget_in_set: "nget kvs name n = Some v \<Longrightarrow> (take n name, v) \<in> set kvs"
  by (induction kvs) (auto split: if_splits)

lemma nget_size: "nget kvs name n = Some v \<Longrightarrow> size v < Suc (size_list (size_prod (\<lambda>_. 0) size) kvs)"
  by (induction kvs) (auto split: if_splits)

definition pretty_lf :: "bool \<Rightarrow> string" where
  "pretty_lf is_pretty = (if is_pretty then [LF] else [])"

definition pretty_indent :: "bool \<Rightarrow> nat \<Rightarrow> string" where
  "pretty_indent is_pretty level = (if is_pretty then append_indent level else [])"

text \<open>Writing. \<open>ser_items\<close> and \<open>ser_members\<close> are the two loops; the second looks each value up
  again by its name, as the code does.\<close>

function (sequential)
  ser_text :: "json \<Rightarrow> nat \<Rightarrow> bool \<Rightarrow> string option"
  and ser_items :: "json list \<Rightarrow> nat \<Rightarrow> bool \<Rightarrow> string option"
  and ser_members :: "(string \<times> json) list \<Rightarrow> (string \<times> json) list \<Rightarrow> nat \<Rightarrow> bool \<Rightarrow> string option"
where
  "ser_text (JArray items cap) level p = do {
     body \<leftarrow> ser_items items level p;
     Some (''['' @ (if items \<noteq> [] then pretty_lf p else []) @ body
       @ (if items \<noteq> [] then pretty_indent p level else []) @ '']'') }"
| "ser_text (JObject kvs cap) level p = do {
     body \<leftarrow> ser_members kvs kvs level p;
     Some (''{'' @ (if kvs \<noteq> [] then pretty_lf p else []) @ body
       @ (if kvs \<noteq> [] then pretty_indent p level else []) @ ''}'') }"
| "ser_text (JString s) level p = Some (json_serialize_string s)"
| "ser_text (JBoolean b) level p = Some (if b then ''true'' else ''false'')"
| "ser_text (JNumber num) level p = Some (ser_number num)"
| "ser_text JNull level p = Some ''null''"
| "ser_items [] level p = Some []"
| "ser_items (v # vs) level p = do {
     t \<leftarrow> ser_text v (level + 1) p;
     r \<leftarrow> ser_items vs level p;
     Some (pretty_indent p (level + 1) @ t @ (if vs \<noteq> [] then '','' else []) @ pretty_lf p @ r) }"
| "ser_members all [] level p = Some []"
| "ser_members all ((k, _) # kvs) level p = do {
     t \<leftarrow> (case nget all k (length k) of None \<Rightarrow> None | Some v \<Rightarrow> ser_text v (level + 1) p);
     r \<leftarrow> ser_members all kvs level p;
     Some (pretty_indent p (level + 1) @ json_serialize_string k @ '':''
       @ (if p then '' '' else []) @ t @ (if kvs \<noteq> [] then '','' else []) @ pretty_lf p @ r) }"
  by pat_completeness auto

termination
  by (relation "measures [case_sum (\<lambda>(v, l, p). 2 * size v)
        (case_sum (\<lambda>(vs, l, p). 2 * size_list size vs + 1)
          (\<lambda>(all, kvs, l, p). 2 * size_list (size_prod (\<lambda>_. 0) size) all + 1)),
      case_sum (\<lambda>_. 0) (case_sum (\<lambda>(vs, l, p). length vs) (\<lambda>(all, kvs, l, p). length kvs))]")
    (auto dest: nget_size)

text \<open>Counting, with the same structure.\<close>

function (sequential)
  ser_size :: "json \<Rightarrow> nat \<Rightarrow> bool \<Rightarrow> nat option"
  and size_items :: "json list \<Rightarrow> nat \<Rightarrow> bool \<Rightarrow> nat option"
  and size_members :: "(string \<times> json) list \<Rightarrow> (string \<times> json) list \<Rightarrow> nat \<Rightarrow> bool \<Rightarrow> nat option"
where
  "ser_size (JArray items cap) level p = do {
     body \<leftarrow> size_items items level p;
     Some (1 + (if items \<noteq> [] \<and> p then 1 else 0) + body
       + (if items \<noteq> [] \<and> p then append_indent_size level else 0) + 1) }"
| "ser_size (JObject kvs cap) level p = do {
     body \<leftarrow> size_members kvs kvs level p;
     Some (1 + (if kvs \<noteq> [] \<and> p then 1 else 0) + body
       + (if kvs \<noteq> [] \<and> p then append_indent_size level else 0) + 1) }"
| "ser_size (JString s) level p = Some (json_string_size s)"
| "ser_size (JBoolean b) level p = Some (if b then 4 else 5)"
| "ser_size (JNumber num) level p = Some (length (ser_number num))"
| "ser_size JNull level p = Some 4"
| "size_items [] level p = Some 0"
| "size_items (v # vs) level p = do {
     t \<leftarrow> ser_size v (level + 1) p;
     r \<leftarrow> size_items vs level p;
     Some ((if p then append_indent_size (level + 1) else 0) + t
       + (if vs \<noteq> [] then 1 else 0) + (if p then 1 else 0) + r) }"
| "size_members all [] level p = Some 0"
| "size_members all ((k, _) # kvs) level p = do {
     t \<leftarrow> (case nget all k (length k) of None \<Rightarrow> None | Some v \<Rightarrow> ser_size v (level + 1) p);
     r \<leftarrow> size_members all kvs level p;
     Some ((if p then append_indent_size (level + 1) else 0) + json_string_size k + 1
       + (if p then 1 else 0) + t + (if kvs \<noteq> [] then 1 else 0) + (if p then 1 else 0) + r) }"
  by pat_completeness auto

termination
  by (relation "measures [case_sum (\<lambda>(v, l, p). 2 * size v)
        (case_sum (\<lambda>(vs, l, p). 2 * size_list size vs + 1)
          (\<lambda>(all, kvs, l, p). 2 * size_list (size_prod (\<lambda>_. 0) size) all + 1)),
      case_sum (\<lambda>_. 0) (case_sum (\<lambda>(vs, l, p). length vs) (\<lambda>(all, kvs, l, p). length kvs))]")
    (auto dest: nget_size)

section \<open>Public functions\<close>

text \<open>\<open>json_serialization_size\<close> and its pretty variant: 0 on failure.\<close>

definition json_serialization_size :: "bool \<Rightarrow> json option \<Rightarrow> nat" where
  "json_serialization_size p v =
     (case v of None \<Rightarrow> 0
      | Some v \<Rightarrow> (case ser_size v 0 p of None \<Rightarrow> 0 | Some n \<Rightarrow> n + 1))"

text \<open>Writing into a buffer: the pieces and their terminators end up as the text and one NUL from
  offset 0 on; writing outside the buffer is undefined.\<close>

definition json_serialize_to_buffer ::
    "bool \<Rightarrow> json option \<Rightarrow> cbuf \<Rightarrow> (json_status \<times> cbuf) option" where
  "json_serialize_to_buffer p v b =
     (let needed_size_in_bytes = json_serialization_size p v in
      if needed_size_in_bytes = 0 \<or> length b < needed_size_in_bytes then Some (JSONFailure, b)
      else case v of
             None \<Rightarrow> Some (JSONFailure, b)
           | Some v \<Rightarrow>
               (case ser_text v 0 p of
                  None \<Rightarrow> Some (JSONFailure, b)
                | Some t \<Rightarrow> do { b' \<leftarrow> str_write b 0 t; Some (JSONSuccess, b') }))"

text \<open>The allocated buffer holds arbitrary bytes; \<open>fill\<close> is one of them. \<open>None\<close> inside is the
  null pointer.\<close>

definition json_serialize_to_string :: "bool \<Rightarrow> char \<Rightarrow> json option \<Rightarrow> string option option" where
  "json_serialize_to_string p fill v =
     (let buf_size_bytes = json_serialization_size p v in
      if buf_size_bytes = 0 then Some None
      else do {
        (st, b) \<leftarrow> json_serialize_to_buffer p v (replicate buf_size_bytes fill);
        if st = JSONFailure then Some None
        else do { s \<leftarrow> cstr_at b 0; Some (Some s) } })"

text \<open>The pretty variants are the same code with \<open>is_pretty = 1\<close>.\<close>

definition json_serialization_size_pretty :: "json option \<Rightarrow> nat" where
  "json_serialization_size_pretty v = json_serialization_size True v"

definition json_serialize_to_buffer_pretty :: "json option \<Rightarrow> cbuf \<Rightarrow> (json_status \<times> cbuf) option" where
  "json_serialize_to_buffer_pretty v b = json_serialize_to_buffer True v b"

definition json_serialize_to_string_pretty :: "char \<Rightarrow> json option \<Rightarrow> string option option" where
  "json_serialize_to_string_pretty fill v = json_serialize_to_string True fill v"

section \<open>The two modes agree\<close>

lemma append_indent_length [simp]: "length (append_indent n) = append_indent_size n"
  by (simp add: append_indent_def append_indent_size_def length_concat sum_list_replicate)

lemma json_serialize_string_length [simp]: "length (json_serialize_string s) = json_string_size s"
  by (simp add: json_serialize_string_def json_string_size_def length_concat o_def)

lemma pretty_length [simp]:
  "length (pretty_lf p) = (if p then 1 else 0)"
  "length (pretty_indent p n) = (if p then append_indent_size n else 0)"
  by (simp_all add: pretty_lf_def pretty_indent_def)

lemma not_pretty [simp]: "pretty_lf False = []" "pretty_indent False n = []"
  by (simp_all add: pretty_lf_def pretty_indent_def)

lemma ser_size_text:
  "ser_size v level p = map_option length (ser_text v level p)"
  "size_items vs level p = map_option length (ser_items vs level p)"
  "size_members all kvs level p = map_option length (ser_members all kvs level p)"
proof (induction v level p and vs level p and all kvs level p
    rule: ser_text_ser_items_ser_members.induct)
  case (1 items cap level p)
  then show ?case by (cases "ser_items items level p") auto
next
  case (2 kvs cap level p)
  then show ?case by (cases "ser_members kvs kvs level p") auto
next
  case (8 v vs level p)
  then show ?case
    by (cases "ser_text v (level + 1) p"; cases "ser_items vs level p") auto
next
  case (10 all k v kvs level p)
  show ?case
  proof (cases "nget all k (length k)")
    case (Some w)
    with 10 show ?thesis
      by (cases "ser_text w (level + 1) p"; cases "ser_members all kvs level p") auto
  qed simp
qed (auto split: if_splits)

lemma nget_present: "(k, v) \<in> set kvs \<Longrightarrow> \<exists>w. nget kvs k (length k) = Some w"
  by (induction kvs) auto

lemma ser_text_total:
  "\<exists>t. ser_text v level p = Some t"
  "\<exists>t. ser_items vs level p = Some t"
  "set kvs \<subseteq> set all \<Longrightarrow> \<exists>t. ser_members all kvs level p = Some t"
proof (induction v level p and vs level p and all kvs level p
    rule: ser_text_ser_items_ser_members.induct)
  case (10 all k v kvs level p)
  then obtain w where w: "nget all k (length k) = Some w" using nget_present [of k v all] by auto
  with 10 show ?case by auto
qed auto

text \<open>Every string is NUL-free, at every depth.\<close>

lemma append_indent_nul_free [simp]: "nul_free (append_indent n)"
  by (auto simp: append_indent_def nul_free_def)

lemma pretty_nul_free [simp]: "nul_free (pretty_lf p)" "nul_free (pretty_indent p n)"
  by (simp_all add: pretty_lf_def pretty_indent_def)

lemma json_escape_nul_free [simp]: "NUL \<in> set (json_escape c) \<longleftrightarrow> c = NUL"
  by (auto simp: json_escape_def)

lemma json_serialize_string_nul_free: "nul_free s \<Longrightarrow> nul_free (json_serialize_string s)"
  by (auto simp: json_serialize_string_def nul_free_def)

lemma ser_number_nul_free: "nul_free (ser_number d)"
  by (auto simp: ser_number_def show_int_def fmt_fixed_def Let_def split: fpval.split)

lemma ser_text_nul_free:
  "wf_json v \<Longrightarrow> ser_text v level p = Some t \<Longrightarrow> nul_free t"
  "\<forall>v \<in> set vs. wf_json v \<Longrightarrow> ser_items vs level p = Some t \<Longrightarrow> nul_free t"
  "\<forall>kv \<in> set all. nul_free (fst kv) \<and> wf_json (snd kv) \<Longrightarrow> set kvs \<subseteq> set all \<Longrightarrow>
    ser_members all kvs level p = Some t \<Longrightarrow> nul_free t"
proof (induction v level p and vs level p and all kvs level p arbitrary: t and t and t
    rule: ser_text_ser_items_ser_members.induct)
  case (10 all k v kvs level p)
  then obtain w tw r where w: "nget all k (length k) = Some w" "ser_text w (level + 1) p = Some tw"
    and r: "ser_members all kvs level p = Some r"
    and t: "t = pretty_indent p (level + 1) @ json_serialize_string k @ '':''
       @ (if p then '' '' else []) @ tw @ (if kvs \<noteq> [] then '','' else []) @ pretty_lf p @ r"
    by (auto simp: c_mem split: option.splits)
  from nget_in_set [OF w(1)] have "wf_json w" using 10 by auto
  moreover have "nul_free k" using "10.prems" by auto
  ultimately show ?case using 10 w r by (auto simp: t intro: json_serialize_string_nul_free)
qed (auto simp: c_mem json_serialize_string_nul_free ser_number_nul_free)

section \<open>The public functions\<close>

text \<open>Serialization succeeds on every well-formed value: the allocated buffer is exactly filled.\<close>

lemma json_serialize_to_string_text:
  assumes "wf_json v"
  shows "\<exists>t. ser_text v 0 p = Some t \<and> nul_free t \<and> json_serialize_to_string p fill (Some v) = Some (Some t)"
proof -
  obtain t where t: "ser_text v 0 p = Some t" using ser_text_total by blast
  have n: "nul_free t" by (rule ser_text_nul_free(1) [OF assms t])
  have "json_serialization_size p (Some v) = length t + 1"
    by (simp add: json_serialization_size_def ser_size_text t)
  moreover from this have "json_serialize_to_buffer p (Some v) (replicate (length t + 1) fill) =
      Some (JSONSuccess, t @ [NUL])"
    by (simp add: json_serialize_to_buffer_def t str_write_def mem_write_inside)
  ultimately show ?thesis
    using t n cstr_at_append [of t "[]" "[]"] by (simp add: json_serialize_to_string_def)
qed

text \<open>A caller's buffer: refused when it is too small, never overrun.\<close>

lemma json_serialize_to_buffer_cases:
  assumes "ser_text v 0 p = Some t"
  shows "json_serialize_to_buffer p (Some v) b =
    (if length b < length t + 1 then Some (JSONFailure, b)
     else Some (JSONSuccess, t @ NUL # drop (length t + 1) b))"
  using assms
  by (simp add: json_serialize_to_buffer_def json_serialization_size_def ser_size_text
      str_write_def mem_write_inside)

section \<open>Properties\<close>



end
