(* ===== verification/Json_Parse.thy ===== *)
theory Json_Parse
  imports Json_Serialize
begin

text \<open>
  The parser of \<^verbatim>\<open>src/parson.c\<close>. The position \<open>const char **string\<close> is the remaining text;
  at its end the code reads the terminating NUL. Recursion and loops carry fuel: \<open>parse_value\<close> the
  number of nested calls, the two loops the number of iterations. The outer \<open>None\<close> means that fuel
  ran out (or that the code reads past the terminator); \<open>parse_value_total\<close> below shows that neither
  happens with \<open>MAX_NESTING + 2\<close> nested calls and one iteration per character, so parsing any text
  ends. The inner \<open>None\<close> is the null pointer that reports malformed text.
\<close>

definition MAX_NESTING :: nat where "MAX_NESTING = 19"

section \<open>Quoted strings\<close>

text \<open>The loop of \<open>skip_quotes\<close>, after the character the caller stands on.\<close>

fun skip_quotes_loop :: "string \<Rightarrow> string" where
  "skip_quotes_loop [] = []"
| "skip_quotes_loop (c # t) =
     (if c = CHR 0x22 then t
      else if c = CHR 0x5C then (case t of [] \<Rightarrow> [] | _ # u \<Rightarrow> skip_quotes_loop u)
      else skip_quotes_loop t)"

definition skip_quotes :: "string \<Rightarrow> string option" where
  "skip_quotes s = (case s of [] \<Rightarrow> None | c # t \<Rightarrow> Some (skip_quotes_loop t))"

text \<open>Four hexadecimal digits and their value (\<open>sscanf\<close> with \<open>%4x\<close>).\<close>

definition is_utf16_hex :: "string \<Rightarrow> bool" where
  "is_utf16_hex s \<longleftrightarrow> 4 \<le> length s \<and> list_all isxdigit (take 4 s)"

definition scan_hex4 :: "string \<Rightarrow> nat" where
  "scan_hex4 s = foldl (\<lambda>n c. 16 * n + hex_val c) 0 (take 4 s)"

text \<open>\<open>parse_utf_16\<close> stands on the \<open>u\<close>; it gives the bytes it writes and the number of characters
  from the \<open>u\<close> to the last digit it used.\<close>

definition parse_utf_16 :: "string \<Rightarrow> (nat list \<times> nat) option" where
  "parse_utf_16 s =
     (let s = drop 1 s; cp = scan_hex4 s in
      if \<not> is_utf16_hex s then None
      else if cp < 0x80 then Some ([cp], 5)
      else if cp < 0x800 then Some ([cp div 0x40 mod 0x20 + 0xC0, cp mod 0x40 + 0x80], 5)
      else if cp < 0xD800 \<or> cp > 0xDFFF then
        Some ([cp div 0x1000 mod 0x10 + 0xE0, cp div 0x40 mod 0x40 + 0x80, cp mod 0x40 + 0x80], 5)
      else if cp \<ge> 0xD800 \<and> cp \<le> 0xDBFF then
        (case drop 4 s of
           a # b # u \<Rightarrow>
             (let trail = scan_hex4 u in
              if a \<noteq> CHR 0x5C \<or> b \<noteq> CHR ''u'' \<or> \<not> is_utf16_hex u \<or> trail < 0xDC00 \<or> trail > 0xDFFF then None
              else let cp = ((cp - 0xD800) mod 0x400) * 0x400 + (trail - 0xDC00) mod 0x400 + 0x10000
                   in Some ([cp div 0x40000 mod 8 + 0xF0, cp div 0x1000 mod 0x40 + 0x80,
                             cp div 0x40 mod 0x40 + 0x80, cp mod 0x40 + 0x80], 11))
         | _ \<Rightarrow> None)
      else None)"

definition json_unescape :: "char \<Rightarrow> char option" where
  "json_unescape e =
     (if e = CHR 0x22 then Some (CHR 0x22)
      else if e = CHR 0x5C then Some (CHR 0x5C)
      else if e = CHR ''/'' then Some (CHR ''/'')
      else if e = CHR ''b'' then Some (CHR 0x08)
      else if e = CHR ''f'' then Some (CHR 0x0C)
      else if e = CHR ''n'' then Some (CHR 0x0A)
      else if e = CHR ''r'' then Some (CHR 0x0D)
      else if e = CHR ''t'' then Some (CHR 0x09)
      else None)"

text \<open>The loop of \<open>process_string\<close>: \<open>len\<close> is what is left of the length limit; the result is what
  was written to the output buffer.\<close>

function process_loop :: "nat \<Rightarrow> string \<Rightarrow> string option" where
  "process_loop len s =
     (if len = 0 then Some []
      else case s of
        [] \<Rightarrow> Some []
      | c # t \<Rightarrow>
          if c = CHR 0x5C then
            (case t of
               [] \<Rightarrow> None
             | e # u \<Rightarrow>
                 if e = CHR ''u'' then
                   (case parse_utf_16 t of
                      None \<Rightarrow> None
                    | Some (bs, k) \<Rightarrow> map_option ((@) (map char_of bs)) (process_loop (len - (k + 1)) (drop k t)))
                 else
                   (case json_unescape e of
                      None \<Rightarrow> None
                    | Some x \<Rightarrow> map_option (Cons x) (process_loop (len - 2) u)))
          else if of_char c < (0x20 :: nat) then None
          else map_option (Cons c) (process_loop (len - 1) t))"
  by pat_completeness auto
termination by (relation "measure fst") auto

declare process_loop.simps [simp del]

text \<open>The result is read as a C string: an escaped NUL ends it.\<close>

definition process_string :: "string \<Rightarrow> nat \<Rightarrow> string option" where
  "process_string input len = map_option (takeWhile (\<lambda>c. c \<noteq> NUL)) (process_loop len input)"

definition get_quoted_string :: "string \<Rightarrow> (string option \<times> string) option" where
  "get_quoted_string s = do {
     r \<leftarrow> skip_quotes s;
     if r = [] then Some (None, r)
     else Some (process_string (tl s) (length s - length r - 2), r) }"

section \<open>Scalars\<close>

definition parse_string_value :: "string \<Rightarrow> (json \<times> string) option option" where
  "parse_string_value s = do {
     (q, r) \<leftarrow> get_quoted_string s;
     Some (map_option (\<lambda>q. (JString q, r)) q) }"

definition parse_boolean_value :: "string \<Rightarrow> (json \<times> string) option" where
  "parse_boolean_value s =
     (if take 4 s = ''true'' then Some (JBoolean True, drop 4 s)
      else if take 5 s = ''false'' then Some (JBoolean False, drop 5 s)
      else None)"

definition is_decimal :: "string \<Rightarrow> nat \<Rightarrow> bool" where
  "is_decimal s len =
     (if len > 1 \<and> take 1 s = ''0'' \<and> take 1 (drop 1 s) \<noteq> ''.'' then False
      else if len > 2 \<and> take 2 s = ''-0'' \<and> take 1 (drop 2 s) \<noteq> ''.'' then False
      else \<not> list_ex (\<lambda>c. c = CHR ''x'' \<or> c = CHR ''X'') (take len s))"

definition parse_number_value :: "string \<Rightarrow> (json \<times> string) option" where
  "parse_number_value s =
     (let (number, end) = strtod s in
      if is_decimal s (length s - length end) then Some (JNumber number, end) else None)"

definition parse_null_value :: "string \<Rightarrow> (json \<times> string) option" where
  "parse_null_value s = (if take 4 s = ''null'' then Some (JNull, drop 4 s) else None)"

section \<open>Values, objects and arrays\<close>

text \<open>The loops of \<open>parse_object_value\<close> and \<open>parse_array_value\<close>; \<open>pv\<close> is the recursive call of
  \<open>parse_value\<close>.\<close>

type_synonym value_parser = "string \<Rightarrow> nat \<Rightarrow> (json \<times> string) option option"

fun parse_members :: "value_parser \<Rightarrow> nat \<Rightarrow> string \<Rightarrow> nat \<Rightarrow> json_object \<Rightarrow>
    (json_object \<times> string) option option" where
  "parse_members pv 0 s nesting ob = None"
| "parse_members pv (Suc n) s nesting ob =
     (if s = [] then Some (Some (ob, s))
      else do {
        (new_key, s) \<leftarrow> get_quoted_string s;
        let s = skip_space s;
        (case new_key of
           None \<Rightarrow> Some None
         | Some k \<Rightarrow>
             if take 1 s \<noteq> '':'' then Some None
             else do {
               r \<leftarrow> pv (tl s) nesting;
               (case r of
                  None \<Rightarrow> Some None
                | Some (v, s) \<Rightarrow>
                    (case json_object_add ob k v of
                       (JSONFailure, _) \<Rightarrow> Some None
                     | (JSONSuccess, ob) \<Rightarrow>
                         let s = skip_space s in
                         if take 1 s \<noteq> '','' then Some (Some (ob, s))
                         else parse_members pv n (skip_space (tl s)) nesting ob)) }) })"

definition parse_object_value :: "value_parser \<Rightarrow> value_parser" where
  "parse_object_value pv s nesting =
     (let s = skip_space (tl s) in
      if take 1 s = ''}'' then Some (Some (json_value_init_object, tl s))
      else do {
        r \<leftarrow> parse_members pv (length s + 1) s nesting ([], 0);
        (case r of
           None \<Rightarrow> Some None
         | Some (ob, s) \<Rightarrow>
             let s = skip_space s in
             if take 1 s \<noteq> ''}'' then Some None
             else (case json_object_resize ob (json_object_get_count (Some ob)) of
                 (JSONFailure, _) \<Rightarrow> Some None
               | (JSONSuccess, ob) \<Rightarrow> Some (Some (of_object ob, tl s)))) })"

fun parse_items :: "value_parser \<Rightarrow> nat \<Rightarrow> string \<Rightarrow> nat \<Rightarrow> json_array \<Rightarrow>
    (json_array \<times> string) option option" where
  "parse_items pv 0 s nesting a = None"
| "parse_items pv (Suc n) s nesting a =
     (if s = [] then Some (Some (a, s))
      else do {
        r \<leftarrow> pv s nesting;
        (case r of
           None \<Rightarrow> Some None
         | Some (v, s) \<Rightarrow>
             (case json_array_add a v of
                (JSONFailure, _) \<Rightarrow> Some None
              | (JSONSuccess, a) \<Rightarrow>
                  let s = skip_space s in
                  if take 1 s \<noteq> '','' then Some (Some (a, s))
                  else parse_items pv n (skip_space (tl s)) nesting a)) })"

definition parse_array_value :: "value_parser \<Rightarrow> value_parser" where
  "parse_array_value pv s nesting =
     (let s = skip_space (tl s) in
      if take 1 s = '']'' then Some (Some (json_value_init_array, tl s))
      else do {
        r \<leftarrow> parse_items pv (length s + 1) s nesting ([], 0);
        (case r of
           None \<Rightarrow> Some None
         | Some (a, s) \<Rightarrow>
             let s = skip_space s in
             if take 1 s \<noteq> '']'' then Some None
             else (case json_array_resize a (json_array_get_count (Some a)) of
                 (JSONFailure, _) \<Rightarrow> Some None
               | (JSONSuccess, a) \<Rightarrow> Some (Some (of_array a, tl s)))) })"

fun parse_value :: "nat \<Rightarrow> value_parser" where
  "parse_value 0 s nesting = None"
| "parse_value (Suc n) s nesting =
     (if nesting > MAX_NESTING then Some None
      else case skip_space s of
        [] \<Rightarrow> Some None
      | c # t \<Rightarrow>
          if c = CHR ''{'' then parse_object_value (parse_value n) (c # t) (nesting + 1)
          else if c = CHR ''['' then parse_array_value (parse_value n) (c # t) (nesting + 1)
          else if c = CHR 0x22 then parse_string_value (c # t)
          else if c = CHR ''f'' \<or> c = CHR ''t'' then Some (parse_boolean_value (c # t))
          else if c = CHR ''-'' \<or> isdigit c then Some (parse_number_value (c # t))
          else if c = CHR ''n'' then Some (parse_null_value (c # t))
          else Some None)"

definition parse_depth :: nat where
  "parse_depth = MAX_NESTING + 2"

definition json_parse_string :: "string option \<Rightarrow> json option option" where
  "json_parse_string string = (case string of
     None \<Rightarrow> Some None
   | Some s \<Rightarrow>
       let s = skip_space s in
       if take 1 s \<noteq> ''{'' \<and> take 1 s \<noteq> ''['' then Some None
       else map_option (map_option fst) (parse_value parse_depth s 0))"

section \<open>Comments and files\<close>

text \<open>\<open>strstr\<close>: the text before the first occurrence of the token and the text from it on.\<close>

fun find_token :: "string \<Rightarrow> string \<Rightarrow> nat option" where
  "find_token [] tok = (if tok = [] then Some 0 else None)"
| "find_token (c # s) tok =
     (if take (length tok) (c # s) = tok then Some 0 else map_option Suc (find_token s tok))"

text \<open>\<open>remove_comments\<close> blanks comments out in place.\<close>

function remove_comments :: "string \<Rightarrow> string \<Rightarrow> bool \<Rightarrow> bool \<Rightarrow> string \<Rightarrow> string" where
  "remove_comments st et in_string escaped s =
     (if st = [] \<or> et = [] then s
      else case s of
        [] \<Rightarrow> []
      | c # t \<Rightarrow>
          if c = CHR 0x5C \<and> \<not> escaped then c # remove_comments st et in_string True t
          else if c = CHR 0x22 \<and> \<not> escaped then c # remove_comments st et (\<not> in_string) False t
          else if \<not> in_string \<and> take (length st) s = st then
            let r = drop (length st) s in
            (case find_token r et of
               None \<Rightarrow> replicate (length st) (CHR '' '') @ r
             | Some k \<Rightarrow> replicate (length st) (CHR '' '') @ replicate (k + length et) (CHR '' '')
                 @ remove_comments st et in_string False (drop (k + length et) r))
          else c # remove_comments st et in_string False t)"
  by pat_completeness auto
termination by (relation "measure (\<lambda>(st, et, i, e, s). length s)") auto

declare remove_comments.simps [simp del]

definition json_parse_string_with_comments :: "string \<Rightarrow> json option option" where
  "json_parse_string_with_comments string =
     (let s = remove_comments ''/*'' ''*/'' False False string;
          s = skip_space (remove_comments ''//'' [LF] False False s) in
      if take 1 s \<noteq> ''{'' \<and> take 1 s \<noteq> ''['' then Some None
      else map_option (map_option fst) (parse_value parse_depth s 0))"

text \<open>The file system is a map from names to contents; a missing or unreadable file is \<open>None\<close>, and
  the contents are read as a C string.\<close>

type_synonym files = "string \<Rightarrow> string option"

definition read_file :: "files \<Rightarrow> string \<Rightarrow> string option" where
  "read_file fs filename = map_option (takeWhile (\<lambda>c. c \<noteq> NUL)) (fs filename)"

definition json_parse_file :: "files \<Rightarrow> string \<Rightarrow> json option option" where
  "json_parse_file fs filename = (case read_file fs filename of
     None \<Rightarrow> Some None
   | Some file_contents \<Rightarrow> json_parse_string (Some file_contents))"

definition json_parse_file_with_comments :: "files \<Rightarrow> string \<Rightarrow> json option option" where
  "json_parse_file_with_comments fs filename = (case read_file fs filename of
     None \<Rightarrow> Some None
   | Some file_contents \<Rightarrow> json_parse_string_with_comments file_contents)"

section \<open>Positions only move forward\<close>

lemma skip_space_length' [simp]: "length (skip_space s) \<le> length s"
  by (rule skip_space_length)

lemma read_exponent_length: "length (snd (read_exponent l s)) \<le> length s"
proof (cases s)
  case (Cons c t)
  obtain neg u where u: "split_sign t = (neg, u)" by (cases "split_sign t")
  then have "length u \<le> length t" by (auto simp: split_sign_def split: list.splits if_splits)
  moreover have "length (dropWhile isdigit u) \<le> length u" by (rule length_dropWhile_le)
  ultimately show ?thesis by (auto simp: Cons read_exponent_def u Let_def)
qed (simp add: read_exponent_def)

lemma read_mantissa_length:
  "read_mantissa dig val base s = (n, k, ok, r) \<Longrightarrow> length r \<le> length s"
proof -
  assume a: "read_mantissa dig val base s = (n, k, ok, r)"
  have "length (dropWhile dig s) \<le> length s" by (rule length_dropWhile_le)
  moreover have "length (dropWhile dig (tl (dropWhile dig s))) \<le> length (tl (dropWhile dig s))"
    by (rule length_dropWhile_le)
  moreover have "r = dropWhile dig s \<or> r = dropWhile dig (tl (dropWhile dig s))"
    using a by (auto simp: read_mantissa_def Let_def split: list.splits if_splits)
  ultimately show ?thesis by auto
qed

lemma nan_tail_length: "length (nan_tail s) \<le> length s"
proof (cases s)
  case (Cons c u)
  have "length (dropWhile isnanchar u) \<le> length u" by (rule length_dropWhile_le)
  then show ?thesis by (auto simp: nan_tail_def Cons split: list.splits)
qed (simp add: nan_tail_def)

lemma strtod_number_length:
  "length (snd (strtod_hex neg s)) \<le> length s" "length (snd (strtod_dec neg s)) \<le> length s"
proof -
  have m: "length (snd (read_exponent l r)) \<le> length s" if "read_mantissa dig val base s = (n, k, ok, r)"
    for l dig val base n k ok r
    using that by (intro le_trans [OF read_exponent_length read_mantissa_length])
  show "length (snd (strtod_hex neg s)) \<le> length s"
    using m [of isxdigit hex_val 16 _ _ _ _ "CHR ''p''"]
    by (auto simp: strtod_hex_def case_prod_unfold Let_def prod_eq_iff)
  show "length (snd (strtod_dec neg s)) \<le> length s"
    using m [of isdigit digit_val 10 _ _ _ _ "CHR ''e''"]
    by (auto simp: strtod_dec_def case_prod_unfold Let_def prod_eq_iff)
qed

lemma strtod_unsigned_length:
  "strtod_unsigned neg s = Some (d, r) \<Longrightarrow> length r \<le> length s"
  using strtod_number_length(1) [of neg "drop 2 s"] strtod_number_length(2) [of neg s]
    nan_tail_length [of "drop 3 s"]
  by (auto simp: strtod_unsigned_def split: if_splits)

lemma split_sign_length: "split_sign s = (neg, t) \<Longrightarrow> length t \<le> length s"
  by (auto simp: split_sign_def split: list.splits if_splits)

lemma strtod_length: "length (snd (strtod s)) \<le> length s"
proof -
  obtain neg t where t: "split_sign (skip_space s) = (neg, t)" by (cases "split_sign (skip_space s)")
  then have "length t \<le> length (skip_space s)" by (rule split_sign_length)
  then have "length t \<le> length s" using skip_space_length [of s] by linarith
  then show ?thesis
    by (auto simp: strtod_def t split: option.splits dest!: strtod_unsigned_length)
qed

lemma skip_quotes_loop_length: "length (skip_quotes_loop s) \<le> length s"
proof (induction s rule: skip_quotes_loop.induct)
  case (2 c t)
  show ?case
  proof (cases "c = CHR 0x22 \<or> c = CHR 0x5C")
    case True
    with 2(1) show ?thesis by (cases t) (auto intro: le_SucI)
  next
    case False
    with 2(2) show ?thesis by (auto intro: le_SucI)
  qed
qed simp

lemma get_quoted_string_Some:
  assumes "s \<noteq> []"
  shows "\<exists>q r. get_quoted_string s = Some (q, r) \<and> length r < length s"
  using assms skip_quotes_loop_length [of "tl s"]
  by (cases s) (auto simp: get_quoted_string_def skip_quotes_def)

section \<open>Parsing ends\<close>

text \<open>Every value, at whatever depth, lies at most \<open>MAX_NESTING\<close> levels deep.\<close>

fun nested_within :: "nat \<Rightarrow> json \<Rightarrow> bool" where
  "nested_within k (JObject kvs cap) \<longleftrightarrow> k \<le> MAX_NESTING \<and> (\<forall>kv \<in> set kvs. nested_within (Suc k) (snd kv))"
| "nested_within k (JArray xs cap) \<longleftrightarrow> k \<le> MAX_NESTING \<and> (\<forall>x \<in> set xs. nested_within (Suc k) x)"
| "nested_within k _ \<longleftrightarrow> k \<le> MAX_NESTING"

definition good_value :: "nat \<Rightarrow> json \<Rightarrow> bool" where
  "good_value k v \<longleftrightarrow> wf_json v \<and> nested_within k v"

definition good_members :: "nat \<Rightarrow> json_object \<Rightarrow> bool" where
  "good_members k ob \<longleftrightarrow> wf_object ob \<and> (\<forall>kv \<in> set (fst ob). nested_within k (snd kv))"

definition good_items :: "nat \<Rightarrow> json_array \<Rightarrow> bool" where
  "good_items k a \<longleftrightarrow> wf_array a \<and> (\<forall>v \<in> set (fst a). nested_within k v)"

lemma json_object_add_good:
  assumes "good_members k ob" and "nul_free name" and "good_value k v"
    and "json_object_add ob name v = (st, ob')"
  shows "good_members k ob'"
  using assms json_object_add_wf [of ob name v st ob']
  by (auto simp: good_members_def good_value_def json_object_add_def split: option.splits if_splits)

lemma json_array_add_good:
  assumes "good_items k a" and "good_value k v" and "json_array_add a v = (st, a')"
  shows "good_items k a'"
  using assms json_array_add_wf [of a v st a']
  by (auto simp: good_items_def good_value_def json_array_add_def split: option.splits)

text \<open>A value parser is sound at a nesting level if it always returns, and moves forward. The result
  of a successful call is a well-formed value.\<close>

definition good_parser :: "value_parser \<Rightarrow> nat \<Rightarrow> bool" where
  "good_parser pv k \<longleftrightarrow> (\<forall>s. \<exists>r. pv s k = Some r \<and>
     (\<forall>v t. r = Some (v, t) \<longrightarrow> length t \<le> length s \<and> good_value k v))"

lemma good_parserE:
  assumes "good_parser pv k"
  obtains "pv s k = Some None" | v t where "pv s k = Some (Some (v, t))" "length t \<le> length s" "good_value k v"
  using assms by (auto simp: good_parser_def) (metis option.exhaust surj_pair)

lemma process_string_nul_free: "process_string s n = Some q \<Longrightarrow> nul_free q"
  by (auto simp: process_string_def nul_free_def dest: set_takeWhileD)

lemma get_quoted_string_nul_free: "get_quoted_string s = Some (Some q, r) \<Longrightarrow> nul_free q"
  by (auto simp: get_quoted_string_def c_mem intro: process_string_nul_free split: if_splits)

lemma parse_members_total:
  assumes "good_parser pv k"
  shows "length s < n \<Longrightarrow> good_members k ob \<Longrightarrow> \<exists>r. parse_members pv n s k ob = Some r \<and>
    (\<forall>ob' t. r = Some (ob', t) \<longrightarrow> length t \<le> length s \<and> good_members k ob')"
proof (induction n arbitrary: s ob)
  case (Suc n)
  show ?case
  proof (cases "s = []")
    case True
    with Suc.prems show ?thesis by (cases ob) simp
  next
    case False
    obtain q r where q: "get_quoted_string s = Some (q, r)" "length r < length s"
      using get_quoted_string_Some [OF False] by blast
    let ?r = "skip_space r"
    have r: "length ?r < length s" using q(2) skip_space_length [of r] by linarith
    show ?thesis
    proof (cases "q = None \<or> take 1 ?r \<noteq> '':''")
      case True
      with False q show ?thesis by (cases q) (auto simp: Let_def)
    next
      case ok: False
      then obtain name where name: "q = Some name" by auto
      from assms show ?thesis
      proof (cases rule: good_parserE [where s = "tl ?r"])
        case 1
        with False q ok name show ?thesis by (auto simp: Let_def)
      next
        case (2 v t)
        obtain st ob1 where add: "json_object_add ob name v = (st, ob1)" by (cases "json_object_add ob name v")
        have wf: "good_members k ob1"
          using Suc.prems(2) get_quoted_string_nul_free [of s name r] q name 2 add by (blast intro: json_object_add_good)
        let ?t = "skip_space t" and ?u = "skip_space (tl (skip_space t))"
        have t: "length ?t < length s"
          using 2(2) r by (intro le_less_trans [OF skip_space_length]) simp
        have u: "length ?u < length s"
          using t skip_space_length [of "tl ?t"] by (simp add: le_less_trans)
        with Suc.prems have "length ?u < n" by linarith
        from Suc.IH [OF this wf] u show ?thesis
          using False q ok name 2 add t wf by (cases st) (auto simp: Let_def less_imp_le)
      qed
    qed
  qed
qed simp

lemma parse_items_total:
  assumes "good_parser pv k"
  shows "length s < n \<Longrightarrow> good_items k a \<Longrightarrow> \<exists>r. parse_items pv n s k a = Some r \<and>
    (\<forall>a' t. r = Some (a', t) \<longrightarrow> length t \<le> length s \<and> good_items k a')"
proof (induction n arbitrary: s a)
  case (Suc n)
  show ?case
  proof (cases "s = []")
    case True
    with Suc.prems show ?thesis by (cases a) simp
  next
    case False
    from assms show ?thesis
    proof (cases rule: good_parserE [where s = s])
      case 1
      with False show ?thesis by simp
    next
      case (2 v t)
      obtain st a1 where add: "json_array_add a v = (st, a1)" by (cases "json_array_add a v")
      have wf: "good_items k a1" using Suc.prems(2) 2(3) add by (rule json_array_add_good)
      let ?t = "skip_space t" and ?u = "skip_space (tl (skip_space t))"
      have t: "length ?t \<le> length s" using 2(2) skip_space_length [of t] by linarith
      show ?thesis
      proof (cases "take 1 ?t = '',''")
        case True
        then have "?t \<noteq> []" by auto
        then have u: "length ?u < length s"
          using t by (cases ?t) (auto intro: le_less_trans [OF skip_space_length])
        with Suc.prems have "length ?u < n" by linarith
        from Suc.IH [OF this wf] u show ?thesis
          using False 2 add True by (cases st) (auto simp: Let_def)
      next
        case other: False
        show ?thesis using False 2 add other t wf by (cases st) (auto simp: Let_def)
      qed
    qed
  qed
qed simp


lemma good_members_resize:
  assumes "good_members k ob" and "json_object_resize ob (json_object_get_count (Some ob)) = (st, ob')"
  shows "good_members k ob'"
  using assms
  by (cases ob) (auto simp: good_members_def json_object_resize_def json_object_get_count_def of_object_def split: if_splits)

lemma good_items_resize:
  assumes "good_items k a" and "json_array_resize a (json_array_get_count (Some a)) = (st, a')"
  shows "good_items k a'"
  using assms
  by (cases a) (auto simp: good_items_def json_array_resize_def json_array_get_count_def of_array_def split: if_splits)

lemma parse_object_value_total:
  assumes "good_parser pv (Suc k)" and "k \<le> MAX_NESTING"
  shows "\<exists>r. parse_object_value pv s (Suc k) = Some r \<and>
    (\<forall>v t. r = Some (v, t) \<longrightarrow> length t \<le> length s \<and> good_value k v)"
proof -
  let ?s = "skip_space (tl s)"
  have s: "length ?s \<le> length s" by (rule le_trans [OF skip_space_length]) simp
  have e: "good_members (Suc k) ([], 0)" by (simp add: good_members_def of_object_def)
  obtain r where r: "parse_members pv (length ?s + 1) ?s (Suc k) ([], 0) = Some r"
    "\<forall>ob t. r = Some (ob, t) \<longrightarrow> length t \<le> length ?s \<and> good_members (Suc k) ob"
    using parse_members_total [OF assms(1) _ e, of ?s "length ?s + 1"] by auto
  show ?thesis
  proof (cases "take 1 ?s = ''}''")
    case True
    then show ?thesis using assms(2) s
      by (auto simp: parse_object_value_def Let_def json_value_init_object_def good_value_def)
  next
    case False
    show ?thesis
    proof (cases r)
      case None
      with r False show ?thesis by (simp add: parse_object_value_def Let_def)
    next
      case (Some obt)
      obtain ob t where obt: "obt = (ob, t)" by (cases obt)
      let ?t = "skip_space t"
      obtain st ob' where rs: "json_object_resize ob (json_object_get_count (Some ob)) = (st, ob')"
        by (cases "json_object_resize ob (json_object_get_count (Some ob))")
      have "length t \<le> length ?s" and g: "good_members (Suc k) ob" using r(2) Some obt by auto
      then have "length (tl ?t) \<le> length s"
        using s skip_space_length [of t] by (simp only: length_tl)
      moreover have "good_value k (of_object ob')"
        using good_members_resize [OF g rs] assms(2)
        by (auto simp: good_members_def good_value_def of_object_def)
      ultimately show ?thesis
        using r(1) False Some obt rs by (cases st) (auto simp: parse_object_value_def Let_def)
    qed
  qed
qed

lemma parse_array_value_total:
  assumes "good_parser pv (Suc k)" and "k \<le> MAX_NESTING"
  shows "\<exists>r. parse_array_value pv s (Suc k) = Some r \<and>
    (\<forall>v t. r = Some (v, t) \<longrightarrow> length t \<le> length s \<and> good_value k v)"
proof -
  let ?s = "skip_space (tl s)"
  have s: "length ?s \<le> length s" by (rule le_trans [OF skip_space_length]) simp
  have e: "good_items (Suc k) ([], 0)" by (simp add: good_items_def of_array_def)
  obtain r where r: "parse_items pv (length ?s + 1) ?s (Suc k) ([], 0) = Some r"
    "\<forall>a t. r = Some (a, t) \<longrightarrow> length t \<le> length ?s \<and> good_items (Suc k) a"
    using parse_items_total [OF assms(1) _ e, of ?s "length ?s + 1"] by auto
  show ?thesis
  proof (cases "take 1 ?s = '']''")
    case True
    then show ?thesis using assms(2) s
      by (auto simp: parse_array_value_def Let_def json_value_init_array_def good_value_def)
  next
    case False
    show ?thesis
    proof (cases r)
      case None
      with r False show ?thesis by (simp add: parse_array_value_def Let_def)
    next
      case (Some at)
      obtain a t where at: "at = (a, t)" by (cases at)
      let ?t = "skip_space t"
      obtain st a' where rs: "json_array_resize a (json_array_get_count (Some a)) = (st, a')"
        by (cases "json_array_resize a (json_array_get_count (Some a))")
      have "length t \<le> length ?s" and g: "good_items (Suc k) a" using r(2) Some at by auto
      then have "length (tl ?t) \<le> length s"
        using s skip_space_length [of t] by (simp only: length_tl)
      moreover have "good_value k (of_array a')"
        using good_items_resize [OF g rs] assms(2)
        by (auto simp: good_items_def good_value_def of_array_def)
      ultimately show ?thesis
        using r(1) False Some at rs by (cases st) (auto simp: parse_array_value_def Let_def)
    qed
  qed
qed

text \<open>The scalar parsers.\<close>

lemma parse_scalar_good:
  assumes "k \<le> MAX_NESTING"
  shows "parse_boolean_value s = Some (v, t) \<Longrightarrow> length t \<le> length s \<and> good_value k v"
    and "parse_number_value s = Some (v, t) \<Longrightarrow> length t \<le> length s \<and> good_value k v"
    and "parse_null_value s = Some (v, t) \<Longrightarrow> length t \<le> length s \<and> good_value k v"
    and "s \<noteq> [] \<Longrightarrow> \<exists>r. parse_string_value s = Some r \<and>
      (\<forall>v t. r = Some (v, t) \<longrightarrow> length t \<le> length s \<and> good_value k v)"
proof -
  show "parse_boolean_value s = Some (v, t) \<Longrightarrow> length t \<le> length s \<and> good_value k v"
    "parse_null_value s = Some (v, t) \<Longrightarrow> length t \<le> length s \<and> good_value k v"
    using assms by (auto simp: parse_boolean_value_def parse_null_value_def good_value_def split: if_splits)
  show "parse_number_value s = Some (v, t) \<Longrightarrow> length t \<le> length s \<and> good_value k v"
    using assms strtod_length [of s]
    by (auto simp: parse_number_value_def good_value_def case_prod_unfold Let_def split: if_splits)
  assume "s \<noteq> []"
  then obtain q r where "get_quoted_string s = Some (q, r)" "length r < length s"
    using get_quoted_string_Some by blast
  then show "\<exists>r. parse_string_value s = Some r \<and>
      (\<forall>v t. r = Some (v, t) \<longrightarrow> length t \<le> length s \<and> good_value k v)"
    using assms get_quoted_string_nul_free [of s _ r]
    by (cases q) (auto simp: parse_string_value_def good_value_def)
qed

lemma parse_value_total:
  "MAX_NESTING + 2 \<le> n + k \<Longrightarrow> 0 < n \<Longrightarrow> good_parser (parse_value n) k"
proof (induction n arbitrary: k)
  case (Suc n)
  show ?case
    unfolding good_parser_def
  proof
    fix s
    show "\<exists>r. parse_value (Suc n) s k = Some r \<and>
        (\<forall>v t. r = Some (v, t) \<longrightarrow> length t \<le> length s \<and> good_value k v)"
    proof (cases "k > MAX_NESTING \<or> skip_space s = []")
      case True
      then show ?thesis by (elim disjE) simp_all
    next
      case False
      then have k: "k \<le> MAX_NESTING" by simp
      with Suc.prems have "good_parser (parse_value n) (Suc k)" by (intro Suc.IH) auto
      note cont = parse_object_value_total [OF this k] parse_array_value_total [OF this k]
      obtain c t where ct: "skip_space s = c # t" using False by (cases "skip_space s") auto
      have len: "length (c # t) \<le> length s" using skip_space_length [of s] by (simp add: ct)
      define ok where "ok res \<longleftrightarrow> (\<exists>r. res = Some r \<and>
          (\<forall>v u. r = Some (v, u) \<longrightarrow> length u \<le> Suc (length t) \<and> good_value k v))" for res :: "(json \<times> string) option option"
      have cases: "ok (parse_object_value (parse_value n) (c # t) (Suc k))"
          "ok (parse_array_value (parse_value n) (c # t) (Suc k))" "ok (parse_string_value (c # t))"
          "ok (Some (parse_boolean_value (c # t)))" "ok (Some (parse_number_value (c # t)))"
          "ok (Some (parse_null_value (c # t)))" "ok (Some None)" for c
        using cont [of "c # t"] parse_scalar_good [OF k, of "c # t"] by (simp_all add: ok_def)
      have "ok (parse_value (Suc n) s k)" using k by (simp add: ct cases not_less)
      then show ?thesis unfolding ok_def using len by (metis le_trans length_Cons)
    qed
  qed
qed simp

section \<open>Printing and reading integers\<close>

lemma read_digits_snoc [simp]: "read_digits n (ds @ [d]) = 10 * read_digits n ds + digit_val d"
  by (simp add: read_digits_def)

lemma read_digits_show_nat [simp]: "read_digits 0 (show_nat n) = n"
proof (induction n rule: show_nat.induct)
  case (1 n)
  have one: "read_digits 0 [d] = digit_val d" for d by (simp add: read_digits_def)
  show ?case using 1 by (subst show_nat.simps) (simp add: digit_char_props one)
qed

lemma show_nat_hd: "hd (show_nat n) = CHR ''0'' \<longleftrightarrow> n = 0"
proof (induction n rule: show_nat.induct)
  case (1 n)
  then show ?case
    by (subst show_nat.simps) (auto simp: digit_char_props hd_append)
qed

lemma show_nat_0: "show_nat 0 = ''0''"
  by (simp add: show_nat.simps digit_char_def char_of_eq_iff)

text \<open>A text that does not continue a number.\<close>

definition num_end :: "string \<Rightarrow> bool" where
  "num_end r \<longleftrightarrow> (r = [] \<or> (let c = hd r in \<not> isdigit c \<and> c \<noteq> CHR ''.'' \<and> tolower c \<noteq> CHR ''e'' \<and> tolower c \<noteq> CHR ''x''))"

lemma takeWhile_digits_append:
  assumes "\<forall>c \<in> set ds. isdigit c" and "num_end r"
  shows "takeWhile isdigit (ds @ r) = ds" and "dropWhile isdigit (ds @ r) = r"
proof -
  have "takeWhile isdigit r = [] \<and> dropWhile isdigit r = r"
    using assms(2) by (cases r) (auto simp: num_end_def Let_def)
  with assms(1) show "takeWhile isdigit (ds @ r) = ds" "dropWhile isdigit (ds @ r) = r"
    by (simp_all add: takeWhile_append2 dropWhile_append2)
qed

lemma isdigit_not_special: "isdigit c \<Longrightarrow> c \<noteq> CHR ''-'' \<and> c \<noteq> CHR ''+'' \<and> \<not> isspace c \<and> c \<noteq> CHR ''x''
    \<and> c \<noteq> CHR ''X'' \<and> c \<noteq> CHR ''.''"
  by (auto simp: isdigit_def isspace_def less_eq_char_def)

lemma strtod_unsigned_show_nat:
  assumes "num_end r"
  shows "strtod_unsigned neg (show_nat n @ r) = Some (d_round neg n 1, r)"
proof -
  note tw = takeWhile_digits_append [OF show_nat_digits [of n] assms]
  obtain c ds where n: "show_nat n = c # ds" by (cases "show_nat n") auto
  have "\<not> has_prefix_ci (c # ds @ r) ''0x''"
  proof (cases ds)
    case Nil
    with assms show ?thesis by (cases r) (auto simp: num_end_def Let_def)
  next
    case (Cons d ds')
    have d: "isdigit d" using show_nat_digits [of n] by (simp add: n Cons)
    then have "tolower d = d" by (auto simp: tolower_def isupper_def isdigit_def less_eq_char_def)
    with d have "tolower d \<noteq> CHR ''x''" using isdigit_not_special by metis
    then show ?thesis by (simp add: Cons)
  qed
  then have "\<not> has_prefix_ci (show_nat n @ r) ''0x''" by (simp add: n)
  moreover have "read_mantissa isdigit digit_val 10 (show_nat n @ r) = (n, 0, True, r)"
  proof -
    have "(case r of c # t \<Rightarrow> if c = CHR ''.'' \<and> P t then Q t else ([], r) | [] \<Rightarrow> ([], r)) = ([], r)" for P and Q :: "string \<Rightarrow> string \<times> string"
      using assms by (cases r) (auto simp: num_end_def)
    then show ?thesis
      using read_digits_show_nat [of n] by (simp add: read_mantissa_def tw Let_def read_digits_def)
  qed
  moreover have "read_exponent CHR ''e'' r = (0, r)"
    using assms by (cases r) (auto simp: num_end_def read_exponent_def)
  ultimately show ?thesis
    by (simp add: strtod_unsigned_def strtod_dec_def pow_ratio_def)
qed

lemma skip_space_id: "s \<noteq> [] \<Longrightarrow> \<not> isspace (hd s) \<Longrightarrow> skip_space s = s"
  by (cases s) (auto simp: skip_space_def)

lemma strtod_show_int:
  assumes "num_end r"
  shows "strtod (show_int i @ r) = (d_of_int i, r)"
proof -
  have hd: "isdigit (hd (show_nat n))" for n
    using show_nat_digits [of n] hd_in_set [OF show_nat_not_Nil] by blast
  show ?thesis
  proof (cases "i < 0")
    case True
    then have "skip_space (show_int i @ r) = CHR ''-'' # show_nat (nat (- i)) @ r"
      by (simp add: show_int_def skip_space_def isspace_def less_eq_char_def)
    then show ?thesis using True strtod_unsigned_show_nat [OF assms]
      by (simp add: strtod_def split_sign_def d_of_int_def)
  next
    case False
    obtain c t where ct: "show_nat (nat i) = c # t" by (cases "show_nat (nat i)") auto
    have c: "isdigit c" using hd [of "nat i"] by (simp add: ct)
    have "skip_space (show_int i @ r) = show_nat (nat i) @ r"
      using False isdigit_not_special [OF c] by (simp add: show_int_def skip_space_def ct)
    moreover have "split_sign (show_nat (nat i) @ r) = (False, show_nat (nat i) @ r)"
      using isdigit_not_special [OF c] by (simp add: ct split_sign_def)
    ultimately show ?thesis using False strtod_unsigned_show_nat [OF assms]
      by (simp add: strtod_def d_of_int_def)
  qed
qed

lemma is_decimal_show_int: "is_decimal (show_int i @ r) (length (show_int i))"
proof -
  have ne: "c \<noteq> CHR ''x''" "c \<noteq> CHR ''X''" if "c \<in> set (show_nat n)" for c n
    using show_nat_digits [of n] isdigit_not_special that by blast+
  have x: "\<not> list_ex (\<lambda>c. c = CHR ''x'' \<or> c = CHR ''X'') (take (length (show_int i)) (show_int i @ r))"
    by (auto simp: show_int_def list_ex_iff dest: ne)
  have z: "show_nat n = ''0''" if "hd (show_nat n) = CHR ''0''" for n
    using that by (simp add: show_nat_hd show_nat_0)
  show ?thesis
  proof (cases "i < 0")
    case True
    obtain c t where ct: "show_nat (nat (- i)) = c # t" by (cases "show_nat (nat (- i))") auto
    have "c \<noteq> CHR ''0''" using True show_nat_hd [of "nat (- i)"] by (simp add: ct)
    with True x show ?thesis by (simp add: is_decimal_def show_int_def ct)
  next
    case False
    obtain c t where ct: "show_nat (nat i) = c # t" by (cases "show_nat (nat i)") auto
    have "c = CHR ''0'' \<Longrightarrow> t = []" using z [of "nat i"] by (simp add: ct)
    moreover have "c \<noteq> CHR ''-''" using show_nat_digits [of "nat i"] isdigit_not_special by (auto simp: ct)
    ultimately show ?thesis using False x by (auto simp: is_decimal_def show_int_def ct)
  qed
qed

section \<open>Reading back what the serializer wrote\<close>

text \<open>The values whose text the parser accepts: strings without unprintable control characters
  (the serializer writes those unescaped and the parser refuses them), numbers that are integers of
  the \<open>int\<close> range (others are printed with eight decimals), distinct names, and counts up to the
  capacity limits.\<close>

definition printable_char :: "char \<Rightarrow> bool" where
  "printable_char c \<longleftrightarrow> (0x20 :: nat) \<le> of_char c \<or> c \<in> {CHR 0x08, CHR 0x09, CHR 0x0A, CHR 0x0C, CHR 0x0D}"

definition printable_string :: "string \<Rightarrow> bool" where
  "printable_string s \<longleftrightarrow> list_all printable_char s"

definition printable_number :: "double \<Rightarrow> bool" where
  "printable_number d \<longleftrightarrow> d = d_of_int (d_to_int d)"

fun printable :: "json \<Rightarrow> bool" where
  "printable (JString s) \<longleftrightarrow> printable_string s"
| "printable (JNumber d) \<longleftrightarrow> printable_number d"
| "printable (JObject kvs cap) \<longleftrightarrow> distinct (map fst kvs) \<and> length kvs \<le> OBJECT_MAX_CAPACITY
     \<and> (\<forall>kv \<in> set kvs. printable_string (fst kv) \<and> printable (snd kv))"
| "printable (JArray xs cap) \<longleftrightarrow> length xs \<le> ARRAY_MAX_CAPACITY \<and> (\<forall>x \<in> set xs. printable x)"
| "printable _ \<longleftrightarrow> True"

text \<open>The parser trims every container to its count.\<close>

fun json_trim :: "json \<Rightarrow> json" where
  "json_trim (JObject kvs cap) = JObject (map (\<lambda>kv. (fst kv, json_trim (snd kv))) kvs) (length kvs)"
| "json_trim (JArray xs cap) = JArray (map json_trim xs) (length xs)"
| "json_trim v = v"

definition val_end :: "string \<Rightarrow> bool" where
  "val_end r \<longleftrightarrow> r \<noteq> [] \<and> num_end r"

subsection \<open>Strings\<close>

lemma skip_quotes_escaped: "skip_quotes_loop (concat (map json_escape s) @ CHR 0x22 # r) = r"
  by (induction s) (auto simp: json_escape_def)

lemma process_escape_step:
  assumes "printable_char c"
  shows "process_loop (length (json_escape c) + n) (json_escape c @ s) = map_option (Cons c) (process_loop n s)"
proof (cases "c \<in> {CHR 0x22, CHR 0x5C, CHR 0x08, CHR 0x0C, CHR 0x0A, CHR 0x0D, CHR 0x09}")
  case True
  then show ?thesis
    by (subst process_loop.simps) (auto simp: json_escape_def json_unescape_def)
next
  case False
  then have "json_escape c = [c]" and "\<not> of_char c < (0x20 :: nat)" "c \<noteq> CHR 0x5C"
    using assms by (auto simp: json_escape_def printable_char_def)
  then show ?thesis by (subst process_loop.simps) simp
qed

lemma process_escaped:
  "list_all printable_char s \<Longrightarrow>
    process_loop (length (concat (map json_escape s))) (concat (map json_escape s) @ r) = Some s"
  by (induction s) (simp_all add: process_loop.simps [of 0] process_escape_step)

lemma printable_nul_free: "printable_string s \<Longrightarrow> nul_free s"
  by (induction s) (auto simp: printable_string_def printable_char_def)

lemma get_quoted_serialized:
  assumes "printable_string s" and "r \<noteq> []"
  shows "get_quoted_string (json_serialize_string s @ r) = Some (Some s, r)"
proof -
  let ?e = "concat (map json_escape s)"
  have "process_string (?e @ CHR 0x22 # r) (length ?e) = Some s"
    using process_escaped [of s "CHR 0x22 # r"] printable_nul_free [OF assms(1)] assms(1)
    by (auto simp: process_string_def printable_string_def takeWhile_eq_all_conv nul_free_def)
  with assms(2) show ?thesis
    by (simp add: get_quoted_string_def skip_quotes_def json_serialize_string_def skip_quotes_escaped)
qed

subsection \<open>Scalars\<close>

lemma d_to_int_range: "\<bar>d_to_int w\<bar> < 2 ^ 53"
  by (auto simp: d_to_int_def sat32_def split: fpval.split)

lemma printable_number_text:
  assumes "printable_number d"
  shows "ser_number d = show_int (d_to_int d)"
proof -
  have "dint d (d_to_int d)"
    using dint_of_int [of "d_to_int d"] d_to_int_range [of d] assms by (simp add: printable_number_def)
  from d_eq_dint [OF this this] assms have "d_eq d (d_of_int (d_to_int d))"
    unfolding printable_number_def by metis
  then have "is_int_double d" by (simp add: is_int_double_def)
  then show ?thesis by (simp add: ser_number_def)
qed

lemma parse_value_int:
  assumes "k \<le> MAX_NESTING" and "num_end r"
  shows "parse_value (Suc n) (show_int i @ r) k = Some (Some (JNumber (d_of_int i), r))"
proof -
  obtain c t where ct: "show_int i = c # t" by (cases "show_int i") (auto simp: show_int_def split: if_splits)
  have c: "c = CHR ''-'' \<or> isdigit c"
  proof (cases "i < 0")
    case True
    then show ?thesis using ct by (simp add: show_int_def)
  next
    case False
    then show ?thesis using ct show_nat_digits [of "nat i"] by (auto simp: show_int_def)
  qed
  then have ne: "c \<notin> {CHR ''{'', CHR ''['', CHR 0x22, CHR ''f'', CHR ''t''}" "\<not> isspace c"
    by (auto simp: isdigit_def isspace_def less_eq_char_def)
  then have "skip_space (c # t @ r) = c # t @ r" by (simp add: skip_space_def)
  then have "parse_value (Suc n) (show_int i @ r) k = Some (parse_number_value (show_int i @ r))"
    using assms(1) c ne by (auto simp: ct)
  also have "\<dots> = Some (Some (JNumber (d_of_int i), r))"
    using is_decimal_show_int [of i r] by (simp add: parse_number_value_def strtod_show_int [OF assms(2)])
  finally show ?thesis .
qed

lemma parse_value_string:
  assumes "k \<le> MAX_NESTING" and "r \<noteq> []" and "printable_string s"
  shows "parse_value (Suc n) (json_serialize_string s @ r) k = Some (Some (JString s, r))"
proof -
  obtain t where t: "json_serialize_string s = CHR 0x22 # t" by (simp add: json_serialize_string_def)
  have "parse_value (Suc n) (json_serialize_string s @ r) k = parse_string_value (json_serialize_string s @ r)"
    using assms(1) by (simp add: t skip_space_def isspace_def less_eq_char_def)
  then show ?thesis using get_quoted_serialized [OF assms(3,2)] by (simp add: parse_string_value_def)
qed

lemma parse_value_words:
  assumes "k \<le> MAX_NESTING"
  shows "parse_value (Suc n) (''null'' @ r) k = Some (Some (JNull, r))"
    and "parse_value (Suc n) ((if b then ''true'' else ''false'') @ r) k = Some (Some (JBoolean b, r))"
  using assms
  by (simp_all add: skip_space_def isspace_def isdigit_def less_eq_char_def
      parse_null_value_def parse_boolean_value_def)


subsection \<open>Containers\<close>

text \<open>Capacities on the way: 0, then 15 doubled; within the limit the next element always fits.\<close>

definition grown :: "nat \<Rightarrow> bool" where
  "grown cap \<longleftrightarrow> cap = 0 \<or> (\<exists>j. cap = STARTING_CAPACITY * 2 ^ j)"

lemma grow_capacity_grown:
  assumes "grown cap" and "n \<le> cap" and "cap \<le> STARTING_CAPACITY * 2 ^ m" and "n < STARTING_CAPACITY * 2 ^ m"
  shows "\<exists>cap'. grow_capacity (STARTING_CAPACITY * 2 ^ m) n cap = Some cap' \<and> grown cap' \<and> n < cap'
    \<and> cap' \<le> STARTING_CAPACITY * 2 ^ m"
proof (cases "n = cap")
  case False
  with assms show ?thesis by (auto simp: grow_capacity_def)
next
  case full: True
  show ?thesis
  proof (cases "cap = 0")
    case True
    have "grown STARTING_CAPACITY" unfolding grown_def by (rule disjI2, rule exI [of _ 0]) simp
    with True full show ?thesis by (simp add: grow_capacity_def STARTING_CAPACITY_def)
  next
    case False
    then obtain j where j: "cap = STARTING_CAPACITY * 2 ^ j" using assms(1) by (auto simp: grown_def)
    with full assms(4) have "(2::nat) ^ j < 2 ^ m" by (simp add: STARTING_CAPACITY_def)
    then have "Suc j \<le> m" by (simp add: Suc_le_eq)
    then have le: "cap * 2 \<le> STARTING_CAPACITY * 2 ^ m"
      using power_increasing [of "Suc j" m "2::nat"] by (simp add: j ac_simps)
    moreover have "STARTING_CAPACITY \<le> cap * 2" by (simp add: j)
    moreover have "grown (cap * 2)" unfolding grown_def by (rule disjI2, rule exI [of _ "Suc j"]) (simp add: j)
    moreover have "0 < cap" using False by simp
    ultimately show ?thesis using full by (auto simp: grow_capacity_def Let_def max_def)
  qed
qed

lemma limits_grown:
  "OBJECT_MAX_CAPACITY = STARTING_CAPACITY * 2 ^ 6" "ARRAY_MAX_CAPACITY = STARTING_CAPACITY * 2 ^ 13"
  by (simp_all add: OBJECT_MAX_CAPACITY_def ARRAY_MAX_CAPACITY_def STARTING_CAPACITY_def)

lemma json_array_add_grown:
  assumes "grown cap" and "length xs \<le> cap" and "cap \<le> ARRAY_MAX_CAPACITY" and "length xs < ARRAY_MAX_CAPACITY"
  shows "\<exists>cap'. json_array_add (xs, cap) v = (JSONSuccess, (xs @ [v], cap')) \<and> grown cap'
    \<and> Suc (length xs) \<le> cap' \<and> cap' \<le> ARRAY_MAX_CAPACITY"
  using grow_capacity_grown [of cap "length xs" 13] assms
  by (auto simp: limits_grown(2) json_array_add_def Suc_le_eq)

lemma json_object_add_grown:
  assumes "grown cap" and "length kvs \<le> cap" and "cap \<le> OBJECT_MAX_CAPACITY"
    and "length kvs < OBJECT_MAX_CAPACITY" and "k \<notin> fst ` set kvs"
  shows "\<exists>cap'. json_object_add (kvs, cap) k v = (JSONSuccess, (kvs @ [(k, v)], cap')) \<and> grown cap'
    \<and> Suc (length kvs) \<le> cap' \<and> cap' \<le> OBJECT_MAX_CAPACITY"
proof -
  have "map_of kvs k = None" using assms(5) by (simp add: map_of_eq_None_iff)
  then show ?thesis
    using grow_capacity_grown [of cap "length kvs" 6] assms(1-4)
    by (auto simp: limits_grown(1) json_object_add_def Suc_le_eq)
qed

text \<open>White space between tokens.\<close>

lemma skip_space_indent [simp]: "skip_space (pretty_indent p n @ r) = skip_space r"
  by (induction n) (auto simp: pretty_indent_def append_indent_def skip_space_def isspace_def)

lemma skip_space_lf [simp]: "skip_space (pretty_lf p @ r) = skip_space r"
  by (simp add: pretty_lf_def skip_space_def isspace_def less_eq_char_def)

lemma skip_space_idem [simp]: "skip_space (skip_space r) = skip_space r"
  by (simp add: skip_space_def dropWhile_idem)

lemma skip_space_token [simp]:
  "skip_space (CHR '','' # r) = CHR '','' # r" "skip_space (CHR '']'' # r) = CHR '']'' # r"
  "skip_space (CHR ''}'' # r) = CHR ''}'' # r" "skip_space (CHR '':'' # r) = CHR '':'' # r"
  "skip_space (CHR ''['' # r) = CHR ''['' # r" "skip_space (CHR ''{'' # r) = CHR ''{'' # r"
  "skip_space (CHR 0x22 # r) = CHR 0x22 # r" "skip_space (CHR '' '' # r) = skip_space r"
  by (simp_all add: skip_space_def isspace_def less_eq_char_def)

lemma parse_value_skip [simp]: "parse_value n (skip_space s) k = parse_value n s k"
  by (cases n) simp_all

lemma parse_value_nonempty: "parse_value n s k = Some (Some x) \<Longrightarrow> skip_space s \<noteq> []"
  by (cases n) (auto split: if_splits)

lemma val_end_token:
  "val_end (CHR '','' # r)" "val_end (CHR '']'' # r)" "val_end (CHR ''}'' # r)" "val_end (LF # r)"
  by (simp_all add: val_end_def num_end_def isdigit_def tolower_def isupper_def less_eq_char_def)

lemma val_end_skip:
  assumes "skip_space r = c # r'" and "c = CHR '']'' \<or> c = CHR ''}''"
  shows "val_end r"
proof (cases r)
  case Nil
  with assms show ?thesis by (simp add: skip_space_def)
next
  case (Cons d u)
  show ?thesis
  proof (cases "isspace d")
    case True
    then have "d \<in> {CHR '' ''} \<or> d \<le> CHR 0x0D" by (auto simp: isspace_def)
    then show ?thesis
      by (auto simp: Cons val_end_def num_end_def isdigit_def tolower_def isupper_def less_eq_char_def)
  next
    case False
    with assms Cons have "r = c # u" by (simp add: skip_space_def)
    with assms(2) val_end_token show ?thesis by auto
  qed
qed

text \<open>The loops do not depend on their fuel once it covers the text.\<close>

lemma parse_items_mono:
  "parse_items pv f s k a = Some x \<Longrightarrow> f \<le> f' \<Longrightarrow> parse_items pv f' s k a = Some x"
proof (induction f arbitrary: s a f')
  case (Suc f)
  then obtain g where g: "f' = Suc g" "f \<le> g" by (cases f') auto
  from Suc.prems(1) Suc.IH [OF _ g(2)] show ?case
    by (auto simp: g(1) Let_def split: Option.bind_splits option.splits prod.splits json_status.splits if_splits)
qed simp

lemma parse_members_mono:
  "parse_members pv f s k ob = Some x \<Longrightarrow> f \<le> f' \<Longrightarrow> parse_members pv f' s k ob = Some x"
proof (induction f arbitrary: s ob f')
  case (Suc f)
  then obtain g where g: "f' = Suc g" "f \<le> g" by (cases f') auto
  from Suc.prems(1) Suc.IH [OF _ g(2)] show ?case
    by (auto simp: g(1) Let_def split: Option.bind_splits option.splits prod.splits json_status.splits if_splits)
qed simp

lemma parse_items_fuel:
  assumes "parse_items pv f s k a = Some x" and "good_parser pv k" and "good_items k a" and "length s < g"
  shows "parse_items pv g s k a = Some x"
proof -
  obtain y where "parse_items pv g s k a = Some y" using parse_items_total [OF assms(2,4,3)] by blast
  with assms(1) show ?thesis
    using parse_items_mono [of pv f s k a x "max f g"] parse_items_mono [of pv g s k a y "max f g"] by simp
qed

lemma parse_members_fuel:
  assumes "parse_members pv f s k ob = Some x" and "good_parser pv k" and "good_members k ob" and "length s < g"
  shows "parse_members pv g s k ob = Some x"
proof -
  obtain y where "parse_members pv g s k ob = Some y" using parse_members_total [OF assms(2,4,3)] by blast
  with assms(1) show ?thesis
    using parse_members_mono [of pv f s k ob x "max f g"] parse_members_mono [of pv g s k ob y "max f g"] by simp
qed


lemma parse_items_step:
  assumes v: "parse_value n s k = Some (Some (v, t))" and add: "json_array_add a v = (JSONSuccess, a')"
  shows "parse_items (parse_value n) (Suc f) (skip_space s) k a =
    (if take 1 (skip_space t) = '','' then parse_items (parse_value n) f (skip_space (tl (skip_space t))) k a'
     else Some (Some (a', skip_space t)))"
  using parse_value_nonempty [OF v] by (simp add: v add Let_def)

lemma parse_members_step:
  assumes "printable_string name" and v: "parse_value n s k = Some (Some (v, t))"
    and add: "json_object_add ob name v = (JSONSuccess, ob')"
  shows "parse_members (parse_value n) (Suc f) (json_serialize_string name @ CHR '':'' # s) k ob =
    (if take 1 (skip_space t) = '','' then parse_members (parse_value n) f (skip_space (tl (skip_space t))) k ob'
     else Some (Some (ob', skip_space t)))"
proof -
  have "json_serialize_string name \<noteq> []" by (simp add: json_serialize_string_def)
  then show ?thesis
    using get_quoted_serialized [OF assms(1), of "CHR '':'' # s"] by (simp add: v add Let_def)
qed

lemma skip_space_string [simp]:
  "skip_space (json_serialize_string s @ r) = json_serialize_string s @ r"
  by (simp add: json_serialize_string_def)

lemma parse_value_space [simp]: "parse_value n (CHR '' '' # s) k = parse_value n s k"
  by (metis parse_value_skip skip_space_token(8))

lemma parse_items_not_close:
  "parse_items (parse_value n) f s k a = Some (Some x) \<Longrightarrow> skip_space s = s \<Longrightarrow> s \<noteq> [] \<Longrightarrow> take 1 s \<noteq> '']''"
proof
  assume a: "parse_items (parse_value n) f s k a = Some (Some x)" "s \<noteq> []" "take 1 s = '']''"
  then obtain u where s: "s = CHR '']'' # u" by (cases s) auto
  have "parse_value n s k = None \<or> parse_value n s k = Some None"
    by (cases n) (auto simp: s isdigit_def less_eq_char_def)
  with a show False by (cases f) auto
qed

lemma parse_array_value_ok:
  assumes u: "skip_space (tl s) = u" and "take 1 u \<noteq> '']''" and g: "good_parser pv k" and "xs \<noteq> []"
    and p: "parse_items pv f u k ([], 0) = Some (Some ((xs, cap), CHR '']'' # r))"
  shows "parse_array_value pv s k = Some (Some (JArray xs (length xs), r))"
proof -
  have "parse_items pv (length u + 1) u k ([], 0) = Some (Some ((xs, cap), CHR '']'' # r))"
    by (rule parse_items_fuel [OF p g]) (simp_all add: good_items_def of_array_def)
  with assms show ?thesis
    by (simp add: parse_array_value_def Let_def json_array_resize_def json_array_get_count_def of_array_def)
qed

lemma parse_object_value_ok:
  assumes u: "skip_space (tl s) = u" and "take 1 u \<noteq> ''}''" and g: "good_parser pv k" and "xs \<noteq> []"
    and p: "parse_members pv f u k ([], 0) = Some (Some ((xs, cap), CHR ''}'' # r))"
  shows "parse_object_value pv s k = Some (Some (JObject xs (length xs), r))"
proof -
  have "parse_members pv (length u + 1) u k ([], 0) = Some (Some ((xs, cap), CHR ''}'' # r))"
    by (rule parse_members_fuel [OF p g]) (simp_all add: good_members_def of_object_def)
  with assms show ?thesis
    by (simp add: parse_object_value_def Let_def json_object_resize_def json_object_get_count_def of_object_def)
qed

lemma ser_members_hd:
  "ser_members all kvs l p = Some t \<Longrightarrow> kvs \<noteq> [] \<Longrightarrow> take 1 (skip_space (t @ r)) = [CHR 0x22]"
  by (cases kvs) (auto simp: c_mem json_serialize_string_def split: option.splits)

text \<open>What it means that the parser inverts the writer, for a value, for the elements of an array and for
  the members of an object, from any position where the value fits into the nesting limit.\<close>

definition text_parsed :: "json \<Rightarrow> string \<Rightarrow> bool" where
  "text_parsed v t \<longleftrightarrow> (\<forall>k n r. printable v \<longrightarrow> nested_within k v \<longrightarrow> MAX_NESTING + 2 \<le> n + k \<longrightarrow> 0 < n \<longrightarrow>
     val_end r \<or> json_value_get_type (Some v) \<in> {JSONObject, JSONArray} \<longrightarrow>
     parse_value n (t @ r) k = Some (Some (json_trim v, r)))"

definition items_parsed :: "json list \<Rightarrow> string \<Rightarrow> bool" where
  "items_parsed vs t \<longleftrightarrow> (\<forall>k n r r' acc cap. (\<forall>v \<in> set vs. printable v \<and> nested_within k v) \<longrightarrow>
     MAX_NESTING + 2 \<le> n + k \<longrightarrow> 0 < n \<longrightarrow> skip_space r = CHR '']'' # r' \<longrightarrow>
     grown cap \<longrightarrow> length acc \<le> cap \<longrightarrow> cap \<le> ARRAY_MAX_CAPACITY \<longrightarrow>
     length acc + length vs \<le> ARRAY_MAX_CAPACITY \<longrightarrow>
     (\<exists>f cap'. parse_items (parse_value n) f (skip_space (t @ r)) k (acc, cap) =
       Some (Some ((acc @ map json_trim vs, cap'), CHR '']'' # r'))))"

abbreviation trim_pair :: "string \<times> json \<Rightarrow> string \<times> json" where
  "trim_pair kv \<equiv> (fst kv, json_trim (snd kv))"

definition members_parsed :: "(string \<times> json) list \<Rightarrow> string \<Rightarrow> bool" where
  "members_parsed kvs t \<longleftrightarrow> (\<forall>k n r r' obs cap.
     (\<forall>kv \<in> set kvs. printable_string (fst kv) \<and> printable (snd kv) \<and> nested_within k (snd kv)) \<longrightarrow>
     MAX_NESTING + 2 \<le> n + k \<longrightarrow> 0 < n \<longrightarrow> skip_space r = CHR ''}'' # r' \<longrightarrow>
     grown cap \<longrightarrow> length obs \<le> cap \<longrightarrow> cap \<le> OBJECT_MAX_CAPACITY \<longrightarrow>
     length obs + length kvs \<le> OBJECT_MAX_CAPACITY \<longrightarrow> distinct (map fst obs @ map fst kvs) \<longrightarrow>
     (\<exists>f cap'. parse_members (parse_value n) f (skip_space (t @ r)) k (obs, cap) =
       Some (Some ((obs @ map trim_pair kvs, cap'), CHR ''}'' # r'))))"

lemmas text_parsedD = text_parsed_def [THEN iffD1, rule_format]
lemmas items_parsedD = items_parsed_def [THEN iffD1, rule_format]
lemmas members_parsedD = members_parsed_def [THEN iffD1, rule_format]

lemma array_text_parsed:
  assumes "ser_text (JArray items cap) level p = Some t"
    and IH: "\<And>body. ser_items items level p = Some body \<Longrightarrow> items \<noteq> [] \<Longrightarrow> items_parsed items body"
  shows "text_parsed (JArray items cap) t"
proof (unfold text_parsed_def, intro allI impI)
  fix k n :: nat and r
  assume pr: "printable (JArray items cap)" "nested_within k (JArray items cap)"
    and nk: "MAX_NESTING + 2 \<le> n + k" "0 < n"
  obtain m where n: "n = Suc m" using nk(2) by (cases n) auto
  have k: "k \<le> MAX_NESTING" using pr(2) by simp
  obtain body where body: "ser_items items level p = Some body"
    and t: "t = ''['' @ (if items \<noteq> [] then pretty_lf p else []) @ body
       @ (if items \<noteq> [] then pretty_indent p level else []) @ '']''"
    using assms(1) by (auto simp: c_mem)
  let ?R = "pretty_indent p level @ CHR '']'' # r"
  have m: "MAX_NESTING + 2 \<le> m + Suc k" "0 < m" using nk(1) k by (simp_all add: n)
  show "parse_value n (t @ r) k = Some (Some (json_trim (JArray items cap), r))"
  proof (cases "items = []")
    case True
    then show ?thesis using k body
      by (simp add: n t parse_array_value_def json_value_init_array_def Let_def)
  next
    case False
    have u: "skip_space (tl (t @ r)) = skip_space (body @ ?R)" using False by (simp add: t)
    have "skip_space ?R = CHR '']'' # r" by simp
    from items_parsedD [OF IH [OF body False] _ m this, of 0 "[]"] pr obtain f cap'
      where f: "parse_items (parse_value m) f (skip_space (body @ ?R)) (Suc k) ([], 0) =
        Some (Some ((map json_trim items, cap'), CHR '']'' # r))"
      by (auto simp: grown_def)
    have ne: "skip_space (body @ ?R) \<noteq> []"
      by (simp add: skip_space_def dropWhile_eq_Nil_conv isspace_def less_eq_char_def)
    from parse_array_value_ok [OF u parse_items_not_close [OF f skip_space_idem ne] parse_value_total [OF m] _ f] False
    show ?thesis using k by (simp add: n t)
  qed
qed

lemma object_text_parsed:
  assumes "ser_text (JObject kvs cap) level p = Some t"
    and IH: "\<And>body. ser_members kvs kvs level p = Some body \<Longrightarrow> kvs \<noteq> [] \<Longrightarrow> distinct (map fst kvs) \<Longrightarrow> members_parsed kvs body"
  shows "text_parsed (JObject kvs cap) t"
proof (unfold text_parsed_def, intro allI impI)
  fix k n :: nat and r
  assume pr: "printable (JObject kvs cap)" "nested_within k (JObject kvs cap)"
    and nk: "MAX_NESTING + 2 \<le> n + k" "0 < n"
  obtain m where n: "n = Suc m" using nk(2) by (cases n) auto
  have k: "k \<le> MAX_NESTING" using pr(2) by simp
  obtain body where body: "ser_members kvs kvs level p = Some body"
    and t: "t = ''{'' @ (if kvs \<noteq> [] then pretty_lf p else []) @ body
       @ (if kvs \<noteq> [] then pretty_indent p level else []) @ ''}''"
    using assms(1) by (auto simp: c_mem)
  let ?R = "pretty_indent p level @ CHR ''}'' # r"
  have m: "MAX_NESTING + 2 \<le> m + Suc k" "0 < m" using nk(1) k by (simp_all add: n)
  show "parse_value n (t @ r) k = Some (Some (json_trim (JObject kvs cap), r))"
  proof (cases "kvs = []")
    case True
    then show ?thesis using k body
      by (simp add: n t parse_object_value_def json_value_init_object_def Let_def)
  next
    case False
    have u: "skip_space (tl (t @ r)) = skip_space (body @ ?R)" using False by (simp add: t)
    have "skip_space ?R = CHR ''}'' # r" by simp
    from members_parsedD [OF IH [OF body False] _ m this, of 0 "[]"] pr obtain f cap'
      where f: "parse_members (parse_value m) f (skip_space (body @ ?R)) (Suc k) ([], 0) =
        Some (Some ((map trim_pair kvs, cap'), CHR ''}'' # r))"
      by (auto simp: grown_def)
    have "take 1 (skip_space (body @ ?R)) \<noteq> ''}''" using ser_members_hd [OF body False, of ?R] by simp
    from parse_object_value_ok [OF u this parse_value_total [OF m] _ f] False
    show ?thesis using k by (simp add: n t)
  qed
qed

lemma leaf_text_parsed:
  assumes "ser_text v level p = Some t" and "json_value_get_type (Some v) \<notin> {JSONObject, JSONArray}"
  shows "text_parsed v t"
proof (unfold text_parsed_def, intro allI impI)
  fix k n :: nat and r
  assume pr: "printable v" "nested_within k v" and n: "0 < n"
    and r: "val_end r \<or> json_value_get_type (Some v) \<in> {JSONObject, JSONArray}"
  obtain m where m: "n = Suc m" using n by (cases n) auto
  have e: "val_end r" using r assms(2) by simp
  show "parse_value n (t @ r) k = Some (Some (json_trim v, r))"
  proof (cases v)
    case (JNumber num)
    have "JNumber (d_of_int (d_to_int num)) = JNumber num" using pr(1) by (simp add: JNumber printable_number_def)
    then show ?thesis using e pr assms parse_value_int [of k r m "d_to_int num"] printable_number_text [of num]
      by (simp add: m JNumber val_end_def del: parse_value.simps)
  qed (use e pr assms parse_value_string [of k r _ m] parse_value_words [of k m] in
    \<open>auto simp: m val_end_def simp del: parse_value.simps\<close>)
qed

lemma items_text_parsed:
  assumes s: "ser_items (v # vs) level p = Some t"
    and v: "\<And>tv. ser_text v (level + 1) p = Some tv \<Longrightarrow> text_parsed v tv"
    and vs: "\<And>tv tr. ser_text v (level + 1) p = Some tv \<Longrightarrow> ser_items vs level p = Some tr \<Longrightarrow> vs \<noteq> [] \<Longrightarrow> items_parsed vs tr"
  shows "items_parsed (v # vs) t"
proof (unfold items_parsed_def, intro allI impI)
  fix k n :: nat and r r' and acc :: "json list" and cap
  assume pr: "\<forall>v \<in> set (v # vs). printable v \<and> nested_within k v" and nk: "MAX_NESTING + 2 \<le> n + k" "0 < n"
    and r: "skip_space r = CHR '']'' # r'"
    and cap: "grown cap" "length acc \<le> cap" "cap \<le> ARRAY_MAX_CAPACITY" "length acc + length (v # vs) \<le> ARRAY_MAX_CAPACITY"
  obtain tv tr where tv: "ser_text v (level + 1) p = Some tv" and tr: "ser_items vs level p = Some tr"
    and t: "t = pretty_indent p (level + 1) @ tv @ (if vs \<noteq> [] then '','' else []) @ pretty_lf p @ tr"
    using s by (auto simp: c_mem)
  let ?rest = "(if vs \<noteq> [] then '','' else []) @ pretty_lf p @ tr @ r"
  have "val_end ?rest"
    using val_end_skip [OF r] val_end_token tr by (cases vs) (auto simp: pretty_lf_def)
  then have pv: "parse_value n (tv @ ?rest) k = Some (Some (json_trim v, ?rest))"
    by (intro text_parsedD [OF v [OF tv] _ _ nk]) (use pr in simp_all)
  obtain cap1 where add: "json_array_add (acc, cap) (json_trim v) = (JSONSuccess, (acc @ [json_trim v], cap1))"
    and cap1: "grown cap1" "length (acc @ [json_trim v]) \<le> cap1" "cap1 \<le> ARRAY_MAX_CAPACITY"
    using json_array_add_grown [OF cap(1-3), of "json_trim v"] cap(4) by auto
  have start: "skip_space (t @ r) = skip_space (tv @ ?rest)" by (simp add: t)
  note step = parse_items_step [OF pv add]
  show "\<exists>f cap'. parse_items (parse_value n) f (skip_space (t @ r)) k (acc, cap) =
      Some (Some ((acc @ map json_trim (v # vs), cap'), CHR '']'' # r'))"
  proof (cases "vs = []")
    case True
    then show ?thesis using step [of 0] r tr unfolding start
      by - (rule exI [of _ "Suc 0"], rule exI [of _ cap1], simp del: parse_items.simps parse_members.simps)
  next
    case False
    obtain f cap' where "parse_items (parse_value n) f (skip_space (tr @ r)) k (acc @ [json_trim v], cap1) =
        Some (Some (((acc @ [json_trim v]) @ map json_trim vs, cap'), CHR '']'' # r'))"
      using items_parsedD [OF vs [OF tv tr False] _ nk r cap1] pr cap(4) by auto
    then show ?thesis using step [of f] False unfolding start
      by - (rule exI [of _ "Suc f"], rule exI [of _ cap'], simp del: parse_items.simps parse_members.simps)
  qed
qed

lemma members_text_parsed:
  assumes s: "ser_members all ((name, v) # kvs) level p = Some t"
    and w: "nget all name (length name) = Some v"
    and v: "\<And>tv. ser_text v (level + 1) p = Some tv \<Longrightarrow> text_parsed v tv"
    and kvs: "\<And>tv tr. ser_text v (level + 1) p = Some tv \<Longrightarrow> ser_members all kvs level p = Some tr \<Longrightarrow> kvs \<noteq> [] \<Longrightarrow> members_parsed kvs tr"
  shows "members_parsed ((name, v) # kvs) t"
proof (unfold members_parsed_def, intro allI impI)
  fix k n :: nat and r r' and obs :: "(string \<times> json) list" and cap
  assume pr: "\<forall>kv \<in> set ((name, v) # kvs). printable_string (fst kv) \<and> printable (snd kv) \<and> nested_within k (snd kv)"
    and nk: "MAX_NESTING + 2 \<le> n + k" "0 < n" and r: "skip_space r = CHR ''}'' # r'"
    and cap: "grown cap" "length obs \<le> cap" "cap \<le> OBJECT_MAX_CAPACITY"
      "length obs + length ((name, v) # kvs) \<le> OBJECT_MAX_CAPACITY"
    and d: "distinct (map fst obs @ map fst ((name, v) # kvs))"
  obtain tv tr where tv: "ser_text v (level + 1) p = Some tv" and tr: "ser_members all kvs level p = Some tr"
    and t: "t = pretty_indent p (level + 1) @ json_serialize_string name @ '':'' @ (if p then '' '' else []) @ tv
      @ (if kvs \<noteq> [] then '','' else []) @ pretty_lf p @ tr"
    using s w by (auto simp: c_mem)
  let ?rest = "(if kvs \<noteq> [] then '','' else []) @ pretty_lf p @ tr @ r"
  let ?s = "(if p then '' '' else []) @ tv @ ?rest"
  have "val_end ?rest"
    using val_end_skip [OF r] val_end_token tr by (cases kvs) (auto simp: pretty_lf_def)
  then have "parse_value n (tv @ ?rest) k = Some (Some (json_trim v, ?rest))"
    by (intro text_parsedD [OF v [OF tv] _ _ nk]) (use pr in simp_all)
  then have pv: "parse_value n ?s k = Some (Some (json_trim v, ?rest))" by (cases p) simp_all
  have new: "name \<notin> fst ` set obs" and name: "printable_string name" using d pr by auto
  obtain cap1 where add: "json_object_add (obs, cap) name (json_trim v) =
      (JSONSuccess, (obs @ [(name, json_trim v)], cap1))"
    and cap1: "grown cap1" "length (obs @ [(name, json_trim v)]) \<le> cap1" "cap1 \<le> OBJECT_MAX_CAPACITY"
    using json_object_add_grown [OF cap(1-3) _ new, of "json_trim v"] cap(4) by auto
  have start: "skip_space (t @ r) = json_serialize_string name @ CHR '':'' # ?s" by (simp add: t)
  note step = parse_members_step [OF name pv add]
  show "\<exists>f cap'. parse_members (parse_value n) f (skip_space (t @ r)) k (obs, cap) =
      Some (Some ((obs @ map trim_pair ((name, v) # kvs), cap'), CHR ''}'' # r'))"
  proof (cases "kvs = []")
    case True
    then show ?thesis using step [of 0] r tr unfolding start
      by - (rule exI [of _ "Suc 0"], rule exI [of _ cap1], simp del: parse_items.simps parse_members.simps)
  next
    case False
    obtain f cap' where "parse_members (parse_value n) f (skip_space (tr @ r)) k (obs @ [(name, json_trim v)], cap1) =
        Some (Some (((obs @ [(name, json_trim v)]) @ map trim_pair kvs, cap'), CHR ''}'' # r'))"
      using members_parsedD [OF kvs [OF tv tr False] _ nk r cap1] pr cap(4) d by auto
    then show ?thesis using step [of f] False unfolding start
      by - (rule exI [of _ "Suc f"], rule exI [of _ cap'], simp del: parse_items.simps parse_members.simps)
  qed
qed

lemma parse_serialized:
  "ser_text v l p = Some t \<Longrightarrow> text_parsed v t"
  "ser_items vs l p = Some t \<Longrightarrow> vs \<noteq> [] \<Longrightarrow> items_parsed vs t"
  "ser_members all kvs l p = Some t \<Longrightarrow> distinct (map fst all) \<Longrightarrow> set kvs \<subseteq> set all \<Longrightarrow> kvs \<noteq> [] \<Longrightarrow> members_parsed kvs t"
proof (induction v l p and vs l p and all kvs l p
    arbitrary: t and t and t rule: ser_text_ser_items_ser_members.induct)
  case (1 items cap level p)
  show ?case by (rule array_text_parsed [OF "1.prems"]) (use "1.IH" in blast)
next
  case (2 kvs cap level p)
  show ?case by (rule object_text_parsed [OF "2.prems"]) (use "2.IH" in simp)
next
  case (8 v vs level p)
  show ?case by (rule items_text_parsed [OF "8.prems"(1)]) (use "8.IH" in blast)+
next
  case (10 all name v kvs level p)
  have w: "nget all name (length name) = Some v" using "10.prems"(2,3) by (simp add: nget_map_of)
  show ?case by (rule members_text_parsed [OF "10.prems"(1) w]) (use "10.IH" "10.prems"(2,3) w in auto)
qed (simp_all add: leaf_text_parsed)

text \<open>Both halves together, with the fact that the text is a C string.\<close>

lemma json_text_roundtrip:
  assumes "wf_json v" and "printable v" and "nested_within 0 v"
    and "json_value_get_type (Some v) \<in> {JSONObject, JSONArray}"
  shows "\<exists>t. json_serialize_to_string p fill (Some v) = Some (Some t) \<and> nul_free t
    \<and> json_parse_string (Some t) = Some (Some (json_trim v))"
proof -
  obtain t where t: "ser_text v 0 p = Some t" "json_serialize_to_string p fill (Some v) = Some (Some t)"
    "nul_free t"
    using json_serialize_to_string_text [OF assms(1)] by blast
  have "parse_value parse_depth (t @ []) 0 = Some (Some (json_trim v, []))"
    by (rule text_parsedD [OF parse_serialized(1) [OF t(1)] assms(2,3)]) (use assms(4) in \<open>simp_all add: parse_depth_def\<close>)
  moreover have "take 1 t = ''{'' \<or> take 1 t = ''[''" "skip_space t = t"
    using t(1) assms(4) by (cases v; auto simp: c_mem)+
  ultimately show ?thesis using t(2,3) by (auto simp: json_parse_string_def Let_def)
qed

section \<open>Properties\<close>

text \<open>C14. Parsing ends, without a read past the text and within the recursion limit, on every input.
  What it accepts is a well-formed object or array, with distinct NUL-free names, counts within
  capacities, capacities within their limits, and no value more than \<open>MAX_NESTING\<close> levels deep.\<close>

theorem json_parse_string_total:
  "\<exists>r. json_parse_string s = Some r \<and> (case r of None \<Rightarrow> True | Some v \<Rightarrow>
     wf_json v \<and> nested_within 0 v \<and> json_value_get_type (Some v) \<in> {JSONObject, JSONArray})"
proof (cases s)
  case None
  then show ?thesis by (simp add: json_parse_string_def)
next
  case (Some t)
  let ?t = "skip_space t"
  have g: "good_parser (parse_value (Suc (Suc MAX_NESTING))) 0" by (rule parse_value_total) simp_all
  have obj: "json_value_get_type (Some v) = JSONObject"
    if "parse_object_value pv u k = Some (Some (v, w))" for pv u k v w
    using that by (auto simp: parse_object_value_def json_value_init_object_def of_object_def Let_def
        simp del: parse_members.simps parse_items.simps
        split: Option.bind_splits if_splits option.splits prod.splits json_status.splits)
  have arr: "json_value_get_type (Some v) = JSONArray"
    if "parse_array_value pv u k = Some (Some (v, w))" for pv u k v w
    using that by (auto simp: parse_array_value_def json_value_init_array_def of_array_def Let_def
        simp del: parse_members.simps parse_items.simps
        split: Option.bind_splits if_splits option.splits prod.splits json_status.splits)
  have type: "json_value_get_type (Some v) \<in> {JSONObject, JSONArray}"
    if "parse_value (Suc (Suc MAX_NESTING)) t 0 = Some (Some (v, w))" "take 1 ?t = ''{'' \<or> take 1 ?t = ''[''" for v w
    using that by (cases ?t) (auto dest: obj arr)
  from g show ?thesis
    by (rule good_parserE [of _ _ ?t])
      (auto simp: json_parse_string_def parse_depth_def Some Let_def good_value_def
        simp del: parse_value.simps dest: type)
qed

text \<open>C2. Round trip: for a well-formed object or array of printable strings, \<open>int\<close>-valued numbers
  and at most \<open>MAX_NESTING\<close> levels, parsing the serialized text, pretty or not, gives the value back,
  its containers trimmed to their counts.\<close>

theorem json_serialize_parse:
  assumes "wf_json v" and "printable v" and "nested_within 0 v"
    and "json_value_get_type (Some v) \<in> {JSONObject, JSONArray}"
  shows "\<exists>t. json_serialize_to_string p fill (Some v) = Some (Some t)
    \<and> json_parse_string (Some t) = Some (Some (json_trim v))"
  using json_text_roundtrip [OF assms] by blast

theorem json_serialize_parse_witness:
  "\<exists>t. json_serialize_to_string True NUL (Some (JObject [(''a'', JArray [JNull, JString ''x''] 15)] 15)) = Some (Some t)
    \<and> json_parse_string (Some t) = Some (Some (JObject [(''a'', JArray [JNull, JString ''x''] 2)] 1))"
proof -
  have "printable_string ''a''" "printable_string ''x''"
    by (simp_all add: printable_string_def printable_char_def)
  then show ?thesis
    using json_serialize_parse [of "JObject [(''a'', JArray [JNull, JString ''x''] 15)] 15" True NUL]
    by (simp add: OBJECT_MAX_CAPACITY_def ARRAY_MAX_CAPACITY_def MAX_NESTING_def numeral_2_eq_2)
qed

end
