(* ===== verification/Json_Ops.thy ===== *)
theory Json_Ops
  imports Json_Parse
begin

text \<open>
  The remaining operations of \<^verbatim>\<open>src/parson.c\<close>: dotted names, deep copies, comparison, schema
  validation and writing to a file.
\<close>

section \<open>Dotted names\<close>

text \<open>\<open>strchr(name, '.')\<close>: what precedes the first dot and what follows it.\<close>

definition dot_split :: "string \<Rightarrow> (string \<times> string) option" where
  "dot_split name =
     (if CHR ''.'' \<in> set name
      then Some (takeWhile (\<lambda>c. c \<noteq> CHR ''.'') name, tl (dropWhile (\<lambda>c. c \<noteq> CHR ''.'') name))
      else None)"

lemma dot_split_length: "dot_split name = Some (a, b) \<Longrightarrow> length b < length name"
proof -
  assume d: "dot_split name = Some (a, b)"
  then have "dropWhile (\<lambda>c. c \<noteq> CHR ''.'') name \<noteq> []" by (auto simp: dot_split_def split: if_splits)
  then have "length (tl (dropWhile (\<lambda>c. c \<noteq> CHR ''.'') name)) < length (dropWhile (\<lambda>c. c \<noteq> CHR ''.'') name)"
    by simp
  also have "\<dots> \<le> length name" by (rule length_dropWhile_le)
  finally show ?thesis using d by (auto simp: dot_split_def split: if_splits)
qed

function json_object_dotget_value :: "json_object option \<Rightarrow> string \<Rightarrow> json option" where
  "json_object_dotget_value ob name = (case dot_split name of
     None \<Rightarrow> json_object_get_value ob name
   | Some (a, rest) \<Rightarrow>
       json_object_dotget_value (json_value_get_object (json_object_nget_value ob name (length a))) rest)"
  by pat_completeness auto
termination by (relation "measure (length \<circ> snd)") (auto dest: dot_split_length)

declare json_object_dotget_value.simps [simp del]

definition json_object_dotget_string :: "json_object option \<Rightarrow> string \<Rightarrow> string option" where
  "json_object_dotget_string ob name = json_value_get_string (json_object_dotget_value ob name)"

definition json_object_dotget_number :: "json_object option \<Rightarrow> string \<Rightarrow> double" where
  "json_object_dotget_number ob name = json_value_get_number (json_object_dotget_value ob name)"

definition json_object_dotget_object :: "json_object option \<Rightarrow> string \<Rightarrow> json_object option" where
  "json_object_dotget_object ob name = json_value_get_object (json_object_dotget_value ob name)"

definition json_object_dotget_array :: "json_object option \<Rightarrow> string \<Rightarrow> json_array option" where
  "json_object_dotget_array ob name = json_value_get_array (json_object_dotget_value ob name)"

definition json_object_dotget_boolean :: "json_object option \<Rightarrow> string \<Rightarrow> int" where
  "json_object_dotget_boolean ob name = json_value_get_boolean (json_object_dotget_value ob name)"

text \<open>The nested object is updated in place, so it is put back under its name; on a failure further
  down, an object that was added on the way stays.\<close>

function json_object_dotset_value :: "json_object \<Rightarrow> string \<Rightarrow> json \<Rightarrow> json_status \<times> json_object" where
  "json_object_dotset_value ob name v = (case dot_split name of
     None \<Rightarrow> json_object_set_value ob name (Some v)
   | Some (current_name, rest) \<Rightarrow>
       (case json_object_get_object (Some ob) current_name of
          Some temp_obj \<Rightarrow>
            (let (st, temp_obj) = json_object_dotset_value temp_obj rest v
             in (st, (overwrite (fst ob) current_name (of_object temp_obj), snd ob)))
        | None \<Rightarrow>
            (case json_object_add ob current_name json_value_init_object of
               (JSONFailure, ob) \<Rightarrow> (JSONFailure, ob)
             | (JSONSuccess, ob) \<Rightarrow>
                 (let (st, temp_obj) = json_object_dotset_value ([], 0) rest v
                  in (st, (overwrite (fst ob) current_name (of_object temp_obj), snd ob))))))"
  by pat_completeness auto
termination by (relation "measure (\<lambda>(ob, name, v). length name)") (auto dest: dot_split_length)

declare json_object_dotset_value.simps [simp del]

definition json_object_dotset_string :: "json_object \<Rightarrow> string \<Rightarrow> string \<Rightarrow> json_status \<times> json_object" where
  "json_object_dotset_string ob name s = (case json_value_init_string (Some s) of
     None \<Rightarrow> (JSONFailure, ob)
   | Some v \<Rightarrow> json_object_dotset_value ob name v)"

definition json_object_dotset_number :: "json_object \<Rightarrow> string \<Rightarrow> double \<Rightarrow> json_status \<times> json_object" where
  "json_object_dotset_number ob name d = json_object_dotset_value ob name (json_value_init_number d)"

definition json_object_dotset_boolean :: "json_object \<Rightarrow> string \<Rightarrow> int \<Rightarrow> json_status \<times> json_object" where
  "json_object_dotset_boolean ob name b = json_object_dotset_value ob name (json_value_init_boolean b)"

definition json_object_dotset_null :: "json_object \<Rightarrow> string \<Rightarrow> json_status \<times> json_object" where
  "json_object_dotset_null ob name = json_object_dotset_value ob name json_value_init_null"

function json_object_dotremove :: "json_object \<Rightarrow> string \<Rightarrow> json_status \<times> json_object" where
  "json_object_dotremove ob name = (case dot_split name of
     None \<Rightarrow> json_object_remove ob name
   | Some (current_name, rest) \<Rightarrow>
       (case json_object_get_object (Some ob) current_name of
          None \<Rightarrow> (JSONFailure, ob)
        | Some temp_obj \<Rightarrow>
            (let (st, temp_obj) = json_object_dotremove temp_obj rest
             in (st, (overwrite (fst ob) current_name (of_object temp_obj), snd ob)))))"
  by pat_completeness auto
termination by (relation "measure (length \<circ> snd)") (auto dest: dot_split_length)

declare json_object_dotremove.simps [simp del]

section \<open>Deep copies\<close>

text \<open>\<open>None\<close> is the null pointer. The loops copy into a fresh container.\<close>

function (sequential)
  json_value_deep_copy :: "json \<Rightarrow> json option"
  and copy_items :: "json list \<Rightarrow> json_array \<Rightarrow> json_array option"
  and copy_members :: "(string \<times> json) list \<Rightarrow> (string \<times> json) list \<Rightarrow> json_object \<Rightarrow> json_object option"
where
  "json_value_deep_copy (JArray xs cap) = map_option of_array (copy_items xs ([], 0))"
| "json_value_deep_copy (JObject kvs cap) = map_option of_object (copy_members kvs kvs ([], 0))"
| "json_value_deep_copy (JBoolean b) = Some (json_value_init_boolean (json_value_get_boolean (Some (JBoolean b))))"
| "json_value_deep_copy (JNumber d) = Some (json_value_init_number d)"
| "json_value_deep_copy (JString s) = Some (JString s)"
| "json_value_deep_copy JNull = Some json_value_init_null"
| "copy_items [] a = Some a"
| "copy_items (v # vs) a = (case json_value_deep_copy v of
     None \<Rightarrow> None
   | Some c \<Rightarrow> (case json_array_add a c of
       (JSONFailure, _) \<Rightarrow> None
     | (JSONSuccess, a) \<Rightarrow> copy_items vs a))"
| "copy_members all [] ob = Some ob"
| "copy_members all ((k, _) # kvs) ob = (case nget all k (length k) of
     None \<Rightarrow> None
   | Some v \<Rightarrow> (case json_value_deep_copy v of
       None \<Rightarrow> None
     | Some c \<Rightarrow> (case json_object_add ob k c of
         (JSONFailure, _) \<Rightarrow> None
       | (JSONSuccess, ob) \<Rightarrow> copy_members all kvs ob)))"
  by pat_completeness auto

termination
  by (relation "measures [case_sum (\<lambda>v. 2 * size v)
        (case_sum (\<lambda>(vs, a). 2 * size_list size vs + 1)
          (\<lambda>(all, kvs, ob). 2 * size_list (size_prod (\<lambda>_. 0) size) all + 1)),
      case_sum (\<lambda>_. 0) (case_sum (\<lambda>(vs, a). length vs) (\<lambda>(all, kvs, ob). length kvs))]")
    (auto dest: nget_size)

section \<open>Comparison\<close>

text \<open>The tolerance \<open>0.000001\<close> as a \<open>double\<close>.\<close>

definition json_epsilon :: double where "json_epsilon = 0x3EB0C6F7A0B5ED8D"

lemma nget_size_option:
  "(case nget kvs name n of None \<Rightarrow> 0 | Some v \<Rightarrow> Suc (size v)) < Suc (Suc (size_list (size_prod (\<lambda>_. 0) size) kvs))"
  using nget_size [of kvs name n] by (auto split: option.split)

lemma item_size: "(x, y) \<in> set (zip xs ys) \<Longrightarrow> size x < Suc (size_list size xs)"
  by (auto dest!: set_zip_leftD intro!: le_imp_less_Suc size_list_estimation')

function json_value_equals :: "json option \<Rightarrow> json option \<Rightarrow> bool" where
  "json_value_equals a b \<longleftrightarrow>
     json_value_get_type a = json_value_get_type b \<and>
     (case a of
        Some (JArray xs _) \<Rightarrow>
          json_array_get_count (json_value_get_array a) = json_array_get_count (json_value_get_array b) \<and>
          list_all (\<lambda>(x, y). json_value_equals (Some x) (Some y))
            (zip xs (fst (the (json_value_get_array b))))
      | Some (JObject kvs _) \<Rightarrow>
          json_object_get_count (json_value_get_object a) = json_object_get_count (json_value_get_object b) \<and>
          list_all (\<lambda>kv. json_value_equals (nget kvs (fst kv) (length (fst kv)))
              (json_object_get_value (json_value_get_object b) (fst kv))) kvs
      | Some (JString s) \<Rightarrow> json_value_get_string a = json_value_get_string b
      | Some (JBoolean x) \<Rightarrow> json_value_get_boolean a = json_value_get_boolean b
      | Some (JNumber d) \<Rightarrow> d_lt (d_abs (d_sub (json_value_get_number a) (json_value_get_number b))) json_epsilon
      | Some JNull \<Rightarrow> True
      | None \<Rightarrow> True)"
  by pat_completeness auto
termination
  by (relation "measure (\<lambda>(a, b). case a of None \<Rightarrow> 0 | Some v \<Rightarrow> Suc (size v))")
    (auto dest: item_size intro: nget_size_option)

declare json_value_equals.simps [simp del]


section \<open>Validation against a schema\<close>

text \<open>As written: in the array case the result of the recursive call is compared with 0, and 0 is
  \<open>JSONSuccess\<close>.\<close>

function json_validate :: "json option \<Rightarrow> json option \<Rightarrow> json_status" where
  "json_validate schema val =
     (case schema of
        None \<Rightarrow> JSONFailure
      | Some s \<Rightarrow>
         (case val of
            None \<Rightarrow> JSONFailure
          | Some v \<Rightarrow>
             if json_value_get_type schema \<noteq> json_value_get_type val \<and> json_value_get_type schema \<noteq> JSONNull
             then JSONFailure
             else (case s of
                 JArray xs _ \<Rightarrow>
                   (case xs of
                      [] \<Rightarrow> JSONSuccess
                    | temp_schema_value # _ \<Rightarrow>
                        if list_ex (\<lambda>y. json_validate (Some temp_schema_value) (Some y) = JSONSuccess)
                             (fst (the (json_value_get_array val)))
                        then JSONFailure else JSONSuccess)
               | JObject kvs _ \<Rightarrow>
                   if kvs = [] then JSONSuccess
                   else if json_object_get_count (json_value_get_object val) < length kvs then JSONFailure
                   else if list_ex (\<lambda>kv.
                       json_object_get_value (json_value_get_object val) (fst kv) = None \<or>
                       json_validate (nget kvs (fst kv) (length (fst kv)))
                         (json_object_get_value (json_value_get_object val) (fst kv)) = JSONFailure) kvs
                   then JSONFailure else JSONSuccess
               | _ \<Rightarrow> JSONSuccess)))"
  by pat_completeness auto
termination
  by (relation "measure (\<lambda>(a, b). case a of None \<Rightarrow> 0 | Some v \<Rightarrow> Suc (size v))")
    (auto intro: nget_size_option)

declare json_validate.simps [simp del]

section \<open>Writing to a file\<close>

text \<open>What the file system does: \<open>fopen\<close> fails; \<open>fputs\<close> or \<open>fclose\<close> fails after some part of the
  text; everything is written.\<close>

datatype file_outcome = Open_fails | Write_fails nat | Written

definition json_serialize_to_file ::
    "bool \<Rightarrow> char \<Rightarrow> file_outcome \<Rightarrow> files \<Rightarrow> json option \<Rightarrow> string \<Rightarrow> (json_status \<times> files) option" where
  "json_serialize_to_file p fill out fs v filename = do {
     serialized_string \<leftarrow> json_serialize_to_string p fill v;
     (case serialized_string of
        None \<Rightarrow> Some (JSONFailure, fs)
      | Some t \<Rightarrow>
          (case out of
             Open_fails \<Rightarrow> Some (JSONSuccess, fs)
           | Write_fails n \<Rightarrow> Some (JSONFailure, fs(filename \<mapsto> take n t))
           | Written \<Rightarrow> Some (JSONSuccess, fs(filename \<mapsto> t)))) }"

section \<open>Dotted names\<close>

lemma nget_take: "n \<le> length name \<Longrightarrow> nget kvs name n = map_of kvs (take n name)"
  by (induction kvs) auto

lemma dot_split_take: "dot_split name = Some (a, rest) \<Longrightarrow> take (length a) name = a \<and> length a \<le> length name"
proof -
  assume "dot_split name = Some (a, rest)"
  then have "a = takeWhile (\<lambda>c. c \<noteq> CHR ''.'') name" by (simp add: dot_split_def split: if_splits)
  then show ?thesis by (metis takeWhile_eq_take length_takeWhile_le)
qed

lemma dotget_simps:
  "dot_split name = None \<Longrightarrow> json_object_dotget_value ob name = json_object_get_value ob name"
  "dot_split name = Some (a, rest) \<Longrightarrow> json_object_dotget_value (Some (kvs, cap)) name =
    json_object_dotget_value (json_value_get_object (map_of kvs a)) rest"
  by (simp_all add: json_object_dotget_value.simps [of _ name] json_object_nget_value_def nget_take
      dot_split_take)

lemma get_of_object [simp]: "json_value_get_object (Some (of_object ob)) = Some ob"
  by (cases ob) (simp add: json_value_get_object_def of_object_def)

lemma map_of_overwrite_at:
  "map_of kvs k \<noteq> None \<Longrightarrow> map_of (overwrite kvs k v) n = (if n = k then Some v else map_of kvs n)"
  by (simp add: map_of_overwrite)

lemma json_object_add_get:
  "json_object_add ob k v = (JSONSuccess, ob') \<Longrightarrow>
    map_of (fst ob') n = (if n = k then Some v else map_of (fst ob) n)"
  by (cases ob) (auto simp: json_object_add_def map_add_def split: option.splits if_splits)

definition first_name :: "string \<Rightarrow> string" where
  "first_name name = (case dot_split name of None \<Rightarrow> name | Some (a, _) \<Rightarrow> a)"

lemma dotset_get:
  "json_object_dotset_value ob name v = (JSONSuccess, ob') \<Longrightarrow>
    json_object_dotget_value (Some ob') name = Some v \<and>
    (\<forall>n. n \<noteq> first_name name \<longrightarrow> map_of (fst ob') n = map_of (fst ob) n)"
proof (induction ob name v arbitrary: ob' rule: json_object_dotset_value.induct)
  case (1 ob name v)
  note set = 1(3)
  show ?case
  proof (cases "dot_split name")
    case None
    then have "json_object_set_value ob name (Some v) = (JSONSuccess, ob')"
      using set by (simp add: json_object_dotset_value.simps [of ob name])
    from json_object_set_value_get [OF this] None show ?thesis
      by (cases ob; cases ob') (auto simp: dotget_simps first_name_def)
  next
    case (Some ar)
    obtain a rest where ar: "ar = (a, rest)" by (cases ar)
    note split = Some [unfolded ar]
    show ?thesis
    proof (cases "json_object_get_object (Some ob) a")
      case (Some sub)
      obtain st sub' where sub: "json_object_dotset_value sub rest v = (st, sub')"
        by (cases "json_object_dotset_value sub rest v")
      have ob': "ob' = (overwrite (fst ob) a (of_object sub'), snd ob)" and st: "st = JSONSuccess"
        using set by (simp_all add: json_object_dotset_value.simps [of ob name] split Some sub)
      have "json_object_dotget_value (Some sub') rest = Some v"
        using 1(2) [OF split refl Some] sub st by simp
      moreover have "map_of (fst ob) a \<noteq> None"
        using Some by (cases ob) (auto simp: json_object_get_object_def json_value_get_object_def
            split: option.splits)
      ultimately show ?thesis
        by (simp add: ob' dotget_simps(2) [OF split] map_of_overwrite_at first_name_def split)
    next
      case None
      obtain st1 ob1 where add: "json_object_add ob a json_value_init_object = (st1, ob1)"
        by (cases "json_object_add ob a json_value_init_object")
      have st1: "st1 = JSONSuccess"
        using set by (cases st1) (simp_all add: json_object_dotset_value.simps [of ob name] split None add)
      obtain st sub' where sub: "json_object_dotset_value ([], 0) rest v = (st, sub')"
        by (cases "json_object_dotset_value ([], 0) rest v")
      have ob': "ob' = (overwrite (fst ob1) a (of_object sub'), snd ob1)" and st: "st = JSONSuccess"
        using set by (simp_all add: json_object_dotset_value.simps [of ob name] split None add st1 sub)
      have "json_object_dotget_value (Some sub') rest = Some v"
        using 1(1) [OF split refl None add [unfolded st1, symmetric] refl] sub st by simp
      then show ?thesis using json_object_add_get [OF add [unfolded st1]]
        by (simp add: ob' dotget_simps(2) [OF split] map_of_overwrite_at first_name_def split)
    qed
  qed
qed

lemma overwrite_wf:
  assumes "wf_object ob" and "nul_free k" and "wf_json v"
  shows "wf_object (overwrite (fst ob) k v, snd ob)"
  using assms overwrite_set [of "fst ob" k v] by (auto simp: of_object_def)

lemma set_tlD: "x \<in> set (tl xs) \<Longrightarrow> x \<in> set xs"
  by (cases xs) auto

lemma dot_split_nul_free: "dot_split name = Some (a, rest) \<Longrightarrow> nul_free name \<Longrightarrow> nul_free a \<and> nul_free rest"
  by (auto simp: dot_split_def nul_free_def dest: set_takeWhileD set_dropWhileD set_tlD split: if_splits)

lemma nested_object_wf:
  assumes "wf_object ob" and "json_object_get_object (Some ob) a = Some sub"
  shows "wf_object sub"
proof -
  obtain kvs cap where ob: "ob = (kvs, cap)" by (cases ob)
  obtain v where "map_of kvs a = Some v" "json_value_get_object (Some v) = Some sub"
    using assms(2) by (cases "map_of kvs a") (auto simp: ob json_object_get_object_def json_value_get_object_def)
  moreover from this have "wf_json v" using assms(1) by (auto simp: ob of_object_def dest!: map_of_SomeD)
  ultimately show ?thesis by (cases v) (auto simp: json_value_get_object_def of_object_def)
qed

lemma dotset_wf:
  "json_object_dotset_value ob name v = (st, ob') \<Longrightarrow> wf_object ob \<Longrightarrow> nul_free name \<Longrightarrow> wf_json v \<Longrightarrow>
    wf_object ob'"
proof (induction ob name v arbitrary: st ob' rule: json_object_dotset_value.induct)
  case (1 ob name v)
  note set = 1(3) and wf = 1(4-6)
  show ?case
  proof (cases "dot_split name")
    case None
    then have "json_object_set_value ob name (Some v) = (st, ob')"
      using set by (simp add: json_object_dotset_value.simps [of ob name])
    with wf show ?thesis by (auto intro: json_object_set_value_wf)
  next
    case (Some ar)
    obtain a rest where ar: "ar = (a, rest)" by (cases ar)
    note split = Some [unfolded ar]
    note free = dot_split_nul_free [OF split wf(2)]
    show ?thesis
    proof (cases "json_object_get_object (Some ob) a")
      case (Some sub)
      obtain st' sub' where sub: "json_object_dotset_value sub rest v = (st', sub')"
        by (cases "json_object_dotset_value sub rest v")
      have ob': "ob' = (overwrite (fst ob) a (of_object sub'), snd ob)"
        using set by (simp add: json_object_dotset_value.simps [of ob name] split Some sub)
      have "wf_object sub'"
        using 1(2) [OF split refl Some sub] nested_object_wf [OF wf(1) Some] free wf(3) by simp
      then show ?thesis unfolding ob' using wf(1) free by (intro overwrite_wf) simp_all
    next
      case None
      obtain st1 ob1 where add: "json_object_add ob a json_value_init_object = (st1, ob1)"
        by (cases "json_object_add ob a json_value_init_object")
      have wf1: "wf_object ob1"
        using json_object_add_wf [OF wf(1) _ _ add] free by (simp add: json_value_init_object_def)
      show ?thesis
      proof (cases st1)
        case JSONFailure
        then show ?thesis using set wf1 by (simp add: json_object_dotset_value.simps [of ob name] split None add)
      next
        case JSONSuccess
        obtain st' sub' where sub: "json_object_dotset_value ([], 0) rest v = (st', sub')"
          by (cases "json_object_dotset_value ([], 0) rest v")
        have ob': "ob' = (overwrite (fst ob1) a (of_object sub'), snd ob1)"
          using set by (simp add: json_object_dotset_value.simps [of ob name] split None add JSONSuccess sub)
        have "wf_object sub'"
          using 1(1) [OF split refl None add [unfolded JSONSuccess, symmetric] refl sub] free wf(3)
          by (simp add: of_object_def)
        then show ?thesis unfolding ob' using wf1 free by (intro overwrite_wf) simp_all
      qed
    qed
  qed
qed


section \<open>Deep copies\<close>

lemma wf_counts:
  "wf_json (JArray xs cap) \<Longrightarrow> length xs \<le> ARRAY_MAX_CAPACITY"
  "wf_json (JObject kvs cap) \<Longrightarrow> length kvs \<le> OBJECT_MAX_CAPACITY"
  by auto

lemma deep_copy_ok:
  "wf_json v \<Longrightarrow> \<exists>c. json_value_deep_copy v = Some c \<and> json_trim c = json_trim v \<and> wf_json c"
  "\<forall>v \<in> set vs. wf_json v \<Longrightarrow> \<forall>v \<in> set (fst a). wf_json v \<Longrightarrow> grown (snd a) \<Longrightarrow> length (fst a) \<le> snd a \<Longrightarrow>
    snd a \<le> ARRAY_MAX_CAPACITY \<Longrightarrow> length (fst a) + length vs \<le> ARRAY_MAX_CAPACITY \<Longrightarrow>
    \<exists>cs cap. copy_items vs a = Some (fst a @ cs, cap) \<and> map json_trim cs = map json_trim vs
      \<and> (\<forall>c \<in> set cs. wf_json c) \<and> length (fst a @ cs) \<le> cap \<and> cap \<le> ARRAY_MAX_CAPACITY"
  "distinct (map fst all) \<Longrightarrow> \<forall>kv \<in> set all. nul_free (fst kv) \<and> wf_json (snd kv) \<Longrightarrow>
    set kvs \<subseteq> set all \<Longrightarrow> grown (snd ob) \<Longrightarrow> length (fst ob) \<le> snd ob \<Longrightarrow>
    snd ob \<le> OBJECT_MAX_CAPACITY \<Longrightarrow> length (fst ob) + length kvs \<le> OBJECT_MAX_CAPACITY \<Longrightarrow>
    distinct (map fst (fst ob) @ map fst kvs) \<Longrightarrow>
    \<exists>cs cap. copy_members all kvs ob = Some (fst ob @ cs, cap) \<and> map trim_pair cs = map trim_pair kvs
      \<and> (\<forall>kv \<in> set cs. nul_free (fst kv) \<and> wf_json (snd kv))
      \<and> length (fst ob @ cs) \<le> cap \<and> cap \<le> OBJECT_MAX_CAPACITY"
proof (induction v and vs a and all kvs ob rule: json_value_deep_copy_copy_items_copy_members.induct)
  case (1 xs cap)
  then obtain cs c where "copy_items xs ([], 0) = Some (cs, c)" "map json_trim cs = map json_trim xs"
      "\<forall>c \<in> set cs. wf_json c" "length cs \<le> c" "c \<le> ARRAY_MAX_CAPACITY"
    using wf_counts(1) [OF "1.prems"] by (auto simp: grown_def)
  moreover from this(2) have "length cs = length xs" using map_eq_imp_length_eq by blast
  ultimately show ?case by (simp add: of_array_def)
next
  case (2 kvs cap)
  have "\<exists>cs c. copy_members kvs kvs ([], 0) = Some (cs, c) \<and> map trim_pair cs = map trim_pair kvs \<and>
      (\<forall>kv \<in> set cs. nul_free (fst kv) \<and> wf_json (snd kv)) \<and> length cs \<le> c \<and> c \<le> OBJECT_MAX_CAPACITY"
    using "2.IH" wf_counts(2) [OF "2.prems"] "2.prems" by (simp add: grown_def)
  then obtain cs c where cs: "copy_members kvs kvs ([], 0) = Some (cs, c)" "map trim_pair cs = map trim_pair kvs"
      "\<forall>kv \<in> set cs. nul_free (fst kv) \<and> wf_json (snd kv)" "length cs \<le> c" "c \<le> OBJECT_MAX_CAPACITY"
    by blast
  have "map fst cs = map fst (map trim_pair cs)" by simp
  also have "\<dots> = map fst kvs" unfolding cs(2) by simp
  finally have "distinct (map fst cs)" using "2.prems" by simp
  moreover have "length cs = length kvs" using cs(2) map_eq_imp_length_eq by blast
  ultimately show ?case using cs by (simp add: of_object_def)
next
  case (8 v vs a)
  obtain acc cap where a: "a = (acc, cap)" by (cases a)
  obtain c where c: "json_value_deep_copy v = Some c" "json_trim c = json_trim v" "wf_json c"
    using "8.IH"(1) "8.prems" by auto
  obtain cap1 where add: "json_array_add (acc, cap) c = (JSONSuccess, (acc @ [c], cap1))"
    and cap1: "grown cap1" "Suc (length acc) \<le> cap1" "cap1 \<le> ARRAY_MAX_CAPACITY"
    using json_array_add_grown [of cap acc c] "8.prems" by (auto simp: a)
  have "\<exists>cs cap. copy_items vs (acc @ [c], cap1) = Some ((acc @ [c]) @ cs, cap) \<and> map json_trim cs = map json_trim vs
      \<and> (\<forall>c \<in> set cs. wf_json c) \<and> length ((acc @ [c]) @ cs) \<le> cap \<and> cap \<le> ARRAY_MAX_CAPACITY"
    using "8.IH"(2) [OF c(1), of JSONSuccess "(acc @ [c], cap1)"] "8.prems" c(3) cap1 add by (simp add: a)
  then obtain cs cap2 where "copy_items vs (acc @ [c], cap1) = Some ((acc @ [c]) @ cs, cap2)"
      "map json_trim cs = map json_trim vs" "\<forall>c \<in> set cs. wf_json c" "length ((acc @ [c]) @ cs) \<le> cap2"
      "cap2 \<le> ARRAY_MAX_CAPACITY"
    by blast
  then show ?case using c add by (intro exI [of _ "c # cs"] exI [of _ cap2]) (simp add: a)
next
  case (10 all k v kvs ob)
  obtain acc cap where ob: "ob = (acc, cap)" by (cases ob)
  have "map_of all k = Some v" using "10.prems"(1,3) by simp
  then have w: "nget all k (length k) = Some v" by (simp add: nget_map_of)
  have kv: "nul_free k" "wf_json v" using "10.prems"(2,3) by auto
  obtain c where c: "json_value_deep_copy v = Some c" "json_trim c = json_trim v" "wf_json c"
    using "10.IH"(1) [OF w kv(2)] by blast
  have "k \<notin> fst ` set acc" using "10.prems"(8) by (auto simp: ob)
  then obtain cap1 where add: "json_object_add (acc, cap) k c = (JSONSuccess, (acc @ [(k, c)], cap1))"
    and cap1: "grown cap1" "Suc (length acc) \<le> cap1" "cap1 \<le> OBJECT_MAX_CAPACITY"
    using json_object_add_grown [of cap acc k c] "10.prems" by (auto simp: ob)
  have "\<exists>cs cap. copy_members all kvs (acc @ [(k, c)], cap1) = Some ((acc @ [(k, c)]) @ cs, cap)
      \<and> map trim_pair cs = map trim_pair kvs \<and> (\<forall>kv \<in> set cs. nul_free (fst kv) \<and> wf_json (snd kv))
      \<and> length ((acc @ [(k, c)]) @ cs) \<le> cap \<and> cap \<le> OBJECT_MAX_CAPACITY"
    using "10.IH"(2) [OF w c(1), of JSONSuccess "(acc @ [(k, c)], cap1)"] "10.prems" cap1 add by (simp add: ob)
  then obtain cs cap2 where "copy_members all kvs (acc @ [(k, c)], cap1) = Some ((acc @ [(k, c)]) @ cs, cap2)"
      "map trim_pair cs = map trim_pair kvs" "\<forall>kv \<in> set cs. nul_free (fst kv) \<and> wf_json (snd kv)"
      "length ((acc @ [(k, c)]) @ cs) \<le> cap2" "cap2 \<le> OBJECT_MAX_CAPACITY"
    by blast
  then show ?case using c add w kv by (intro exI [of _ "(k, c) # cs"] exI [of _ cap2]) (simp add: ob)
qed (auto simp: json_value_init_boolean_def json_value_get_boolean_def json_value_init_number_def
    json_value_init_null_def)

definition json_serialize_to_file_pretty ::
    "char \<Rightarrow> file_outcome \<Rightarrow> files \<Rightarrow> json option \<Rightarrow> string \<Rightarrow> (json_status \<times> files) option" where
  "json_serialize_to_file_pretty fill out fs v filename = json_serialize_to_file True fill out fs v filename"

section \<open>Comparison of copies\<close>

fun finite_numbers :: "json \<Rightarrow> bool" where
  "finite_numbers (JNumber d) \<longleftrightarrow> (case d_val d of Finite _ _ _ \<Rightarrow> True | _ \<Rightarrow> False)"
| "finite_numbers (JObject kvs cap) \<longleftrightarrow> (\<forall>kv \<in> set kvs. finite_numbers (snd kv))"
| "finite_numbers (JArray xs cap) \<longleftrightarrow> (\<forall>x \<in> set xs. finite_numbers x)"
| "finite_numbers _ \<longleftrightarrow> True"

lemma zero_below_epsilon: "d_lt (d_abs (d_zero False)) json_epsilon"
  by (simp add: d_lt_def d_abs_def d_zero_def json_epsilon_def d_val_def mag_val_def dfmt_def Let_def
      fp_cmp_def signed_int_def)

lemma json_trim_type: "json_trim a = json_trim b \<Longrightarrow> json_value_get_type (Some a) = json_value_get_type (Some b)"
  by (cases a; cases b) auto

lemma map_of_trim: "map_of (map trim_pair kvs) k = map_option json_trim (map_of kvs k)"
  by (induction kvs) auto

lemma equals_trim:
  "json_trim a = json_trim b \<Longrightarrow> wf_json a \<Longrightarrow> finite_numbers a \<Longrightarrow> json_value_equals (Some a) (Some b)"
proof (induction a arbitrary: b)
  case JNull
  then show ?case using json_trim_type [OF JNull(1)] by (simp add: json_value_equals.simps)
next
  case (JString s)
  then have "b = JString s" by (cases b) auto
  then show ?case by (simp add: json_value_equals.simps)
next
  case (JNumber d)
  then have "b = JNumber d" by (cases b) auto
  moreover from JNumber.prems(3) obtain s m e where "d_val d = Finite s m e" by (cases "d_val d") auto
  ultimately show ?case
    using zero_below_epsilon by (simp add: json_value_equals.simps json_value_get_number_def d_sub_self)
next
  case (JObject kvs cap)
  then obtain kvs' cap' where b: "b = JObject kvs' cap'" by (cases b) auto
  have t: "map trim_pair kvs = map trim_pair kvs'" using JObject.prems(1) by (simp add: b)
  have "length kvs = length kvs'" using t map_eq_imp_length_eq by blast
  moreover have "json_value_equals (nget kvs k (length k)) (map_of kvs' k)" if "(k, v) \<in> set kvs" for k v
  proof -
    have "map_of kvs k = Some v" using that JObject.prems(2) by simp
    with arg_cong [OF t, of "\<lambda>xs. map_of xs k", unfolded map_of_trim] obtain w where "map_of kvs' k = Some w" "json_trim v = json_trim w"
      by (cases "map_of kvs' k") auto
    with JObject.IH [OF that, of v w] that JObject.prems(2,3) \<open>map_of kvs k = Some v\<close>
    show ?thesis by (force simp: nget_map_of)
  qed
  ultimately show ?case
    by (subst json_value_equals.simps)
      (auto simp: b json_value_get_object_def json_object_get_count_def list_all_iff)
next
  case (JArray xs cap)
  then obtain ys cap' where b: "b = JArray ys cap'" by (cases b) auto
  have t: "map json_trim xs = map json_trim ys" using JArray.prems(1) by (simp add: b)
  have l: "length xs = length ys" using t map_eq_imp_length_eq by blast
  have "json_value_equals (Some x) (Some y)" if "(x, y) \<in> set (zip xs ys)" for x y
  proof -
    from that obtain i where i: "i < length xs" "x = xs ! i" "y = ys ! i" using l by (auto simp: in_set_zip)
    then have "json_trim x = json_trim y" using t l by (metis nth_map)
    moreover have "x \<in> set xs" using i by simp
    ultimately show ?thesis using JArray.IH [of x y] JArray.prems(2,3) by simp
  qed
  then show ?case using l
    by (subst json_value_equals.simps)
      (auto simp: b json_value_get_array_def json_array_get_count_def list_all_iff)
next
  case (JBoolean x)
  then have "b = JBoolean x" by (cases b) auto
  then show ?case by (simp add: json_value_equals.simps)
qed

section \<open>Properties\<close>

text \<open>C35. A deep copy of a well-formed value exists, is well formed, has the same contents (only the
  capacities may differ), and \<open>json_value_equals\<close> says so whenever no number is infinite or NaN
  (for those the difference is not below the tolerance, and a value differs from itself).\<close>

theorem json_value_deep_copy_equal:
  assumes "wf_json v"
  shows "\<exists>c. json_value_deep_copy v = Some c \<and> wf_json c \<and> json_trim c = json_trim v \<and>
    (\<not> finite_numbers v \<or> json_value_equals (Some v) (Some c))"
  using deep_copy_ok(1) [OF assms] equals_trim [OF _ assms] by metis

theorem json_value_deep_copy_equal_witness:
  "\<exists>c. json_value_deep_copy (JArray [JNull, JString ''a''] 15) = Some c \<and>
     json_value_equals (Some (JArray [JNull, JString ''a''] 15)) (Some c)"
  using json_value_deep_copy_equal [of "JArray [JNull, JString ''a''] 15"]
  by (auto simp: ARRAY_MAX_CAPACITY_def)

text \<open>C36. Setting a dotted name keeps the object well formed even when it fails half way; when it
  succeeds, the same dotted name reads the value back and every top-level name but the first
  component of the dotted name is untouched.\<close>

theorem json_object_dotset_dotget:
  assumes "wf_object ob" and "nul_free name" and "wf_json v"
    and "json_object_dotset_value ob name v = (st, ob')"
  shows "wf_object ob' \<and> (st = JSONFailure \<or>
    json_object_dotget_value (Some ob') name = Some v \<and>
    (\<forall>n. n = first_name name \<or> json_object_get_value (Some ob') n = json_object_get_value (Some ob) n))"
proof (cases st)
  case JSONSuccess
  from dotset_get [OF assms(4) [unfolded JSONSuccess]] dotset_wf [OF assms(4,1-3)] show ?thesis
    by (cases ob; cases ob') auto
next
  case JSONFailure
  with dotset_wf [OF assms(4,1-3)] show ?thesis by simp
qed

theorem json_object_dotset_dotget_witness:
  "json_object_dotget_value (Some ([(''a'', JObject [(''b'', JNull)] 15)], 15)) ''a.b'' = Some JNull"
proof -
  have s: "dot_split ''a.b'' = Some (''a'', ''b'')" "dot_split ''b'' = None" by (simp_all add: dot_split_def)
  have "json_object_dotset_value ([], 0) ''a.b'' JNull = (JSONSuccess, ([(''a'', JObject [(''b'', JNull)] 15)], 15))"
    by (simp add: json_object_dotset_value.simps s json_object_get_object_def json_value_get_object_def
        json_object_set_value_def json_object_add_def grow_capacity_def STARTING_CAPACITY_def
        OBJECT_MAX_CAPACITY_def of_object_def)
  from json_object_dotset_dotget [OF _ _ _ this] show ?thesis by (simp add: of_object_def)
qed


text \<open>C15. \<open>json_serialize_to_file\<close> of a well-formed value is never undefined; the file it writes
  parses back to the value, but a file that cannot be opened is reported as success and left alone.\<close>

theorem json_file_roundtrip:
  assumes "wf_json v" and "printable v" and "nested_within 0 v"
    and "json_value_get_type (Some v) \<in> {JSONObject, JSONArray}"
    and "json_serialize_to_file p fill out fs (Some v) f = Some (st, fs')"
  shows "case out of
      Written \<Rightarrow> st = JSONSuccess \<and> json_parse_file fs' f = Some (Some (json_trim v))
    | Open_fails \<Rightarrow> st = JSONSuccess \<and> fs' = fs
    | Write_fails n \<Rightarrow> st = JSONFailure"
proof -
  obtain t where t: "json_serialize_to_string p fill (Some v) = Some (Some t)" "nul_free t"
    "json_parse_string (Some t) = Some (Some (json_trim v))"
    using json_text_roundtrip [OF assms(1-4)] by blast
  have tw: "takeWhile (\<lambda>c. c \<noteq> NUL) t = t" using t(2) by (auto simp: nul_free_def takeWhile_eq_all_conv)
  have "(case out of Open_fails \<Rightarrow> (JSONSuccess, fs) | Write_fails n \<Rightarrow> (JSONFailure, fs(f \<mapsto> take n t))
      | Written \<Rightarrow> (JSONSuccess, fs(f \<mapsto> t))) = (st, fs')"
    using assms(5) by (cases out) (simp_all add: json_serialize_to_file_def t(1))
  then show ?thesis using t(3) tw
    by (cases out) (auto simp: json_parse_file_def read_file_def simp del: takeWhile_eq_all_conv)
qed

theorem json_file_roundtrip_witness:
  "case json_serialize_to_file False NUL Written Map.empty (Some (JArray [JNull] 1)) ''f'' of
     Some (st, fs) \<Rightarrow> json_parse_file fs ''f'' = Some (Some (JArray [JNull] 1)) | None \<Rightarrow> False"
proof -
  obtain t where "json_serialize_to_string False NUL (Some (JArray [JNull] 1)) = Some (Some t)"
    using json_serialize_to_string_text [of "JArray [JNull] 1" False NUL] by (auto simp: ARRAY_MAX_CAPACITY_def)
  then show ?thesis
    using json_file_roundtrip [of "JArray [JNull] 1" False NUL Written Map.empty "''f''" JSONSuccess "[''f'' \<mapsto> t]"]
    by (simp add: ARRAY_MAX_CAPACITY_def MAX_NESTING_def json_serialize_to_file_def)
qed

end
