(* ===== verification/Url_Parser.thy ===== *)
theory Url_Parser
  imports C_Lib
begin

text \<open>
  The URL component, \<^verbatim>\<open>src/url_parser.c\<close> and \<^verbatim>\<open>src/url_parser.h\<close>: percent
  encoding and decoding, the decoded query buffer \<open>URL_BUF_STRUCT\<close>, and the searches for a
  parameter in it. Pointers into the buffer are offsets. The null tests of \<open>url_parse\<close> and
  \<open>get_param_value\<close> are on pointers that no caller passes as null (a local buffer, a string
  literal, a query string the callers test), so they are the constant branch here.
\<close>

section \<open>Hexadecimal digits\<close>

definition hexchars :: string where
  "hexchars = ''0123456789ABCDEF''"

text \<open>One digit of \<open>url_htoi\<close>: \<open>c >= '0' && c <= '9' ? c - '0' : c - 'a' + 10\<close>
  after lower-casing; an \<open>int\<close>, negative for some characters that are no digits.\<close>

definition htoi_digit :: "char \<Rightarrow> int" where
  "htoi_digit c = (let c = (if isupper c then tolower c else c) in
     if CHR ''0'' \<le> c \<and> c \<le> CHR ''9'' then of_char c - of_char (CHR ''0'')
     else of_char c - of_char (CHR ''a'') + 10)"

definition url_htoi :: "cbuf \<Rightarrow> nat \<Rightarrow> int option" where
  "url_htoi b i = do {
     x \<leftarrow> rd b i;
     y \<leftarrow> rd b (i + 1);
     Some (htoi_digit x * 16 + htoi_digit y) }"

section \<open>\<open>url_encode\<close>\<close>

definition url_escaped :: "char \<Rightarrow> bool" where
  "url_escaped c \<longleftrightarrow>
     (c < CHR ''0'' \<and> c \<noteq> CHR ''-'' \<and> c \<noteq> CHR ''.'') \<or>
     (c < CHR ''A'' \<and> c > CHR ''9'') \<or>
     (c > CHR ''Z'' \<and> c < CHR ''a'' \<and> c \<noteq> CHR ''_'') \<or>
     c > CHR ''z''"

fun url_encode_loop :: "string \<Rightarrow> cbuf \<Rightarrow> nat \<Rightarrow> (cbuf \<times> nat) option" where
  "url_encode_loop [] b to = Some (b, to)"
| "url_encode_loop (c # from) b to =
     (if c = CHR '' '' then
        do { b \<leftarrow> wr b to (CHR ''+''); url_encode_loop from b (to + 1) }
      else if url_escaped c then
        do { b \<leftarrow> wr b to (CHR ''%'');
             h \<leftarrow> rd hexchars (of_char c div 16);
             b \<leftarrow> wr b (to + 1) h;
             l \<leftarrow> rd hexchars (of_char c mod 16);
             b \<leftarrow> wr b (to + 2) l;
             url_encode_loop from b (to + 3) }
      else
        do { b \<leftarrow> wr b to c; url_encode_loop from b (to + 1) })"

text \<open>The result is the allocated buffer and the length stored through \<open>new_length\<close>. The size
  \<open>3 * len + 1\<close> is an \<open>int\<close> expression; beyond the range of \<open>int\<close> it is undefined.\<close>

definition url_encode :: "string \<Rightarrow> (cbuf \<times> nat) option" where
  "url_encode s = do {
     _ \<leftarrow> ub_unless (3 * length s + 1 < 2 ^ 31);
     (b, to) \<leftarrow> url_encode_loop s (replicate (3 * length s + 1) NUL) 0;
     b \<leftarrow> wr b to NUL;
     Some (b, to) }"

section \<open>\<open>url_decode\<close>, in place\<close>

text \<open>The test \<open>*data == '%' && len >= 2 && isxdigit(data[1]) && isxdigit(data[2])\<close>,
  short-circuiting: the two characters are read only when the tests before them hold.\<close>

definition at_escape :: "cbuf \<Rightarrow> nat \<Rightarrow> char \<Rightarrow> int \<Rightarrow> bool option" where
  "at_escape b data c len =
     (if c = CHR ''%'' \<and> 2 \<le> len then
        do { x \<leftarrow> rd b (data + 1);
             if isxdigit x then do { y \<leftarrow> rd b (data + 2); Some (isxdigit y) } else Some False }
      else Some False)"

function url_decode_loop :: "cbuf \<Rightarrow> nat \<Rightarrow> nat \<Rightarrow> int \<Rightarrow> (cbuf \<times> nat) option" where
  "url_decode_loop b dest data len0 =
     (if len0 = 0 then Some (b, dest)
      else
        let len = len0 - 1 in
        do {
          c \<leftarrow> rd b data;
          esc \<leftarrow> at_escape b data c len;
          if c = CHR ''+'' then
            do { b' \<leftarrow> wr b dest (CHR '' ''); url_decode_loop b' (dest + 1) (data + 1) len }
          else if esc then
            do { v \<leftarrow> url_htoi b (data + 1);
                 b' \<leftarrow> wr b dest (char_of v);
                 url_decode_loop b' (dest + 1) (data + 3) (len - 2) }
          else if c = CHR ''&'' then
            do { b' \<leftarrow> wr b dest NUL; url_decode_loop b' (dest + 1) (data + 1) len }
          else
            do { b' \<leftarrow> wr b dest c; url_decode_loop b' (dest + 1) (data + 1) len } })"
  by pat_completeness auto
termination
  by (relation "measure (\<lambda>(b, dest, data, len). length b - data)")
    (auto simp: c_mem split: if_splits)

declare url_decode_loop.simps [simp del]

definition url_decode :: "cbuf \<Rightarrow> int \<Rightarrow> (cbuf \<times> int) option" where
  "url_decode str len = do {
     (b, dest) \<leftarrow> url_decode_loop str 0 0 len;
     b \<leftarrow> wr b dest NUL;
     Some (b, int dest) }"

section \<open>The query buffer\<close>

definition URL_BUF_MAX_LEN :: nat where "URL_BUF_MAX_LEN = 4096"

record url_buf =
  buf :: cbuf
  len :: int

definition url_zero :: url_buf where
  "url_zero = \<lparr>buf = replicate URL_BUF_MAX_LEN NUL, len = 0\<rparr>"

text \<open>\<open>memcpy(url_buf->buf, url, strlen(url))\<close> has no bound and copies no terminator.\<close>

definition url_parse :: "url_buf \<Rightarrow> string \<Rightarrow> url_buf option" where
  "url_parse u url = do {
     b \<leftarrow> mem_write (buf u) 0 url;
     s \<leftarrow> cstr_at b 0;
     (b, n) \<leftarrow> url_decode b (int (length s));
     Some (u\<lparr>buf := b, len := n\<rparr>) }"

section \<open>Parameter search\<close>

text \<open>\<open>!strncmp(s, name, strlen(name)) && s[strlen(name)] == '='\<close>, the test of every search
  loop of the file.\<close>

definition name_eq_at :: "cbuf \<Rightarrow> nat \<Rightarrow> string \<Rightarrow> bool option" where
  "name_eq_at b s name = do {
     m \<leftarrow> strncmp_eq b s name;
     if m then do { c \<leftarrow> rd b (s + length name); Some (c = CHR ''='') } else Some False }"

function gpv_loop :: "cbuf \<Rightarrow> int \<Rightarrow> string \<Rightarrow> nat \<Rightarrow> nat option option" where
  "gpv_loop url url_len name cur = do {
     hit \<leftarrow> name_eq_at url cur name;
     if hit then Some (Some (cur + length name + 1))
     else do {
       s \<leftarrow> cstr_at url cur;
       if int (cur + length s + 1) \<ge> url_len then Some None
       else gpv_loop url url_len name (cur + length s + 1) } }"
  by pat_completeness auto
termination
  by (relation "measure (\<lambda>(url, url_len, name, cur). nat url_len - cur)") auto

declare gpv_loop.simps [simp del]

definition get_param_value :: "url_buf \<Rightarrow> string \<Rightarrow> nat option option" where
  "get_param_value u name =
     (if len u \<le> 0 then Some None else gpv_loop (buf u) (len u) name 0)"

text \<open>\<open>get_param_array\<close>: the first place among the \<open>len\<close> positions from \<open>buf\<close> on where
  \<open>name=\<close> stands, whatever stands before it. The scan does not stop at a NUL.\<close>

fun gpa_loop :: "cbuf \<Rightarrow> nat \<Rightarrow> string \<Rightarrow> nat \<Rightarrow> nat option option" where
  "gpa_loop b s name 0 = Some None"
| "gpa_loop b s name (Suc n) = do {
     hit \<leftarrow> name_eq_at b s name;
     if hit then Some (Some (s + length name + 1)) else gpa_loop b (s + 1) name n }"

definition get_param_array :: "cbuf \<Rightarrow> nat \<Rightarrow> string \<Rightarrow> int \<Rightarrow> nat option option" where
  "get_param_array b s name n = gpa_loop b s name (nat n)"

text \<open>\<open>getparam\<close> copies the value of the last \<open>name=\<close> seen into \<open>param\<close> when it meets the
  end of a non-empty value. \<open>p\<close> starts at the end of the string, so \<open>s - p\<close> is negative
  before a match.\<close>

function getparam_loop ::
    "cbuf \<Rightarrow> string \<Rightarrow> cbuf \<Rightarrow> nat \<Rightarrow> nat \<Rightarrow> (cbuf \<times> nat) option" where
  "getparam_loop b name param p s = do {
     hit \<leftarrow> name_eq_at b s name;
     c \<leftarrow> rd b s;
     let p = (if hit then s + length name + 1 else p) in
     if (c = CHR ''&'' \<or> c = NUL) \<and> p < s then
       do { param \<leftarrow> mem_write param 0 (take (s - p) (drop p b));
            param \<leftarrow> wr param (s - p) NUL;
            Some (param, s - p) }
     else if c = NUL then Some (param, 0)
     else getparam_loop b name param p (s + 1) }"
  by pat_completeness auto
termination
  by (relation "measure (\<lambda>(b, name, param, p, s). length b - s)") (auto simp: c_mem)

declare getparam_loop.simps [simp del]

definition getparam :: "cbuf \<Rightarrow> string \<Rightarrow> cbuf \<Rightarrow> (cbuf \<times> nat) option" where
  "getparam b name param = do {
     s \<leftarrow> cstr_at b 0;
     getparam_loop b name param (length s) 0 }"

text \<open>\<open>getparam_data\<close> cuts a fixed-length value out of the buffer by writing a NUL behind it.\<close>

function getparam_data_loop ::
    "cbuf \<Rightarrow> string \<Rightarrow> nat \<Rightarrow> nat \<Rightarrow> (cbuf \<times> nat option) option" where
  "getparam_data_loop b name n s = do {
     c \<leftarrow> rd b s;
     if c = NUL then Some (b, None)
     else do {
       rest \<leftarrow> cstr_at b s;
       if length rest < length name then Some (b, None)
       else do {
         hit \<leftarrow> name_eq_at b s name;
         if hit \<and> length rest > length name + n then
           do { b' \<leftarrow> wr b (s + length name + 1 + n) NUL;
                Some (b', Some (s + length name + 1)) }
         else getparam_data_loop b name n (s + 1) } } }"
  by pat_completeness auto
termination
  by (relation "measure (\<lambda>(b, name, n, s). length b - s)") (auto simp: c_mem)

declare getparam_data_loop.simps [simp del]

definition getparam_data :: "cbuf \<Rightarrow> string \<Rightarrow> nat \<Rightarrow> (cbuf \<times> nat option) option" where
  "getparam_data b name n = getparam_data_loop b name n 0"

lemma hexchars_nibble:
  assumes "n < 16"
  shows "isxdigit (hexchars ! n)" and "htoi_digit (hexchars ! n) = int n"
proof -
  have "list_all (\<lambda>n. isxdigit (hexchars ! n) \<and> htoi_digit (hexchars ! n) = int n) [0..<16]"
    by code_simp
  with assms show "isxdigit (hexchars ! n)" and "htoi_digit (hexchars ! n) = int n"
    by (auto simp: list_all_iff)
qed

lemma url_safe_char:
  "\<not> url_escaped c \<Longrightarrow> c \<noteq> CHR ''+'' \<and> c \<noteq> CHR ''%'' \<and> c \<noteq> CHR ''&''"
  by (auto simp: url_escaped_def)

section \<open>Decoding in place against a reference\<close>

definition decode_plain :: "char \<Rightarrow> char" where
  "decode_plain c = (if c = CHR ''+'' then CHR '' '' else if c = CHR ''&'' then NUL else c)"

fun starts_escape :: "string \<Rightarrow> bool" where
  "starts_escape (c # x # y # t) \<longleftrightarrow> c = CHR ''%'' \<and> isxdigit x \<and> isxdigit y"
| "starts_escape s \<longleftrightarrow> False"

fun url_decode_ref :: "string \<Rightarrow> string" where
  "url_decode_ref [] = []"
| "url_decode_ref (c # s) =
     (if starts_escape (c # s)
      then char_of (htoi_digit (s ! 0) * 16 + htoi_digit (s ! 1)) # url_decode_ref (drop 2 s)
      else decode_plain c # url_decode_ref s)"

lemmas url_decode_ref_Cons = url_decode_ref.simps(2)

declare url_decode_ref.simps(2) [simp del]

lemma decode_ref_escape:
  "isxdigit x \<Longrightarrow> isxdigit y \<Longrightarrow> url_decode_ref (CHR ''%'' # x # y # t) =
     char_of (htoi_digit x * 16 + htoi_digit y) # url_decode_ref t"
  by (simp add: url_decode_ref_Cons)

lemma decode_ref_plain:
  "\<not> starts_escape (c # s) \<Longrightarrow> url_decode_ref (c # s) = decode_plain c # url_decode_ref s"
  by (simp add: url_decode_ref_Cons)

lemma starts_escape_Cons: "starts_escape (c # s) \<longleftrightarrow>
   c = CHR ''%'' \<and> 2 \<le> length s \<and> isxdigit (s ! 0) \<and> isxdigit (s ! 1)"
  by (cases "c # s" rule: starts_escape.cases) auto

lemma url_decode_ref_length: "length (url_decode_ref s) \<le> length s"
  by (induction s rule: url_decode_ref.induct) (auto simp: url_decode_ref_Cons starts_escape_Cons)

text \<open>One character written at \<open>dest\<close>, the scan resumed further on.\<close>

definition decode_step :: "cbuf \<Rightarrow> nat \<Rightarrow> nat \<Rightarrow> nat \<Rightarrow> bool" where
  "decode_step b dest data n \<longleftrightarrow>
     url_decode_loop b dest data (int n) =
       (let r = url_decode_ref (take n (drop data b)) in
        Some (take dest b @ r @ drop (dest + length r) b, dest + length r))"

lemma decode_step_write:
  assumes "decode_step (b[dest := v]) (Suc dest) data' n'" and "dest < data'" and "dest < length b"
  shows "url_decode_loop (b[dest := v]) (Suc dest) data' (int n') =
     (let r = v # url_decode_ref (take n' (drop data' b)) in
      Some (take dest b @ r @ drop (dest + length r) b, dest + length r))"
  using assms by (simp add: decode_step_def Let_def take_Suc_conv_app_nth)

lemma url_decode_loop_ref:
  "dest \<le> data \<Longrightarrow> data + n \<le> length b \<Longrightarrow> decode_step b dest data n"
proof (induction n arbitrary: b dest data rule: less_induct)
  case (less n)
  show ?case
  proof (cases n)
    case 0
    then show ?thesis by (simp add: decode_step_def url_decode_loop.simps)
  next
    case (Suc m)
    let ?c = "b ! data"
    have data: "data < length b" and dest: "dest < length b" using less.prems Suc by auto
    have split: "take n (drop data b) = ?c # take m (drop (Suc data) b)"
      using data Suc by (simp add: Cons_nth_drop_Suc [symmetric])
    have step: "decode_step (b[dest := v]) (Suc dest) (Suc data) m" for v
      using less.prems Suc by (intro less.IH) auto
    note one = decode_step_write [OF step, simplified]
    note unfold = url_decode_loop.simps [of b dest data]
    show ?thesis
    proof (cases "starts_escape (?c # take m (drop (Suc data) b))")
      case True
      then obtain k where m: "m = Suc (Suc k)"
        by (cases m; cases "m - 1") (auto simp: starts_escape_Cons)
      have len: "Suc (Suc data) < length b" using less.prems Suc m by simp
      have two: "take m (drop (Suc data) b) =
          b ! Suc data # b ! Suc (Suc data) # take k (drop (Suc (Suc (Suc data))) b)"
        using len m by (simp add: Cons_nth_drop_Suc [symmetric])
      from True have hex: "?c = CHR ''%''" "isxdigit (b ! Suc data)" "isxdigit (b ! Suc (Suc data))"
        by (simp_all add: two)
      have "decode_step (b[dest := v]) (Suc dest) (Suc (Suc (Suc data))) k" for v
        using less.prems Suc m by (intro less.IH) auto
      note three = decode_step_write [OF this]
      have ref: "url_decode_ref (take n (drop data b)) =
          char_of (htoi_digit (b ! Suc data) * 16 + htoi_digit (b ! Suc (Suc data)))
          # url_decode_ref (take k (drop (Suc (Suc (Suc data))) b))"
        using hex by (simp add: split two decode_ref_escape)
      show ?thesis
        unfolding decode_step_def ref using hex len data dest less.prems m
        by (subst unfold) (simp add: Suc at_escape_def url_htoi_def three Let_def numeral_3_eq_3)
    next
      case False
      have esc: "at_escape b data ?c (int m) = Some False"
      proof (cases "?c = CHR ''%'' \<and> 2 \<le> m")
        case True
        then have "Suc (Suc data) < length b" using less.prems Suc by simp
        with True False show ?thesis by (auto simp: at_escape_def starts_escape_Cons)
      qed (auto simp: at_escape_def)
      show ?thesis
        unfolding decode_step_def split decode_ref_plain [OF False]
        using data dest less.prems Suc
        by (subst unfold) (simp add: esc one Let_def decode_plain_def)
    qed
  qed
qed

lemma url_decode_in_place:
  assumes "n < length b"
  shows "url_decode b (int n) =
    (let r = url_decode_ref (take n b) in
     Some (r @ NUL # drop (Suc (length r)) b, int (length r)))"
proof -
  let ?r = "url_decode_ref (take n b)"
  have "length ?r \<le> n" using url_decode_ref_length [of "take n b"] assms by simp
  moreover have "url_decode_loop b 0 0 (int n) = Some (?r @ drop (length ?r) b, length ?r)"
    using url_decode_loop_ref [of 0 0 n b] assms by (simp add: decode_step_def Let_def)
  ultimately show ?thesis
    using assms by (simp add: url_decode_def Let_def Cons_nth_drop_Suc [symmetric])
qed

section \<open>Encoding and the round trip\<close>

definition url_encode_char :: "char \<Rightarrow> string" where
  "url_encode_char c =
     (if c = CHR '' '' then ''+''
      else if url_escaped c then
        [CHR ''%'', hexchars ! (of_char c div 16), hexchars ! (of_char c mod 16)]
      else [c])"

abbreviation url_encode_ref :: "string \<Rightarrow> string" where
  "url_encode_ref s \<equiv> concat (map url_encode_char s)"

lemma url_encode_char_length: "0 < length (url_encode_char c) \<and> length (url_encode_char c) \<le> 3"
  by (simp add: url_encode_char_def)

lemma url_encode_ref_length: "length (url_encode_ref s) \<le> 3 * length s"
proof (induction s)
  case (Cons c s)
  then show ?case using url_encode_char_length [of c] by simp
qed simp

lemma nibbles_less: "of_char c div 16 < (16::nat)" "of_char c mod 16 < (16::nat)"
  using nat_of_char_less_256 [of c] by (simp_all add: less_mult_imp_div_less)

lemma hexchars_rd: "n < 16 \<Longrightarrow> rd hexchars n = Some (hexchars ! n)"
  by (simp add: hexchars_def)

lemma url_encode_loop_ref:
  "length (url_encode_ref s) \<le> length post \<Longrightarrow>
   url_encode_loop s (pre @ post) (length pre) =
     Some (pre @ url_encode_ref s @ drop (length (url_encode_ref s)) post,
           length pre + length (url_encode_ref s))"
proof (induction s arbitrary: pre post)
  case (Cons c s)
  define e where "e = url_encode_char c"
  have e: "length e \<le> length post" "0 < length e" "length e \<le> 3"
    using Cons.prems url_encode_char_length [of c] by (simp_all add: e_def)
  have rest: "length (url_encode_ref s) \<le> length (drop (length e) post)"
    using Cons.prems by (simp add: e_def)
  have IH: "url_encode_loop s (pre @ e @ drop (length e) post) (length pre + length e) =
      Some (pre @ e @ url_encode_ref s @ drop (length e + length (url_encode_ref s)) post,
            length pre + (length e + length (url_encode_ref s)))"
    using Cons.IH [OF rest, of "pre @ e"] by (simp add: ac_simps)
  obtain y ys where post: "post = y # ys" using e by (cases post) auto
  consider (space) "c = CHR '' ''" | (escaped) "c \<noteq> CHR '' ''" "url_escaped c"
    | (plain) "c \<noteq> CHR '' ''" "\<not> url_escaped c" by blast
  then show ?case
  proof cases
    case space
    then have "url_encode_char c = ''+''" by (simp add: url_encode_char_def)
    with space IH show ?thesis by (simp add: post e_def)
  next
    case escaped
    then have e3: "e = [CHR ''%'', hexchars ! (of_char c div 16), hexchars ! (of_char c mod 16)]"
      by (simp add: e_def url_encode_char_def)
    with e(1) obtain y2 y3 zs where ys: "ys = y2 # y3 # zs"
      by (auto simp: post Suc_le_length_iff)
    have "url_encode_loop (c # s) (pre @ post) (length pre) =
        url_encode_loop s (pre @ e @ drop (length e) post) (length pre + length e)"
      using escaped nibbles_less [of c]
      by (simp add: e3 post ys hexchars_rd list_update_append numeral_2_eq_2 numeral_3_eq_3)
    with IH show ?thesis by (simp add: e_def [symmetric])
  next
    case plain
    then have "e = [c]" by (simp add: e_def url_encode_char_def)
    with plain IH show ?thesis by (simp add: post e_def [symmetric])
  qed
qed simp

lemma url_encode_defined:
  assumes "3 * length s + 1 < 2 ^ 31"
  shows "url_encode s = Some (url_encode_ref s @ NUL # replicate (3 * length s - length (url_encode_ref s)) NUL,
           length (url_encode_ref s))"
proof -
  let ?n = "length (url_encode_ref s)" and ?z = "replicate (3 * length s + 1) NUL"
  have n: "?n \<le> 3 * length s" by (rule url_encode_ref_length)
  then have z: "drop ?n ?z = NUL # replicate (3 * length s - ?n) NUL"
    by (simp flip: replicate_Suc add: Suc_diff_le)
  have "url_encode_loop s ([] @ ?z) (length ([]::string)) =
      Some ([] @ url_encode_ref s @ drop ?n ?z, length ([]::string) + ?n)"
    using n by (intro url_encode_loop_ref) simp
  then have "url_encode_loop s ?z 0 = Some (url_encode_ref s @ drop ?n ?z, ?n)" by simp
  with assms show ?thesis unfolding url_encode_def z by simp
qed

lemma decode_encode_char:
  "url_decode_ref (url_encode_char c @ t) = c # url_decode_ref t"
proof (cases "c = CHR '' ''")
  case True
  then show ?thesis by (simp add: url_encode_char_def decode_ref_plain decode_plain_def starts_escape_Cons)
next
  case False
  show ?thesis
  proof (cases "url_escaped c")
    case True
    have "int (of_char c div 16) * 16 + int (of_char c mod 16) = int (of_char c)"
      using div_mult_mod_eq [of "of_char c" "16::nat"]
      by (metis of_nat_add of_nat_mult of_nat_numeral)
    then have "char_of (int (of_char c div 16) * 16 + int (of_char c mod 16)) = c"
      by (simp only: of_nat_of_char char_of_char)
    with True False nibbles_less [of c] show ?thesis
      by (simp add: url_encode_char_def decode_ref_escape hexchars_nibble)
  next
    case esc: False
    with False url_safe_char [OF esc] show ?thesis
      by (simp add: url_encode_char_def decode_ref_plain decode_plain_def starts_escape_Cons)
  qed
qed

lemma decode_encode_ref: "url_decode_ref (url_encode_ref s) = s"
  by (induction s) (simp_all add: decode_encode_char)

section \<open>Decoding and the fields of a query\<close>

lemma decode_ref_field:
  "url_decode_ref (s @ CHR ''&'' # t) = url_decode_ref s @ NUL # url_decode_ref t"
proof (induction s rule: url_decode_ref.induct)
  case 1
  then show ?case by (simp add: decode_ref_plain starts_escape_Cons decode_plain_def)
next
  case (2 c s)
  show ?case
  proof (cases "starts_escape (c # s)")
    case True
    then obtain x y u where "s = x # y # u"
      by (auto simp: starts_escape_Cons Suc_le_length_iff numeral_2_eq_2)
    with True 2 show ?thesis by (simp add: decode_ref_escape)
  next
    case False
    moreover have "\<not> isxdigit (CHR ''&'')" by (simp add: isxdigit_def isdigit_def)
    ultimately have "\<not> starts_escape (c # s @ CHR ''&'' # t)"
      using False by (cases s; cases "tl s") (auto simp: starts_escape_Cons)
    with False 2 show ?thesis by (simp add: decode_ref_plain)
  qed
qed

lemma split_fields_decode:
  "split_fields NUL (url_decode_ref q) =
     concat (map (split_fields NUL \<circ> url_decode_ref) (split_fields (CHR ''&'') q))"
proof (induction q rule: length_induct)
  case (1 q)
  show ?case
  proof (cases "CHR ''&'' \<in> set q")
    case True
    then obtain s t where q: "q = s @ CHR ''&'' # t" and s: "CHR ''&'' \<notin> set s"
      by (blast dest: split_list_first)
    then have "length t < length q" by simp
    with "1" have "split_fields NUL (url_decode_ref t) =
        concat (map (split_fields NUL \<circ> url_decode_ref) (split_fields (CHR ''&'') t))" by blast
    with s show ?thesis
      by (simp add: q decode_ref_field split_fields_append split_fields_no_sep comp_def)
  next
    case False
    then show ?thesis by (simp add: split_fields_no_sep)
  qed
qed

section \<open>Parameter lookup against the fields of the query\<close>

text \<open>The value of the first field that reads \<open>name=value\<close>.\<close>

fun find_param :: "string \<Rightarrow> string list \<Rightarrow> string option" where
  "find_param name [] = None"
| "find_param name (f # fs) =
     (if take (Suc (length name)) f = name @ ''='' then Some (drop (Suc (length name)) f)
      else find_param name fs)"

definition query_param :: "string \<Rightarrow> string \<Rightarrow> string option" where
  "query_param q name = find_param name (split_fields NUL (url_decode_ref q))"

lemma find_param_empty: "find_param name [[]] = None"
  by simp

text \<open>The test of the loop at the start of a field.\<close>

lemma name_eq_at_field:
  assumes "nul_free name" and "nul_free f"
  shows "name_eq_at (pre @ f @ NUL # post) (length pre) name =
     Some (take (Suc (length name)) f = name @ ''='')"
proof -
  let ?b = "pre @ f @ NUL # post"
  have m: "strncmp_eq ?b (length pre) name = Some (take (length name) (f @ NUL # post) = name)"
    using strncmp_eq_append [of "length pre" ?b name] assms(1) by simp
  show ?thesis
  proof (cases "take (length name) (f @ NUL # post) = name")
    case True
    have len: "length name \<le> length f"
    proof (rule ccontr)
      assume "\<not> ?thesis"
      with True have "f @ NUL # take (length name - Suc (length f)) post = name"
        by (simp add: take_Cons')
      then have "NUL \<in> set name" by (metis in_set_conv_decomp)
      with assms(1) show False by (simp add: nul_free_def)
    qed
    with True have take_f: "take (length name) f = name" by simp
    show ?thesis
    proof (cases "length name < length f")
      case True
      with take_f m show ?thesis by (simp add: name_eq_at_def nth_append take_Suc_conv_app_nth)
    next
      case False
      with len have l: "length name = length f" by simp
      have "f = name" using take_f unfolding l by simp
      with m show ?thesis by (simp add: name_eq_at_def nth_append)
    qed
  next
    case False
    have "take (Suc (length name)) f \<noteq> name @ ''=''"
    proof
      assume eq: "take (Suc (length name)) f = name @ ''=''"
      from arg_cong [OF eq, of length] have "length name < length f" by (simp add: min_def split: if_splits)
      have "take (length name) (take (Suc (length name)) f) = name" unfolding eq by simp
      then have "take (length name) f = name" by (simp add: min_def)
      with False \<open>length name < length f\<close> show False by simp
    qed
    with False m show ?thesis by (simp add: name_eq_at_def)
  qed
qed

text \<open>The fields of a text are found one after the other.\<close>

lemma split_fields_cases:
  obtains (last) "nul_free s" "split_fields NUL s = [s]"
  | (more) f t where "s = f @ NUL # t" "nul_free f" "split_fields NUL s = f # split_fields NUL t"
proof (cases "NUL \<in> set s")
  case True
  then obtain f t where "s = f @ NUL # t" and "NUL \<notin> set f" by (blast dest: split_list_first)
  then show ?thesis by (intro more) (auto simp: nul_free_def split_fields_append split_fields_no_sep)
next
  case False
  then show ?thesis by (intro last) (auto simp: nul_free_def split_fields_no_sep)
qed

definition lookup_agrees :: "cbuf \<Rightarrow> nat option option \<Rightarrow> string option \<Rightarrow> bool" where
  "lookup_agrees b r v \<longleftrightarrow>
     (case v of None \<Rightarrow> r = Some None
      | Some w \<Rightarrow> \<exists>p. r = Some (Some p) \<and> cstr_at b p = Some w)"

lemma lookup_agrees_hit:
  assumes "nul_free f" and "take (Suc n) f = name @ ''=''" and "n = length name"
  shows "lookup_agrees (pre @ f @ NUL # post) (Some (Some (length pre + n + 1))) (Some (drop (Suc n) f))"
proof -
  obtain r where f: "f = name @ CHR ''='' # r" and r: "drop (Suc n) f = r"
    using assms(2) by (metis append_take_drop_id append.assoc append_Cons append_Nil)
  with assms(1) have "nul_free r" by simp
  then have "cstr_at ((pre @ name @ ''='') @ r @ NUL # post) (length (pre @ name @ ''='')) = Some r"
    by (rule cstr_at_append)
  then show ?thesis by (simp add: lookup_agrees_def f r [unfolded f] assms(3))
qed

lemma gpv_loop_fields:
  assumes "nul_free name"
  shows "lookup_agrees (pre @ s @ NUL # post)
     (gpv_loop (pre @ s @ NUL # post) (int (length pre + length s)) name (length pre))
     (find_param name (split_fields NUL s))"
proof (induction "length s" arbitrary: pre s rule: less_induct)
  case less
  let ?b = "pre @ s @ NUL # post"
  let ?n = "Suc (length name)"
  show ?case
  proof (cases rule: split_fields_cases [of s])
    case last
    note hit = name_eq_at_field [OF assms last(1), of pre post]
    show ?thesis
    proof (cases "take ?n s = name @ ''=''")
      case True
      with hit lookup_agrees_hit [OF last(1) True, of pre post] show ?thesis
        by (simp add: gpv_loop.simps [of ?b] last(2))
    next
      case False
      with hit last(1) show ?thesis
        by (simp add: gpv_loop.simps [of ?b] last(2) cstr_at_append lookup_agrees_def)
    qed
  next
    case (more f t)
    let ?post = "t @ NUL # post"
    have b: "?b = pre @ f @ NUL # ?post" by (simp add: more(1))
    note hit = name_eq_at_field [OF assms more(2), of pre ?post]
    show ?thesis
    proof (cases "take ?n f = name @ ''=''")
      case True
      with hit lookup_agrees_hit [OF more(2) True, of pre ?post] show ?thesis
        unfolding b by (simp add: gpv_loop.simps [of "pre @ f @ NUL # ?post"] more(3))
    next
      case False
      have next_field: "lookup_agrees ?b
          (gpv_loop ?b (int (length pre + length s)) name (length pre + length f + 1))
          (find_param name (split_fields NUL t))"
        using less [of t "pre @ f @ [NUL]"] by (simp add: more(1) ac_simps)
      have step: "gpv_loop ?b (int (length pre + length s)) name (length pre) =
          (if t = [] then Some None
           else gpv_loop ?b (int (length pre + length s)) name (length pre + length f + 1))"
        unfolding b using False hit more(1,2)
        by (subst gpv_loop.simps) (simp add: cstr_at_append)
      show ?thesis
      proof (cases "t = []")
        case True
        with step False show ?thesis by (simp add: more(3) lookup_agrees_def)
      next
        case t: False
        with step False next_field show ?thesis by (simp add: more(3))
      qed
    qed
  qed
qed

section \<open>The query buffer\<close>

text \<open>A buffer that holds the decoded text \<open>s\<close>: what \<open>url_parse\<close> leaves behind.\<close>

definition url_holds :: "url_buf \<Rightarrow> string \<Rightarrow> bool" where
  "url_holds u s \<longleftrightarrow> len u = int (length s) \<and> length (buf u) = URL_BUF_MAX_LEN
     \<and> take (Suc (length s)) (buf u) = s @ [NUL] \<and> length s < URL_BUF_MAX_LEN"

lemma url_holdsE:
  assumes "url_holds u s"
  obtains post where "buf u = s @ NUL # post" "len u = int (length s)"
proof
  let ?post = "drop (Suc (length s)) (buf u)"
  show "buf u = s @ NUL # ?post"
    using assms append_take_drop_id [of "Suc (length s)" "buf u"] by (simp add: url_holds_def)
  show "len u = int (length s)" using assms by (simp add: url_holds_def)
qed

lemma get_param_value_holds:
  assumes "url_holds u s" and "nul_free name"
  shows "lookup_agrees (buf u) (get_param_value u name) (find_param name (split_fields NUL s))"
  using assms(1)
proof (cases rule: url_holdsE)
  case (1 post)
  show ?thesis
  proof (cases "s = []")
    case True
    then show ?thesis by (simp add: 1 get_param_value_def lookup_agrees_def)
  next
    case False
    with 1 gpv_loop_fields [OF assms(2), of "[]" s post] show ?thesis
      by (simp add: get_param_value_def)
  qed
qed

lemma url_parse_holds:
  assumes "nul_free q" and "length q < URL_BUF_MAX_LEN"
  shows "\<exists>u. url_parse url_zero q = Some u \<and> url_holds u (url_decode_ref q)"
proof -
  let ?b = "q @ replicate (URL_BUF_MAX_LEN - length q) NUL"
  have z: "replicate (URL_BUF_MAX_LEN - length q) NUL =
      NUL # replicate (URL_BUF_MAX_LEN - Suc (length q)) NUL"
    using assms(2) by (simp flip: replicate_Suc add: Suc_diff_Suc)
  have w: "mem_write (buf url_zero) 0 q = Some ?b"
    using assms(2) by (simp add: url_zero_def mem_write_inside)
  have c: "cstr_at ?b 0 = Some q"
    using cstr_at_append [OF assms(1), of "[]"] by (simp add: z)
  have d: "url_decode ?b (int (length q)) =
      Some (url_decode_ref q @ NUL # drop (Suc (length (url_decode_ref q))) ?b,
            int (length (url_decode_ref q)))"
    using url_decode_in_place [of "length q" ?b] assms(2) by (simp add: Let_def)
  have "length (url_decode_ref q) \<le> length q" by (rule url_decode_ref_length)
  with w c d assms(2) show ?thesis
    by (auto simp: url_parse_def url_holds_def simp del: drop_append)
qed

lemma url_parse_overflow:
  assumes "nul_free q" and "URL_BUF_MAX_LEN \<le> length q"
  shows "url_parse url_zero q = None"
proof (cases "URL_BUF_MAX_LEN < length q")
  case True
  then have "mem_write (buf url_zero) 0 q = None"
    by (intro mem_write_outside) (auto simp: url_zero_def)
  then show ?thesis by (simp add: url_parse_def)
next
  case False
  with assms(2) have "mem_write (buf url_zero) 0 q = Some q"
    by (simp add: url_zero_def mem_write_inside)
  moreover have "cstr_at q 0 = None"
    using assms(1) by (simp add: cstr_at_def nul_free_def)
  ultimately show ?thesis by (simp add: url_parse_def)
qed

section \<open>The interface the request handlers rely on\<close>

text \<open>What \<^verbatim>\<open>web_pro.c\<close> uses of the query buffer: a lookup that returns a pointer or
  null, and reading the string behind a pointer.\<close>

locale param_store =
  fixes get :: "'u \<Rightarrow> string \<Rightarrow> nat option option"
    and val :: "'u \<Rightarrow> nat \<Rightarrow> string option"
    and holds :: "'u \<Rightarrow> string \<Rightarrow> bool"
    and look :: "string \<Rightarrow> string \<Rightarrow> string option"
  assumes get_absent: "holds u s \<Longrightarrow> nul_free n \<Longrightarrow> look n s = None \<Longrightarrow> get u n = Some None"
    and get_present: "holds u s \<Longrightarrow> nul_free n \<Longrightarrow> look n s = Some v \<Longrightarrow>
      \<exists>p. get u n = Some (Some p) \<and> val u p = Some v"
begin

lemma get_defined: "holds u s \<Longrightarrow> nul_free n \<Longrightarrow> \<exists>r. get u n = Some r"
  by (cases "look n s") (auto dest: get_absent get_present)

lemma get_null_iff: "holds u s \<Longrightarrow> nul_free n \<Longrightarrow> get u n = Some None \<longleftrightarrow> look n s = None"
  by (cases "look n s") (auto dest: get_absent get_present)

lemma value_read: "holds u s \<Longrightarrow> nul_free n \<Longrightarrow> get u n = Some (Some p) \<Longrightarrow> val u p = look n s"
  by (cases "look n s") (auto dest: get_absent get_present)

end

definition param_of :: "string \<Rightarrow> string \<Rightarrow> string option" where
  "param_of name s = find_param name (split_fields NUL s)"

interpretation query: param_store get_param_value "\<lambda>u. cstr_at (buf u)" url_holds param_of
proof unfold_locales
  fix u s n
  assume u: "url_holds u s" and n: "nul_free n" and "param_of n s = None"
  then show "get_param_value u n = Some None"
    using get_param_value_holds [OF u n] by (simp add: lookup_agrees_def param_of_def)
next
  fix u s n v
  assume u: "url_holds u s" and n: "nul_free n" and "param_of n s = Some v"
  then show "\<exists>p. get_param_value u n = Some (Some p) \<and> cstr_at (buf u) p = Some v"
    using get_param_value_holds [OF u n] by (simp add: lookup_agrees_def param_of_def)
qed

lemma query_param_eq: "query_param q name = param_of name (url_decode_ref q)"
  by (simp add: query_param_def param_of_def)

section \<open>Properties\<close>

text \<open>C1. A query shorter than the 4096-byte buffer is parsed without undefined behaviour, and
  \<open>get_param_value\<close> then returns null exactly when no \<open>&\<close>-separated field of the query reads
  \<open>name=...\<close> after decoding, and otherwise a pointer to the decoded value of the first such
  field, terminated inside the buffer. (An encoded NUL, \<open>%00\<close>, also separates fields.)\<close>

theorem query_param_lookup:
  assumes "nul_free q" and "length q < URL_BUF_MAX_LEN" and "nul_free name"
  shows "\<exists>u. url_parse url_zero q = Some u \<and>
    (case find_param name (concat (map (split_fields NUL \<circ> url_decode_ref) (split_fields (CHR ''&'') q))) of
       None \<Rightarrow> get_param_value u name = Some None
     | Some v \<Rightarrow> \<exists>p. get_param_value u name = Some (Some p) \<and> cstr_at (buf u) p = Some v)"
proof -
  from url_parse_holds [OF assms(1,2)] obtain u
    where "url_parse url_zero q = Some u" and u: "url_holds u (url_decode_ref q)" by blast
  with get_param_value_holds [OF u assms(3)] show ?thesis
    by (auto simp: lookup_agrees_def split_fields_decode)
qed

theorem query_param_lookup_witness:
  "\<exists>u. url_parse url_zero ''guide=get%69p&x=1'' = Some u \<and>
    (\<exists>p. get_param_value u ''guide'' = Some (Some p) \<and> cstr_at (buf u) p = Some ''getip'')"
proof -
  have v: "find_param ''guide'' (concat (map (split_fields NUL \<circ> url_decode_ref)
      (split_fields (CHR ''&'') ''guide=get%69p&x=1''))) = Some ''getip''" by code_simp
  show ?thesis
    using query_param_lookup [of "''guide=get%69p&x=1''" "''guide''"]
    unfolding v by (simp add: URL_BUF_MAX_LEN_def)
qed

text \<open>C38. Parsing a query into a cleared buffer is defined exactly when the query is shorter than
  the buffer: \<open>memcpy\<close> has no bound, so a query of 4096 bytes or more writes or reads past the
  buffer.\<close>

theorem url_parse_bounds:
  assumes "nul_free q"
  shows "url_parse url_zero q = None \<longleftrightarrow> URL_BUF_MAX_LEN \<le> length q"
  using url_parse_overflow [OF assms] url_parse_holds [OF assms] by fastforce

theorem url_parse_bounds_witness: "url_parse url_zero (replicate 4096 (CHR ''a'')) = None"
  using url_parse_bounds [of "replicate 4096 (CHR ''a'')"] by (simp add: URL_BUF_MAX_LEN_def nul_free_def)

text \<open>C39. Decoding undoes encoding: \<open>url_encode\<close> never writes outside the buffer it allocates,
  whatever the bytes of the string, and \<open>url_decode\<close> in place on its output gives the string
  back and its length.\<close>

theorem url_encode_decode:
  assumes "3 * length s + 1 < 2 ^ 31"
  shows "\<exists>b n b'. url_encode s = Some (b, n) \<and> url_decode b (int n) = Some (b', int (length s))
    \<and> take (length s) b' = s"
proof -
  let ?e = "url_encode_ref s"
  let ?b = "?e @ NUL # replicate (3 * length s - length ?e) NUL"
  have "url_decode ?b (int (length ?e)) =
      Some (s @ NUL # drop (Suc (length s)) ?b, int (length s))"
    using url_decode_in_place [of "length ?e" ?b] by (simp add: decode_encode_ref Let_def)
  with url_encode_defined [OF assms] show ?thesis by (auto simp del: drop_append)
qed

theorem url_encode_decode_witness:
  "\<exists>b n b'. url_encode ''a b&c%'' = Some (b, n) \<and> url_decode b (int n) = Some (b', 6)
    \<and> take 6 b' = ''a b&c%''"
proof -
  have l: "length ''a b&c%'' = 6" by simp
  show ?thesis using url_encode_decode [of "''a b&c%''", unfolded l] by simp
qed

text \<open>C40. The in-place decoder, which reads ahead and writes behind in one array, computes the
  pure reference decoding of the first \<open>n\<close> characters, writes one NUL behind it, leaves the rest of
  the array as it was and returns the decoded length.\<close>

theorem url_decode_refines:
  assumes "n < length b"
  shows "url_decode b (int n) =
    (let r = url_decode_ref (take n b) in
     Some (r @ NUL # drop (Suc (length r)) b, int (length r)))"
  by (rule url_decode_in_place [OF assms])

theorem url_decode_refines_witness:
  "url_decode (''%41+b&%zz'' @ [NUL]) 9 = Some (''A b'' @ [NUL] @ ''%zz'' @ [NUL] @ [CHR ''z'', NUL], 7)"
  using url_decode_refines [of 9 "''%41+b&%zz'' @ [NUL]"] by code_simp

end
