(* ===== verification/Web_State.thy ===== *)
theory Web_State
  imports Guide Json_Ops Url_Parser
begin

text \<open>
  What the request handlers of \<^verbatim>\<open>src/web_pro.c\<close> act on: the shared state, the pipe to the
  receiver, the files, the log and the response. A handler takes the world and gives the changed world,
  or \<open>None\<close> where the code has no defined behaviour. The answers of the environment are part of the
  world: \<open>w_faults\<close> says which of the next \<open>write\<close> calls fail (after the list all succeed, and a
  successful one writes everything: the commands are far shorter than \<open>PIPE_BUF\<close>), \<open>w_saves\<close> how the
  next attempts to save a file end, \<open>w_fill\<close> what fresh memory holds.
\<close>

record world =
  w_guide :: guide_t
  w_cmds :: "string list"      \<comment> \<open>the commands written to \<open>fd[0]\<close>, oldest first\<close>
  w_faults :: "bool list"
  w_files :: files
  w_saves :: "file_outcome list"
  w_log :: "string list"       \<comment> \<open>what \<open>myerror\<close> wrote, oldest first\<close>
  w_out :: string              \<comment> \<open>the response to the current request\<close>
  w_fill :: char

text \<open>The world at the start: the state from \<open>calloc\<close>, no file, nothing written yet, and every call
  of the environment going well.\<close>

definition world_start :: world where
  "world_start = \<lparr>w_guide = guide_zero, w_cmds = [], w_faults = [], w_files = Map.empty, w_saves = [], w_log = [], w_out = [],
     w_fill = NUL\<rparr>"

definition CRLF :: string where "CRLF = [CR, LF]"
definition CMDLEN :: nat where "CMDLEN = 100"
definition COMNUM :: nat where "COMNUM = 3"
definition DATANUM :: nat where "DATANUM = 10"
definition MAXPRN :: nat where "MAXPRN = 30"
definition JFILE :: string where "JFILE = ''/web/sbin/msgid''"
definition JPASSWORD :: string where "JPASSWORD = ''/web/sbin/password''"
definition HTTP_CONENT_HEAD :: string where
  "HTTP_CONENT_HEAD = ''Content-type: text/html'' @ CRLF @ CRLF"

definition myerror :: "string \<Rightarrow> world \<Rightarrow> world" where
  "myerror s w = w\<lparr>w_log := w_log w @ [s]\<rparr>"

text \<open>\<open>write(fd[0],s,strlen(s))\<close>, and whether it returned something else than -1.\<close>

definition fd_write :: "string \<Rightarrow> world \<Rightarrow> world \<times> bool" where
  "fd_write s w = (case w_faults w of
       True # fs \<Rightarrow> (w\<lparr>w_faults := fs\<rparr>, False)
     | False # fs \<Rightarrow> (w\<lparr>w_faults := fs, w_cmds := w_cmds w @ [s]\<rparr>, True)
     | [] \<Rightarrow> (w\<lparr>w_cmds := w_cmds w @ [s]\<rparr>, True))"

section \<open>Requests for receiver messages\<close>

definition log_cmds :: "string list" where
  "log_cmds = map (\<lambda>s. CRLF @ s @ CRLF)
     [''log oemstatus ontime 1'', ''log satinfo ontime 1'', ''log interfaceinfo ontime 1'', ''log gputab ontime 1'',
      ''log channelinfo ontime 1'']"

definition sendcmd :: "nat \<Rightarrow> world \<Rightarrow> (world \<times> int) option" where
  "sendcmd cn w = do {
     s \<leftarrow> rd log_cmds cn;
     let (w, ok) = fd_write s w;
     Some (w, if ok then int (length s) else 0) }"

text \<open>The common start of the pages: \<open>if(!sendcmd(cn)) \{ myerror("send cmd error\n"); return NULL; \}\<close>.\<close>

definition requesting ::
    "nat \<Rightarrow> world \<Rightarrow> (world \<Rightarrow> (world \<times> string option) option) \<Rightarrow> (world \<times> string option) option" where
  "requesting cn w page = do {
     (w, n) \<leftarrow> sendcmd cn w;
     if n = 0 then Some (myerror (''send cmd error'' @ [LF]) w, None) else page w }"

section \<open>Building JSON objects\<close>

text \<open>The setters are called without a look at their result.\<close>

datatype field = Num double | Str string

fun set_field :: "json_object \<Rightarrow> string \<times> field \<Rightarrow> json_object" where
  "set_field ob (name, Num d) = snd (json_object_set_number ob name d)"
| "set_field ob (name, Str s) = snd (json_object_set_string ob name s)"

definition set_fields :: "json_object \<Rightarrow> (string \<times> field) list \<Rightarrow> json_object" where
  "set_fields = foldl set_field"

definition new_object :: json_object where
  "new_object = ([], 0)"

definition byte_num :: "byte \<Rightarrow> field" where
  "byte_num b = Num (d_of_int (uint b))"

definition single_num :: "single \<Rightarrow> field" where
  "single_num f = Num (s_to_d f)"

text \<open>\<open>json_object_set_value(object,name,json_value_init_array())\<close>, and an append through the pointer that
  \<open>json_object_get_array(object,name)\<close> gives: the array is inside the object; a null pointer is ignored.\<close>

definition set_array :: "json_object \<Rightarrow> string \<Rightarrow> json_object" where
  "set_array ob name = snd (json_object_set_value ob name (Some json_value_init_array))"

definition append_in :: "json_object \<Rightarrow> string \<Rightarrow> json \<Rightarrow> json_object" where
  "append_in ob name v = (case json_object_get_array (Some ob) name of
       None \<Rightarrow> ob
     | Some a \<Rightarrow> (overwrite (fst ob) name (of_array (snd (json_array_append_value a (Some v)))), snd ob))"

text \<open>The end of the pages: \<open>response = json_serialize_to_string(val)\<close>.\<close>

definition respond :: "world \<Rightarrow> json_object \<Rightarrow> (world \<times> string option) option" where
  "respond w ob = do {
     s \<leftarrow> json_serialize_to_string False (w_fill w) (Some (of_object ob));
     Some (w, s) }"

section \<open>Parameters\<close>

text \<open>The environment of a request: the parameters that \<open>FCGX_GetParam\<close> finds.\<close>

type_synonym request = "string \<Rightarrow> string option"

text \<open>\<open>if(!(x = get_param_value(url,name))) return;\<close>\<close>

definition with_param ::
    "url_buf \<Rightarrow> string \<Rightarrow> world \<Rightarrow> (nat \<Rightarrow> world option) \<Rightarrow> world option" where
  "with_param u name w k = do {
     r \<leftarrow> get_param_value u name;
     (case r of None \<Rightarrow> Some w | Some p \<Rightarrow> k p) }"

definition rd_int :: "'a list \<Rightarrow> int \<Rightarrow> 'a option" where
  "rd_int xs i = (if i < 0 then None else rd xs (nat i))"

end
