(* ===== verification/Web_Guide.thy ===== *)
theory Web_Guide
  imports Web_State
begin

text \<open>
  The pages of \<^verbatim>\<open>src/web_pro.c\<close> that show the shared state, and their dispatch \<open>pro_guide\<close>.
  A page gives its response text, or \<open>None\<close> inside for the null pointer. The test of
  \<open>json_value_get_object\<close> on a fresh object is never taken, because allocation is taken to succeed.
\<close>

section \<open>Pages\<close>

definition state :: "world \<Rightarrow> (world \<times> string option) option" where
  "state w = requesting 0 w (\<lambda>w. let st = g_state (w_guide w) in do {
     utc \<leftarrow> cstr_at (st_utctime st) 0;
     respond w (set_fields new_object [(''utc'', Str utc),
       (''mainantnworksta'', byte_num (an_mainantnworksta (st_antn st))),
       (''mainantnrfsta'', byte_num (an_mainantnrfsta (st_antn st))),
       (''aantnworksta'', byte_num (an_aantnworksta (st_antn st))),
       (''aantnrfstan'', byte_num (an_aantnrfsta (st_antn st))),
       (''acpuload'', byte_num (cpu_acpuload (st_cpu st))),
       (''dcpuload'', byte_num (cpu_dcpuload (st_cpu st))),
       (''astatus'', byte_num (cpu_astatus (st_cpu st))),
       (''dstatus'', byte_num (cpu_dstatus (st_cpu st)))]) })"

definition prn_names :: "string list" where
  "prn_names = [''gps_prn'', ''glo_prn'', ''gali_prn'', ''bd_prn'', ''sbas_prn'']"

definition num_names :: "string list" where
  "num_names = [''gps_num'', ''glo_num'', ''gali_num'', ''bd_num'', ''sbas_num'']"

text \<open>The count of system \<open>i\<close>, and its array where the count is not 0.\<close>

fun count_loop :: "byte list \<Rightarrow> nat \<Rightarrow> nat \<Rightarrow> json_object \<Rightarrow> json_object option" where
  "count_loop satnu i 0 ob = Some ob"
| "count_loop satnu i (Suc n) ob = do {
     c \<leftarrow> rd satnu i;
     let ob = set_field ob (num_names ! i, byte_num c);
     let ob = (if c > 0 then set_array ob (prn_names ! i) else ob);
     count_loop satnu (Suc i) n ob }"

fun append_loop :: "byte list \<Rightarrow> nat \<Rightarrow> nat \<Rightarrow> string \<Rightarrow> json_object \<Rightarrow> json_object option" where
  "append_loop xs i 0 name ob = Some ob"
| "append_loop xs i (Suc n) name ob = do {
     x \<leftarrow> rd xs i;
     append_loop xs (Suc i) n name (append_in ob name (JNumber (d_of_int (uint x)))) }"

text \<open>The five append loops, one per system.\<close>

definition append_prns :: "sateprn_t \<Rightarrow> json_object \<Rightarrow> json_object option" where
  "append_prns p ob = do {
     n0 \<leftarrow> rd (sn_satnu p) 0; ob \<leftarrow> append_loop (sn_gps p) 0 (unat n0) (prn_names ! 0) ob;
     n1 \<leftarrow> rd (sn_satnu p) 1; ob \<leftarrow> append_loop (sn_glo p) 0 (unat n1) (prn_names ! 1) ob;
     n2 \<leftarrow> rd (sn_satnu p) 2; ob \<leftarrow> append_loop (sn_gali p) 0 (unat n2) (prn_names ! 2) ob;
     n3 \<leftarrow> rd (sn_satnu p) 3; ob \<leftarrow> append_loop (sn_cmp p) 0 (unat n3) (prn_names ! 3) ob;
     n4 \<leftarrow> rd (sn_satnu p) 4; append_loop (sn_sbas p) 0 (unat n4) (prn_names ! 4) ob }"

definition action :: "world \<Rightarrow> (world \<times> string option) option" where
  "action w = requesting 1 w (\<lambda>w. let p = g_sateprn (w_guide w) in do {
     ob \<leftarrow> count_loop (sn_satnu p) 0 5 new_object;
     ob \<leftarrow> append_prns p ob;
     respond w ob })"

definition postypes :: "string list" where
  "postypes = [''invalid'', ''single'', ''diff'', ''invalid'', ''rtk_fix'', ''rtk_float'', ''invalid'', ''invalid'', ''invalid'',
     ''sbas_single'', ''ssr_float'', ''ssr'', ''ssr_single'', ''sbas'', ''sbas_float'', ''ppp_single'']"

definition position :: "world \<Rightarrow> (world \<times> string option) option" where
  "position w = requesting 1 w (\<lambda>w. let po = g_posstate (w_guide w); p = pt_sateprn po in do {
     ty \<leftarrow> rd postypes (unat (pt_postype po));
     id \<leftarrow> cstr_at (map (\<lambda>b. char_of (unat b)) (pt_stnid po)) 0;
     n0 \<leftarrow> rd (sn_satnu p) 0; n1 \<leftarrow> rd (sn_satnu p) 1; n2 \<leftarrow> rd (sn_satnu p) 2; n3 \<leftarrow> rd (sn_satnu p) 3; n4 \<leftarrow> rd (sn_satnu p) 4;
     let ob = set_fields new_object [(''lat'', Num (pt_lat po)), (''lon'', Num (pt_lon po)), (''high'', Num (pt_hgt po)),
       (''undulation'', Num (pt_undulation po)), (''postype'', Str ty), (''difftime'', single_num (pt_difftime po)),
       (''baseid'', Str id), (''gpsweek'', Num (d_of_int (pt_gpsweek po))), (''gpssec'', single_num (pt_gpssec po)),
       (''pdop'', single_num (pt_pdop po)), (''hdop'', single_num (pt_hdop po)), (''vdop'', single_num (pt_vdop po)),
       (''tdop'', single_num (pt_tdop po)), (''solution'', byte_num (pt_solsatnu po)),
       (''gps_num'', byte_num n0), (''glo_num'', byte_num n1), (''gali_num'', byte_num n2), (''bd_num'', byte_num n3),
       (''sbas_num'', byte_num n4)];
     ob \<leftarrow> count_loop (sn_satnu p) 0 5 ob;
     ob \<leftarrow> append_prns p ob;
     respond w ob })"

definition trace_object :: "prncn_t \<Rightarrow> json option" where
  "trace_object v = do {
     l1 \<leftarrow> rd (pc_cn v) 0; l2 \<leftarrow> rd (pc_cn v) 1; l5 \<leftarrow> rd (pc_cn v) 2;
     Some (of_object (set_fields new_object [(''prn'', byte_num (pc_prn v)), (''elevation'', Num (pc_elev v)),
       (''azimuth'', Num (pc_az v)), (''satstatus'', byte_num (pc_satstatus v)),
       (''L1'', single_num l1), (''L2'', single_num l2), (''L5'', single_num l5)])) }"

fun sat_rows :: "prncn_t list \<Rightarrow> nat \<Rightarrow> nat \<Rightarrow> string \<Rightarrow> json_object \<Rightarrow> json_object option" where
  "sat_rows xs i 0 name ob = Some ob"
| "sat_rows xs i (Suc n) name ob = do {
     x \<leftarrow> rd xs i;
     v \<leftarrow> trace_object x;
     sat_rows xs (Suc i) n name (append_in ob name v) }"

definition tracetable :: "world \<Rightarrow> (world \<times> string option) option" where
  "tracetable w = requesting 1 w (\<lambda>w. let t = g_tracetable (w_guide w) in do {
     n0 \<leftarrow> rd (tt_satnu t) 0; n1 \<leftarrow> rd (tt_satnu t) 1; n2 \<leftarrow> rd (tt_satnu t) 2; n3 \<leftarrow> rd (tt_satnu t) 3; n4 \<leftarrow> rd (tt_satnu t) 4;
     let ob = set_fields new_object [(''gps_num'', byte_num n0), (''glo_num'', byte_num n1), (''gali_num'', byte_num n2),
       (''bd_num'', byte_num n3), (''sbas_num'', byte_num n4), (''ecutoff'', single_num (tt_ecutoff t))];
     let ob = foldl set_array ob [''gps_sat'', ''glo_sat'', ''gali_sat'', ''bd_sat'', ''sbas_sat''];
     ob \<leftarrow> sat_rows (tt_gps t) 0 (unat n0) ''gps_sat'' ob;
     ob \<leftarrow> sat_rows (tt_glo t) 0 (unat n1) ''glo_sat'' ob;
     ob \<leftarrow> sat_rows (tt_gali t) 0 (unat n2) ''gali_sat'' ob;
     ob \<leftarrow> sat_rows (tt_cmp t) 0 (unat n3) ''bd_sat'' ob;
     ob \<leftarrow> sat_rows (tt_sbas t) 0 (unat n4) ''sbas_sat'' ob;
     respond w ob })"

text \<open>\<open>lonsec\<close> is taken from the latitude, as in the code.\<close>

definition getpos :: "world \<Rightarrow> (world \<times> string option) option" where
  "getpos w = requesting 1 w (\<lambda>w. let ba = g_basepos (w_guide w); lat = deg2dms (ba_lat ba); lon = deg2dms (ba_lon ba) in
     respond w (set_fields new_object [(''hgt'', Num (ba_hgt ba)), (''latdeg'', Num (lat ! 0)), (''latmin'', Num (lat ! 1)),
       (''latsec'', Num (lat ! 2)), (''londeg'', Num (lon ! 0)), (''lonmin'', Num (lon ! 1)), (''lonsec'', Num (lat ! 2))]))"

definition getpassword :: "world \<Rightarrow> (world \<times> string option) option" where
  "getpassword w = do {
     jv \<leftarrow> json_parse_file (w_files w) JPASSWORD;
     s \<leftarrow> json_serialize_to_string False (w_fill w) jv;
     Some (w, s) }"

definition getdir :: "world \<Rightarrow> (world \<times> string option) option" where
  "getdir w = requesting 3 w (\<lambda>w. let d = g_direcdata (w_guide w) in do {
     utc \<leftarrow> cstr_at (dd_utctime d) 0;
     respond w (set_fields new_object [(''mlat'', Num (dd_mlat d)), (''mlon'', Num (dd_mlon d)), (''mhgt'', Num (dd_mhgt d)),
       (''alat'', Num (dd_alat d)), (''alon'', Num (dd_alon d)), (''ahgt'', Num (dd_ahgt d)), (''pitch'', Num (dd_pitch d)),
       (''heading'', Num (dd_heading d)), (''roll'', Num (dd_roll d)), (''qf'', byte_num (dd_qf d)),
       (''hdop'', single_num (dd_hdop d)), (''satnum'', byte_num (dd_satnum d)), (''utctime'', Str utc)]) })"

definition getengine :: "world \<Rightarrow> (world \<times> string option) option" where
  "getengine w = requesting 0 w (\<lambda>w. respond w (set_fields new_object [(''engine'', byte_num (g_entype (w_guide w)))]))"

text \<open>\<open>strrchr\<close>: the index of the last dot. \<open>getip\<close> cuts the shared address there and leaves it cut.\<close>

definition last_dot :: "string \<Rightarrow> nat option" where
  "last_dot s = (if CHR ''.'' \<in> set s then Some (length s - Suc (length (takeWhile (\<lambda>c. c \<noteq> CHR ''.'') (rev s)))) else None)"

definition getip :: "world \<Rightarrow> (world \<times> string option) option" where
  "getip w = requesting 2 w (\<lambda>w. requesting 0 w (\<lambda>w. let g = w_guide w; n = g_net g in do {
     s \<leftarrow> cstr_at (nt_ip n) 0;
     (case last_dot s of
        None \<Rightarrow> Some (w, None)
      | Some p \<Rightarrow> do {
          b \<leftarrow> wr (nt_ip n) p NUL;
          let w = w\<lparr>w_guide := g\<lparr>g_net := n\<lparr>nt_ip := b\<rparr>\<rparr>\<rparr>;
          ip \<leftarrow> cstr_at b 0; port \<leftarrow> cstr_at b (p + 1);
          gateway \<leftarrow> cstr_at (nt_gateway n) 0; netmask \<leftarrow> cstr_at (nt_netmask n) 0;
          dns \<leftarrow> cstr_at (nt_dns n) 0; serverip \<leftarrow> cstr_at (nt_serverip n) 0;
          respond w (set_fields new_object [(''ip'', Str ip), (''port'', Str port), (''gateway'', Str gateway),
            (''netmask'', Str netmask), (''dns'', Str dns), (''serverip'', Str serverip),
            (''serclient'', byte_num (g_serclient g))]) }) }))"

text \<open>The rows of \<open>getinter\<close>; an interface whose message has no name in the file is logged and skipped.\<close>

fun inter_rows :: "json_object \<Rightarrow> interfaces_t list \<Rightarrow> nat \<Rightarrow> nat \<Rightarrow> world \<Rightarrow> json_object \<Rightarrow> (world \<times> json_object) option" where
  "inter_rows jo xs i 0 w ob = Some (w, ob)"
| "inter_rows jo xs i (Suc n) w ob = do {
     x \<leftarrow> rd xs i;
     (case json_object_get_string (Some jo) (show_nat (unat (if_msgid x))) of
        None \<Rightarrow> inter_rows jo xs (Suc i) n (myerror (''json object get string error'' @ [LF]) w) ob
      | Some jmsgid \<Rightarrow>
          inter_rows jo xs (Suc i) n w (append_in ob ''interfaces'' (of_object (set_fields new_object
            [(''comid'', byte_num (if_comid x)), (''flag'', byte_num (if_flag x)), (''msgid'', Str jmsgid),
             (''period'', Num (d_of_int (uint (if_period x))))])))) }"

definition getinter :: "world \<Rightarrow> (world \<times> string option) option" where
  "getinter w = requesting 0 w (\<lambda>w. do {
     jv \<leftarrow> json_parse_file (w_files w) JFILE;
     (case json_value_get_object jv of
        None \<Rightarrow> Some (myerror (''json value get object error'' @ [LF]) w, None)
      | Some jo \<Rightarrow> let it = g_interface (w_guide w) in do {
          com1 \<leftarrow> rd (it_comtype it) 0; com2 \<leftarrow> rd (it_comtype it) 1; com3 \<leftarrow> rd (it_comtype it) 2;
          let ob = set_fields (set_array new_object ''interfaces'') [(''num'', byte_num (it_num it)),
            (''retype'', byte_num (it_retype it)), (''com1'', byte_num com1), (''com2'', byte_num com2), (''com3'', byte_num com3),
            (''sytype'', byte_num (it_sytype it)), (''sidotype'', byte_num (it_sidotype it)),
            (''dirtype'', byte_num (it_dirtype it)), (''dirlen'', Num (it_dirlen it))];
          (w, ob) \<leftarrow> inter_rows jo (it_interfaces it) 0 (unat (it_num it)) w ob;
          respond w ob }) })"

definition getchansta :: "world \<Rightarrow> (world \<times> string option) option" where
  "getchansta w = requesting 4 w (\<lambda>w. let c = g_chansta (w_guide w) in do {
     c0 \<leftarrow> rd c 0; c4 \<leftarrow> rd c 4; c7 \<leftarrow> rd c 7; c2 \<leftarrow> rd c 2; c6 \<leftarrow> rd c 6; c3 \<leftarrow> rd c 3; c1 \<leftarrow> rd c 1; c5 \<leftarrow> rd c 5;
     respond w (set_fields new_object [(''L1'', byte_num c0), (''L2'', byte_num c4), (''L5'', byte_num c7), (''B1'', byte_num c2),
       (''B2'', byte_num c6), (''B3'', byte_num c3), (''GL1'', byte_num c1), (''GL2'', byte_num c5)]) })"

definition getserclient :: "world \<Rightarrow> (world \<times> string option) option" where
  "getserclient w = requesting 0 w (\<lambda>w. respond w (set_fields new_object [(''serclient'', byte_num (g_serclient (w_guide w)))]))"

section \<open>Dispatch\<close>

definition guide_pages :: "(string \<times> (world \<Rightarrow> (world \<times> string option) option)) list" where
  "guide_pages = [(''state'', state), (''action'', action), (''position'', position), (''tracetable'', tracetable),
     (''getpos'', getpos), (''getpassword'', getpassword), (''getdir'', getdir), (''getengine'', getengine), (''getip'', getip),
     (''getinter'', getinter), (''getchansta'', getchansta), (''getserclient'', getserclient)]"

definition show_page :: "(world \<Rightarrow> (world \<times> string option) option) \<Rightarrow> world \<Rightarrow> world option" where
  "show_page page w = do {
     (w, response) \<leftarrow> page w;
     (case response of
        None \<Rightarrow> Some (myerror (''json_serialize to strng error'' @ [LF]) w)
      | Some s \<Rightarrow> Some (w\<lparr>w_out := w_out w @ HTTP_CONENT_HEAD @ s\<rparr>)) }"

text \<open>When no page has the name, \<open>response\<close> is used uninitialised.\<close>

definition pro_guide :: "request \<Rightarrow> world \<Rightarrow> world option" where
  "pro_guide req w = (case req ''QUERY_STRING'' of
     None \<Rightarrow> Some (myerror (''fcgx query string error'' @ [LF]) w)
   | Some querys \<Rightarrow> do {
       u \<leftarrow> url_parse url_zero querys;
       r \<leftarrow> get_param_value u ''guide'';
       (case r of
          None \<Rightarrow> Some (myerror (''get param error'' @ [LF]) w)
        | Some ps \<Rightarrow> do {
            name \<leftarrow> cstr_at (buf u) ps;
            page \<leftarrow> map_of guide_pages name;
            show_page page w }) })"

end
