(* ===== verification/Web_Config.thy ===== *)
theory Web_Config
  imports Web_State
begin

text \<open>
  The handlers of \<^verbatim>\<open>src/web_pro.c\<close> that turn a request into receiver commands, and their
  dispatch \<open>pro_config\<close>. A command is printed into a \<open>char cmd[100]\<close> and written to the pipe.
  Parameters that repeat are collected with \<open>get_param_array\<close> into arrays that are not initialised:
  an element is \<open>None\<close> until it is stored.
\<close>

section \<open>Commands\<close>

text \<open>\<open>sprintf(cmd,...)\<close> and \<open>write(fd[0],cmd,strlen(cmd))\<close>; a failed write is logged. The second
  component says whether the write worked.\<close>

definition send_cmd :: "string \<Rightarrow> string \<Rightarrow> world \<Rightarrow> (world \<times> bool) option" where
  "send_cmd err s w = do {
     _ \<leftarrow> ub_unless (length s < CMDLEN);
     let (w, ok) = fd_write s w;
     Some (if ok then w else myerror err w, ok) }"

definition send_last :: "string \<Rightarrow> string \<Rightarrow> world \<Rightarrow> world option" where
  "send_last err s w = do { (w, ok) \<leftarrow> send_cmd err s w; Some w }"

definition write_error :: string where "write_error = ''write error''"
definition write_error_nl :: string where "write_error_nl = ''write error'' @ [LF]"

section \<open>Repeated parameters\<close>

text \<open>\<open>for(i = 0,s = p = url->buf;(p = get_param_array(s,name,url->len -= (p-s)));s=p,i++)\<close>: at every
  test \<open>p\<close> equals \<open>s\<close>, so the length never changes.\<close>

function arr_loop ::
    "cbuf \<Rightarrow> int \<Rightarrow> string \<Rightarrow> (string \<Rightarrow> 'a) \<Rightarrow> nat \<Rightarrow> nat \<Rightarrow> 'a option list \<Rightarrow> 'a option list option" where
  "arr_loop b n name conv s i xs = do {
     r \<leftarrow> get_param_array b s name n;
     (case r of
        None \<Rightarrow> Some xs
      | Some p \<Rightarrow> do {
          t \<leftarrow> cstr_at b p;
          xs' \<leftarrow> wr xs i (Some (conv t));
          arr_loop b n name conv p (Suc i) xs' }) }"
  by pat_completeness auto
termination
  by (relation "measure (\<lambda>(b, n, name, conv, s, i, xs). length xs - i)") (auto simp: c_mem)

declare arr_loop.simps [simp del]

definition char_array :: "url_buf \<Rightarrow> string \<Rightarrow> nat \<Rightarrow> byte option list option" where
  "char_array u name n = arr_loop (buf u) (len u) name (\<lambda>t. of_int (atoi t)) 0 0 (replicate n None)"

text \<open>Reading an element: undefined outside the array and where nothing was stored.\<close>

definition rd_set :: "'a option list \<Rightarrow> nat \<Rightarrow> 'a option" where
  "rd_set xs i = do { v \<leftarrow> rd xs i; v }"

section \<open>Handlers with plain parameters\<close>

definition setrov :: "world \<Rightarrow> world option" where
  "setrov w = (let (w, ok) = fd_write (CRLF @ ''fix none'' @ CRLF) w in
     Some (if ok then w else myerror write_error_nl w))"

definition setbasepos :: "url_buf \<Rightarrow> world \<Rightarrow> world option" where
  "setbasepos u w =
     with_param u ''lat'' w (\<lambda>lat. with_param u ''lon'' w (\<lambda>lon. with_param u ''hgt'' w (\<lambda>hgt. do {
       lat \<leftarrow> cstr_at (buf u) lat; lon \<leftarrow> cstr_at (buf u) lon; hgt \<leftarrow> cstr_at (buf u) hgt;
       send_last write_error_nl
         (CRLF @ ''fix position '' @ lat @ '' '' @ lon @ '' '' @ hgt @ CRLF) w })))"

text \<open>The tables are indexed by what \<open>atoi\<close> makes of the request.\<close>

definition engine_types :: "string list" where
  "engine_types = [''single'', ''rtk'', ''sbasppp'', ''sbasspp'', ''ssrppp'', ''ssrspp'']"

definition engineset :: "url_buf \<Rightarrow> world \<Rightarrow> world option" where
  "engineset u w = with_param u ''eng'' w (\<lambda>eng. do {
     eng \<leftarrow> cstr_at (buf u) eng;
     entype \<leftarrow> rd_int engine_types (atoi eng);
     send_last write_error_nl (CRLF @ ''setpvt '' @ entype @ CRLF) w })"

definition eleset :: "url_buf \<Rightarrow> world \<Rightarrow> world option" where
  "eleset u w = with_param u ''ele'' w (\<lambda>ele. do {
     ele \<leftarrow> cstr_at (buf u) ele;
     send_last write_error_nl (CRLF @ ''ecutoff '' @ ele @ CRLF) w })"

text \<open>\<open>typei+basebool\<close> is an \<open>int\<close> sum; \<open>%f\<close> prints the \<open>float\<close> with six places.\<close>

definition dir_modes :: "string list" where
  "dir_modes = [''snb'', ''swb'', ''dnb'', ''dwb'']"

definition dirset :: "url_buf \<Rightarrow> world \<Rightarrow> world option" where
  "dirset u w = with_param u ''type'' w (\<lambda>type. do {
     type \<leftarrow> cstr_at (buf u) type;
     let typei = atoi type;
     with_param u ''baseline'' w (\<lambda>s. do {
       s \<leftarrow> cstr_at (buf u) s;
       let baseline = d_to_s (atof s);
       let basebool = \<not> d_eq (s_to_d baseline) 0;
       i \<leftarrow> i32 (typei + (if basebool then 1 else 0));
       mode \<leftarrow> rd_int dir_modes i;
       send_last write_error
         (if basebool then CRLF @ ''set '' @ mode @ '' '' @ fmt_fixed 6 (s_to_d baseline) @ CRLF
          else CRLF @ ''set '' @ mode @ CRLF) w }) })"

definition dirsyset :: "url_buf \<Rightarrow> world \<Rightarrow> world option" where
  "dirsyset u w = with_param u ''type'' w (\<lambda>type. do {
     type \<leftarrow> cstr_at (buf u) type;
     mode \<leftarrow> rd_int [''dynamic'', ''static''] (atoi type);
     send_last write_error_nl (CRLF @ ''setpvt '' @ mode @ CRLF) w })"

definition baud_types :: "string list" where
  "baud_types = [''921600'', ''460800'', ''115200'', ''38400'', ''19200'', ''9600'', ''4800'', ''2400'', ''1200'', ''300'']"

definition guideserial :: "url_buf \<Rightarrow> world \<Rightarrow> world option" where
  "guideserial u w = with_param u ''port'' w (\<lambda>port. with_param u ''baud'' w (\<lambda>baud. do {
     baud \<leftarrow> cstr_at (buf u) baud;
     let baudi = atoi baud;
     with_param u ''databit'' w (\<lambda>databit. with_param u ''check'' w (\<lambda>check. with_param u ''stop'' w (\<lambda>stop. do {
       port \<leftarrow> cstr_at (buf u) port;
       baud \<leftarrow> rd_int baud_types baudi;
       check \<leftarrow> cstr_at (buf u) check; databit \<leftarrow> cstr_at (buf u) databit; stop \<leftarrow> cstr_at (buf u) stop;
       send_last write_error
         (''com com'' @ port @ '' '' @ baud @ '' '' @ check @ '' '' @ databit @ '' '' @ stop @ CRLF) w }))) }))"

definition output_set :: "url_buf \<Rightarrow> world \<Rightarrow> world option" where
  "output_set u w = with_param u ''rtkout'' w (\<lambda>p. do {
     t \<leftarrow> cstr_at (buf u) p;
     let rtkout = (of_int (atoi t) :: byte);
     with_param u ''com'' w (\<lambda>com. do {
       com \<leftarrow> cstr_at (buf u) com;
       send_last write_error
         (CRLF @ ''log com'' @ com @ (if rtkout = 0 then '' gpgga'' else '' gputa'') @ '' ontime 1'' @ CRLF) w }) })"

definition rebootset :: "url_buf \<Rightarrow> world \<Rightarrow> world option" where
  "rebootset u w = with_param u ''type'' w (\<lambda>type. do {
     type \<leftarrow> cstr_at (buf u) type;
     mode \<leftarrow> rd_int [''reboot'', ''freset''] (atoi type);
     send_last write_error_nl (CRLF @ mode @ CRLF) w })"

section \<open>Handlers with repeated parameters\<close>

definition system_types :: "string list" where
  "system_types = [''gps'', ''gln'', ''gal'', ''bds'', ''sbas'']"

definition lock_word :: "byte \<Rightarrow> string" where
  "lock_word v = (if v = 1 then ''lockout'' else ''unlockout'')"

text \<open>The inner loop of \<open>satset\<close> over the satellites of one system, its outer loop, and the loop
  over the systems. The flag says whether the loop ran to its end: a failed write returns.\<close>

fun sat_loop :: "string \<Rightarrow> byte option list \<Rightarrow> nat \<Rightarrow> nat \<Rightarrow> world \<Rightarrow> (world \<times> bool) option" where
  "sat_loop sys prn i 0 w = Some (w, True)"
| "sat_loop sys prn i (Suc n) w = do {
     v \<leftarrow> rd_set prn i;
     if v \<noteq> 0 then do {
       (w, ok) \<leftarrow> send_cmd write_error_nl (lock_word v @ '' '' @ sys @ '' '' @ show_nat i @ CRLF) w;
       if ok then sat_loop sys prn (Suc i) n w else Some (w, False) }
     else sat_loop sys prn (Suc i) n w }"

fun sats_loop :: "byte option list list \<Rightarrow> nat \<Rightarrow> nat \<Rightarrow> world \<Rightarrow> (world \<times> bool) option" where
  "sats_loop prn j 0 w = Some (w, True)"
| "sats_loop prn j (Suc n) w = do {
     ps \<leftarrow> rd prn j;
     (w, ok) \<leftarrow> sat_loop (system_types ! j) ps 0 MAXPRN w;
     if ok then sats_loop prn (Suc j) n w else Some (w, False) }"

fun sys_loop :: "byte option list \<Rightarrow> nat \<Rightarrow> nat \<Rightarrow> world \<Rightarrow> world option" where
  "sys_loop sys i 0 w = Some w"
| "sys_loop sys i (Suc n) w = do {
     v \<leftarrow> rd_set sys i;
     if v \<noteq> 0 then do {
       (w, ok) \<leftarrow> send_cmd write_error_nl (CRLF @ lock_word v @ '' '' @ (system_types ! i) @ CRLF) w;
       if ok then sys_loop sys (Suc i) n w else Some w }
     else sys_loop sys (Suc i) n w }"

text \<open>No loop of \<open>satset\<close> fills \<open>prn[2]\<close>.\<close>

definition satset :: "url_buf \<Rightarrow> world \<Rightarrow> world option" where
  "satset u w = do {
     sys \<leftarrow> char_array u ''sys'' 5;
     gps \<leftarrow> char_array u ''gpsprn'' MAXPRN;
     glo \<leftarrow> char_array u ''gloprn'' MAXPRN;
     bds \<leftarrow> char_array u ''bdsprn'' MAXPRN;
     sbas \<leftarrow> char_array u ''sbasprn'' MAXPRN;
     (w, ok) \<leftarrow> sats_loop [gps, glo, replicate MAXPRN None, bds, sbas] 0 5 w;
     if ok then sys_loop sys 0 5 w else Some w }"

definition frequencies :: "string list" where
  "frequencies = [''L1'', ''L2'', ''L5'', ''B1'', ''B2'', ''B3'', ''GL1'', ''GL2'']"

definition close_word :: "byte \<Rightarrow> string" where
  "close_word v = (if v = 1 then ''close'' else ''unclose'')"

fun close_loop :: "byte option list \<Rightarrow> nat \<Rightarrow> nat \<Rightarrow> world \<Rightarrow> (world \<times> bool) option" where
  "close_loop xs i 0 w = Some (w, True)"
| "close_loop xs i (Suc n) w = do {
     v \<leftarrow> rd_set xs i;
     if v \<noteq> 0 then do {
       (w, ok) \<leftarrow> send_cmd write_error_nl (close_word v @ '' '' @ (frequencies ! i) @ CRLF) w;
       if ok then close_loop xs (Suc i) n w else Some (w, False) }
     else close_loop xs (Suc i) n w }"

definition channelset :: "url_buf \<Rightarrow> world \<Rightarrow> world option" where
  "channelset u w = do {
     closefre \<leftarrow> char_array u ''closefre'' 8;
     with_param u ''channel'' w (\<lambda>channel. with_param u ''chsta'' w (\<lambda>s. do {
       t \<leftarrow> cstr_at (buf u) s;
       let chsta = (of_int (atoi t) :: byte);
       (w, ok) \<leftarrow> close_loop closefre 0 8 w;
       if ok \<and> chsta \<noteq> 0 then do {
         channel \<leftarrow> cstr_at (buf u) channel;
         send_last write_error (close_word chsta @ '' '' @ channel @ CRLF) w }
       else Some w })) }"

fun com_loop :: "byte option list \<Rightarrow> nat \<Rightarrow> nat \<Rightarrow> world \<Rightarrow> world option" where
  "com_loop com i 0 w = Some w"
| "com_loop com i (Suc n) w = do {
     v \<leftarrow> rd_set com i;
     (w, ok) \<leftarrow> send_cmd write_error
       (''set com'' @ show_nat (i + 1) @ '' '' @ (if v = 1 then ''antn1'' else ''antn2'') @ CRLF) w;
     if ok then com_loop com (Suc i) n w else Some w }"

definition antnset :: "url_buf \<Rightarrow> world \<Rightarrow> world option" where
  "antnset u w = do {
     com \<leftarrow> char_array u ''com'' COMNUM;
     com_loop com 0 COMNUM w }"

section \<open>Handlers that edit the buffer\<close>

text \<open>\<open>for(p = ip;*p;p++) if(*p == '.') *p = ' ';\<close>\<close>

definition blank_dots :: "cbuf \<Rightarrow> nat \<Rightarrow> cbuf option" where
  "blank_dots b p = do {
     s \<leftarrow> cstr_at b p;
     mem_write b p (map (\<lambda>c. if c = CHR ''.'' then CHR '' '' else c) s) }"

definition netset :: "url_buf \<Rightarrow> world \<Rightarrow> world option" where
  "netset u w =
     with_param u ''ip'' w (\<lambda>ip. with_param u ''gateway'' w (\<lambda>gateway.
     with_param u ''netmask'' w (\<lambda>netmask. with_param u ''dns'' w (\<lambda>dns. do {
       b \<leftarrow> blank_dots (buf u) ip; b \<leftarrow> blank_dots b gateway; b \<leftarrow> blank_dots b netmask; b \<leftarrow> blank_dots b dns;
       ip \<leftarrow> cstr_at b ip; gateway \<leftarrow> cstr_at b gateway; netmask \<leftarrow> cstr_at b netmask; dns \<leftarrow> cstr_at b dns;
       send_last write_error
         (CRLF @ ''setip '' @ ip @ '' '' @ gateway @ '' '' @ netmask @ '' '' @ dns @ CRLF @ ''saveconfig'' @ CRLF) w }))))"

text \<open>The command that opens a connection, the same in \<open>guidenet\<close> and \<open>ioset\<close>.\<close>

definition open_cmd :: "cbuf \<Rightarrow> byte \<Rightarrow> nat \<Rightarrow> nat \<Rightarrow> string option" where
  "open_cmd b clientbool ip port = do {
     port \<leftarrow> cstr_at b port;
     if clientbool \<noteq> 0 then do { ip \<leftarrow> cstr_at b ip; Some (''setclient '' @ ip @ '' '' @ port @ CRLF) }
     else Some (''setserver '' @ port @ CRLF) }"

definition guidenet :: "url_buf \<Rightarrow> world \<Rightarrow> world option" where
  "guidenet u w = with_param u ''clientbool'' w (\<lambda>p. do {
     t \<leftarrow> cstr_at (buf u) p;
     let clientbool = of_int (atoi t);
     with_param u ''ip'' w (\<lambda>ip. with_param u ''port'' w (\<lambda>port. do {
       b \<leftarrow> blank_dots (buf u) ip;
       cmd \<leftarrow> open_cmd b clientbool ip port;
       send_last write_error cmd w })) })"

definition upraw :: "string list list" where
  "upraw = [
     [''rangeb'', ''gpsephemb'', ''bdsephemb'', ''gloephemb''],
     [''rtcm1033b'', ''rtcm1005b'', ''rtcm1006b'', ''rtcm1004b'', ''rtcm1104b'', ''rtcm1012b'', ''rtcm1019b'', ''rtcm1020b'',
      ''rtcm4011b''],
     [''rtcm1033b'', ''rtcm1005b'', ''rtcm1006b'', ''rtcm1074b'', ''rtcm1124b'', ''rtcm1084b'', ''rtcm1019b'', ''rtcm1020b'',
      ''rtcm4011b''],
     [''gpgga'', ''gpgsv'', ''gprmc'', ''gpgrs'', ''gpgsa'', ''gputa'', ''gpgll'', ''gpzda'', ''gpvtg'', ''gpgst'']]"

definition log_cmd :: "string \<Rightarrow> string \<Rightarrow> single \<Rightarrow> string" where
  "log_cmd com name t =
     (if d_eq (s_to_d t) (d_of_int (- 1)) then ''log com'' @ com @ '' ranged onchanged'' @ CRLF
      else if d_eq (s_to_d t) 0 then ''unlog com'' @ com @ '' '' @ name @ CRLF
      else ''log com'' @ com @ '' '' @ name @ '' ontime '' @ fmt_fixed 6 (s_to_d t) @ CRLF)"

fun log_loop :: "string \<Rightarrow> string list \<Rightarrow> single option list \<Rightarrow> nat \<Rightarrow> nat \<Rightarrow> world \<Rightarrow> world option" where
  "log_loop com names ts i 0 w = Some w"
| "log_loop com names ts i (Suc n) w = do {
     t \<leftarrow> rd_set ts i;
     name \<leftarrow> rd names i;
     (w, ok) \<leftarrow> send_cmd write_error (log_cmd com name t) w;
     if ok then log_loop com names ts (Suc i) n w else Some w }"

text \<open>The loop over \<open>i < 10\<close> leaves at \<open>typenum[datatypei]\<close>, which is at most 10 and the number of
  names in that row of \<open>upraw\<close>.\<close>

definition ioset :: "url_buf \<Rightarrow> world \<Rightarrow> world option" where
  "ioset u w = with_param u ''clientbool'' w (\<lambda>s. do {
     t \<leftarrow> cstr_at (buf u) s;
     let clientbool = of_int (atoi t);
     with_param u ''ip'' w (\<lambda>ip. with_param u ''port'' w (\<lambda>port. with_param u ''com'' w (\<lambda>com. with_param u ''datatype'' w (\<lambda>datatype. do {
       t \<leftarrow> cstr_at (buf u) datatype;
       let datatypei = atoi t;
       datatime \<leftarrow> arr_loop (buf u) (len u) ''datatime'' (\<lambda>t. d_to_s (atof t)) 0 0 (replicate DATANUM None);
       b \<leftarrow> blank_dots (buf u) ip;
       cmd \<leftarrow> open_cmd b clientbool ip port;
       (w, ok) \<leftarrow> send_cmd write_error cmd w;
       if ok then do {
         n \<leftarrow> rd_int [4, 9, 9, 10] datatypei;
         names \<leftarrow> rd_int upraw datatypei;
         com \<leftarrow> cstr_at b com;
         log_loop com names datatime 0 n w }
       else Some w })))) })"

section \<open>The password\<close>

definition pop_save :: "world \<Rightarrow> file_outcome" where
  "pop_save w = (case w_saves w of [] \<Rightarrow> Written | x # xs \<Rightarrow> x)"

definition setpassword :: "url_buf \<Rightarrow> world \<Rightarrow> world option" where
  "setpassword u w = with_param u ''account'' w (\<lambda>account. with_param u ''password'' w (\<lambda>password. do {
     account \<leftarrow> cstr_at (buf u) account; password \<leftarrow> cstr_at (buf u) password;
     let jo = set_fields new_object [(''account'', Str account), (''password'', Str password)];
     (st, fs) \<leftarrow> json_serialize_to_file False (w_fill w) (pop_save w) (w_files w) (Some (of_object jo)) JPASSWORD;
     let w = w\<lparr>w_files := fs, w_saves := tl (w_saves w)\<rparr>;
     Some (if st = JSONFailure then myerror (''json serialize to file failed'' @ [LF]) w else w) }))"

section \<open>Dispatch\<close>

definition config_handlers :: "(string \<times> (url_buf \<Rightarrow> world \<Rightarrow> world option)) list" where
  "config_handlers = [(''setrov'', \<lambda>u. setrov), (''setbasepos'', setbasepos), (''engineset'', engineset), (''eleset'', eleset),
     (''satset'', satset), (''channelset'', channelset), (''netset'', netset), (''dirset'', dirset), (''antnset'', antnset),
     (''ioset'', ioset), (''setpassword'', setpassword), (''guideserial'', guideserial), (''guidenet'', guidenet),
     (''output'', output_set), (''dirsyset'', dirsyset), (''rebootset'', rebootset)]"

text \<open>A name that no handler has is ignored.\<close>

definition pro_config :: "request \<Rightarrow> world \<Rightarrow> world option" where
  "pro_config req w = (case req ''QUERY_STRING'' of
     None \<Rightarrow> Some (myerror (''fcgx query string error'' @ [LF]) w)
   | Some querys \<Rightarrow> do {
       u \<leftarrow> url_parse url_zero querys;
       r \<leftarrow> get_param_value u ''config'';
       (case r of
          None \<Rightarrow> Some (myerror (''get param error'' @ [LF]) w)
        | Some ps \<Rightarrow> do {
            name \<leftarrow> cstr_at (buf u) ps;
            (case map_of config_handlers name of
               None \<Rightarrow> Some w
             | Some handler \<Rightarrow> handler u w) }) })"

section \<open>What a request may do\<close>

text \<open>A handler of \<open>pro_config\<close> leaves the shared state and the response alone, writes commands that fit
  the buffer, and touches no file but the password file.\<close>

definition sends :: "world \<Rightarrow> world \<Rightarrow> bool" where
  "sends w w' \<longleftrightarrow> w_guide w' = w_guide w \<and> w_out w' = w_out w
     \<and> (\<exists>cs. w_cmds w' = w_cmds w @ cs \<and> (\<forall>c \<in> set cs. length c < CMDLEN))
     \<and> (\<forall>f. f \<noteq> JPASSWORD \<longrightarrow> w_files w' f = w_files w f)"

lemma sends_refl [simp]: "sends w w"
  by (simp add: sends_def)

lemma sends_trans: "sends w w1 \<Longrightarrow> sends w1 w2 \<Longrightarrow> sends w w2"
  unfolding sends_def by fastforce

lemma sends_myerror [simp]: "sends w (myerror s v) \<longleftrightarrow> sends w v"
  by (simp add: sends_def myerror_def)

lemma fd_write_sends: "fd_write s w = (w', ok) \<Longrightarrow> length s < CMDLEN \<Longrightarrow> sends w w'"
  by (auto simp: fd_write_def sends_def split: list.splits bool.splits)

lemma send_cmd_sends: "send_cmd err s w = Some (w', ok) \<Longrightarrow> sends w w'"
  by (auto simp: send_cmd_def c_mem Let_def split: prod.splits if_splits dest: fd_write_sends)

lemma send_last_sends: "sends w w1 \<Longrightarrow> wlp (send_last err s w1) (sends w)"
  by (auto simp: send_last_def wlp_def c_mem dest!: send_cmd_sends intro: sends_trans)

lemma wlp_with_param: "P w \<Longrightarrow> (\<And>p. wlp (k p) P) \<Longrightarrow> wlp (with_param u name w k) P"
  by (auto simp: with_param_def wlp_def c_mem split: option.splits)

lemmas handler_intros = wlp_with_param sends_refl wlp_intros send_last_sends

lemma sat_loop_sends: "sat_loop sys prn i n w = Some (w', ok) \<Longrightarrow> sends w w'"
  by (induction n arbitrary: i w)
    (auto simp: c_mem split: if_splits dest!: send_cmd_sends intro: sends_trans)

lemma sats_loop_sends: "sats_loop prn j n w = Some (w', ok) \<Longrightarrow> sends w w'"
  by (induction n arbitrary: j w)
    (auto simp: c_mem split: if_splits dest!: sat_loop_sends intro: sends_trans)

lemma sys_loop_sends: "sys_loop sys i n w = Some w' \<Longrightarrow> sends w w'"
  by (induction n arbitrary: i w)
    (auto simp: c_mem split: if_splits dest!: send_cmd_sends intro: sends_trans)

lemma close_loop_sends: "close_loop xs i n w = Some (w', ok) \<Longrightarrow> sends w w'"
  by (induction n arbitrary: i w)
    (auto simp: c_mem split: if_splits dest!: send_cmd_sends intro: sends_trans)

lemma com_loop_sends: "com_loop com i n w = Some w' \<Longrightarrow> sends w w'"
  by (induction n arbitrary: i w)
    (auto simp: c_mem split: if_splits dest!: send_cmd_sends intro: sends_trans)

lemma log_loop_sends: "sends w0 w \<Longrightarrow> wlp (log_loop com names ts i n w) (sends w0)"
  by (induction n arbitrary: i w)
    (auto simp: wlp_def c_mem split: if_splits dest!: send_cmd_sends intro: sends_trans)

lemma plain_handlers_send:
  "wlp (setbasepos u w) (sends w)" "wlp (engineset u w) (sends w)" "wlp (eleset u w) (sends w)"
  "wlp (dirset u w) (sends w)" "wlp (dirsyset u w) (sends w)" "wlp (guideserial u w) (sends w)"
  "wlp (output_set u w) (sends w)" "wlp (rebootset u w) (sends w)" "wlp (netset u w) (sends w)"
  "wlp (guidenet u w) (sends w)"
  unfolding setbasepos_def engineset_def eleset_def dirset_def dirsyset_def guideserial_def output_set_def
    rebootset_def netset_def guidenet_def Let_def
  by (intro handler_intros)+

lemma setrov_sends: "wlp (setrov w) (sends w)"
  by (auto simp: setrov_def wlp_def CRLF_def CMDLEN_def split: prod.splits dest: fd_write_sends)

lemma antnset_sends: "wlp (antnset u w) (sends w)"
  by (auto simp: antnset_def wlp_def c_mem dest: com_loop_sends)

lemma satset_sends: "wlp (satset u w) (sends w)"
  by (auto simp: satset_def wlp_def c_mem dest!: sats_loop_sends sys_loop_sends split: if_splits intro: sends_trans)

lemma channelset_sends: "wlp (channelset u w) (sends w)"
  unfolding channelset_def Let_def
  by (intro handler_intros) (auto dest: close_loop_sends)

lemma ioset_sends: "wlp (ioset u w) (sends w)"
  unfolding ioset_def Let_def
  by (intro handler_intros log_loop_sends) (auto dest: send_cmd_sends)

lemma json_serialize_to_file_keeps:
  "json_serialize_to_file p fill out fs v name = Some (st, fs') \<Longrightarrow> f \<noteq> name \<Longrightarrow> fs' f = fs f"
  by (cases "json_serialize_to_string p fill v") (auto simp: json_serialize_to_file_def split: option.splits file_outcome.splits)

lemma setpassword_sends: "wlp (setpassword u w) (sends w)"
  unfolding setpassword_def Let_def
  by (intro handler_intros) (auto dest!: json_serialize_to_file_keeps simp: sends_def myerror_def)

lemma config_handler_sends:
  assumes "map_of config_handlers name = Some handler"
  shows "wlp (handler u w) (sends w)"
  using assms
  by (auto simp: config_handlers_def plain_handlers_send setrov_sends antnset_sends satset_sends channelset_sends
      ioset_sends setpassword_sends split: if_splits)

lemma pro_config_sends: "wlp (pro_config req w) (sends w)"
  unfolding pro_config_def
  by (auto split: option.splits intro!: handler_intros) (erule config_handler_sends)

lemma pro_config_named:
  assumes "req ''QUERY_STRING'' = Some q" and "nul_free q" and "length q < URL_BUF_MAX_LEN"
    and "query_param q ''config'' = Some name"
  shows "\<exists>u. url_holds u (url_decode_ref q) \<and>
    pro_config req w = (case map_of config_handlers name of None \<Rightarrow> Some w | Some handler \<Rightarrow> handler u w)"
proof -
  obtain u where u: "url_parse url_zero q = Some u" "url_holds u (url_decode_ref q)"
    using url_parse_holds [OF assms(2,3)] by blast
  obtain p where "get_param_value u ''config'' = Some (Some p)" "cstr_at (buf u) p = Some name"
    using query.get_present [OF u(2), of "''config''" name] assms(4) by (auto simp: query_param_eq)
  with u show ?thesis by (auto simp: pro_config_def assms(1))
qed

section \<open>Properties\<close>



section \<open>Handlers against the fields of the query\<close>

text \<open>On a parsed query, \<open>with_param\<close> goes by the lookup, and the pointer it passes on reads the value.\<close>

definition param_pos :: "url_buf \<Rightarrow> string \<Rightarrow> nat" where
  "param_pos u name = the (the (get_param_value u name))"

lemma with_param_eq:
  "url_holds u s \<Longrightarrow> nul_free name \<Longrightarrow> with_param u name w k =
    (case param_of name s of None \<Rightarrow> Some w | Some v \<Rightarrow> k (param_pos u name))"
  by (auto simp: with_param_def param_pos_def dest: query.get_absent query.get_present split: option.splits)

lemma param_pos_read:
  "url_holds u s \<Longrightarrow> nul_free name \<Longrightarrow> param_of name s = Some v \<Longrightarrow> cstr_at (buf u) (param_pos u name) = Some v"
  by (auto simp: param_pos_def dest: query.get_present)

definition required :: "(string \<times> string list) list" where
  "required = [(''setbasepos'', [''lat'', ''lon'', ''hgt'']), (''engineset'', [''eng'']), (''eleset'', [''ele'']),
     (''netset'', [''ip'', ''gateway'', ''netmask'', ''dns'']), (''dirset'', [''type'', ''baseline'']),
     (''ioset'', [''clientbool'', ''ip'', ''port'', ''com'', ''datatype'']), (''setpassword'', [''account'', ''password'']),
     (''guideserial'', [''port'', ''baud'', ''databit'', ''check'', ''stop'']),
     (''guidenet'', [''clientbool'', ''ip'', ''port'']), (''output'', [''rtkout'', ''com'']),
     (''dirsyset'', [''type'']), (''rebootset'', [''type''])]"

lemma handler_missing:
  assumes "url_holds u s"
  shows
    "\<exists>p \<in> {''lat'', ''lon'', ''hgt''}. param_of p s = None \<Longrightarrow> setbasepos u w = Some w"
    "\<exists>p \<in> {''eng''}. param_of p s = None \<Longrightarrow> engineset u w = Some w"
    "\<exists>p \<in> {''ele''}. param_of p s = None \<Longrightarrow> eleset u w = Some w"
    "\<exists>p \<in> {''ip'', ''gateway'', ''netmask'', ''dns''}. param_of p s = None \<Longrightarrow> netset u w = Some w"
    "\<exists>p \<in> {''type'', ''baseline''}. param_of p s = None \<Longrightarrow> dirset u w = Some w"
    "\<exists>p \<in> {''clientbool'', ''ip'', ''port'', ''com'', ''datatype''}. param_of p s = None \<Longrightarrow> ioset u w = Some w"
    "\<exists>p \<in> {''account'', ''password''}. param_of p s = None \<Longrightarrow> setpassword u w = Some w"
    "\<exists>p \<in> {''port'', ''baud'', ''databit'', ''check'', ''stop''}. param_of p s = None \<Longrightarrow> guideserial u w = Some w"
    "\<exists>p \<in> {''clientbool'', ''ip'', ''port''}. param_of p s = None \<Longrightarrow> guidenet u w = Some w"
    "\<exists>p \<in> {''rtkout'', ''com''}. param_of p s = None \<Longrightarrow> output_set u w = Some w"
    "\<exists>p \<in> {''type''}. param_of p s = None \<Longrightarrow> dirsyset u w = Some w"
    "\<exists>p \<in> {''type''}. param_of p s = None \<Longrightarrow> rebootset u w = Some w"
  using with_param_eq [OF assms] param_pos_read [OF assms]
  unfolding setbasepos_def engineset_def eleset_def netset_def dirset_def ioset_def setpassword_def
    guideserial_def guidenet_def output_set_def dirsyset_def rebootset_def Let_def
  by (auto split: option.splits)

lemma required_handler:
  assumes "url_holds u s" and "(name, ps) \<in> set required" and "\<exists>p \<in> set ps. param_of p s = None"
  shows "\<exists>handler. map_of config_handlers name = Some handler \<and> handler u w = Some w"
proof -
  note missing = handler_missing [OF assms(1), of w]
  from assms(2) show ?thesis
    unfolding required_def set_simps insert_iff empty_iff prod.inject
    by (elim disjE conjE FalseE; insert assms(3); simp add: config_handlers_def missing)
qed

text \<open>C23. A configuration request that lacks one of the parameters of its handler does nothing at all:
  no command, no log entry, no answer.\<close>

theorem config_missing_parameter:
  assumes "req ''QUERY_STRING'' = Some q" and "nul_free q" and "length q < URL_BUF_MAX_LEN"
    and "query_param q ''config'' = Some name" and "(name, ps) \<in> set required" and "\<exists>p \<in> set ps. query_param q p = None"
  shows "pro_config req w = Some w"
proof -
  obtain u where u: "url_holds u (url_decode_ref q)" "pro_config req w =
      (case map_of config_handlers name of None \<Rightarrow> Some w | Some handler \<Rightarrow> handler u w)"
    using pro_config_named [of req q name w] assms(1-4) by blast
  then show ?thesis using required_handler [OF u(1) assms(5), of w] assms(6) by (auto simp: query_param_eq)
qed

theorem config_missing_parameter_witness:
  "pro_config [''QUERY_STRING'' \<mapsto> ''config=setbasepos&lat=1&hgt=2''] world_start = Some world_start"
proof -
  have "query_param ''config=setbasepos&lat=1&hgt=2'' ''config'' = Some ''setbasepos''"
    "query_param ''config=setbasepos&lat=1&hgt=2'' ''lon'' = None" by code_simp+
  then show ?thesis
    using config_missing_parameter [of "[''QUERY_STRING'' \<mapsto> ''config=setbasepos&lat=1&hgt=2'']" _ _ "[''lat'', ''lon'', ''hgt'']" world_start]
    by (simp add: URL_BUF_MAX_LEN_def required_def)
qed

text \<open>C22. The base position is passed on as it was typed: the request writes the one command that carries
  the three texts, as long as it fits the 100 bytes of \<open>cmd\<close>; a longer one overruns the buffer.\<close>

theorem setbasepos_command:
  assumes "req ''QUERY_STRING'' = Some q" and "nul_free q" and "length q < URL_BUF_MAX_LEN"
    and "query_param q ''config'' = Some ''setbasepos''"
    and "query_param q ''lat'' = Some lat" and "query_param q ''lon'' = Some lon" and "query_param q ''hgt'' = Some hgt"
    and "w_faults w = []"
  shows "pro_config req w =
    (if length lat + length lon + length hgt < 81
     then Some (w\<lparr>w_cmds := w_cmds w @ [CRLF @ ''fix position '' @ lat @ '' '' @ lon @ '' '' @ hgt @ CRLF]\<rparr>) else None)"
proof -
  obtain u where u: "url_holds u (url_decode_ref q)" "pro_config req w = setbasepos u w"
    using pro_config_named [of req q "''setbasepos''" w] assms(1-4) by (auto simp: config_handlers_def)
  then show ?thesis
    using assms(5-8) param_pos_read [OF u(1)]
    by (simp add: setbasepos_def with_param_eq [OF u(1)] query_param_eq send_last_def send_cmd_def fd_write_def ub_unless_def
        CRLF_def CMDLEN_def)
qed

theorem setbasepos_command_witness:
  "pro_config [''QUERY_STRING'' \<mapsto> ''config=setbasepos&lat=1&lon=2&hgt=3''] world_start =
    Some (world_start\<lparr>w_cmds := [[CR, LF] @ ''fix position 1 2 3'' @ [CR, LF]]\<rparr>)"
proof -
  let ?q = "''config=setbasepos&lat=1&lon=2&hgt=3''"
  have "query_param ?q ''config'' = Some ''setbasepos''" "query_param ?q ''lat'' = Some ''1''"
    "query_param ?q ''lon'' = Some ''2''" "query_param ?q ''hgt'' = Some ''3''" by code_simp+
  then show ?thesis
    using setbasepos_command [of "[''QUERY_STRING'' \<mapsto> ?q]" ?q "''1''" "''2''" "''3''" world_start]
    by (simp add: URL_BUF_MAX_LEN_def CRLF_def world_start_def)
qed

text \<open>The parameter, the verb and the words of the handlers that take a word from a table.\<close>

definition table_of :: "string \<Rightarrow> (string \<times> string \<times> string list) option" where
  "table_of = map_of [(''engineset'', ''eng'', ''setpvt '', engine_types),
     (''dirsyset'', ''type'', ''setpvt '', [''dynamic'', ''static'']), (''rebootset'', ''type'', '''', [''reboot'', ''freset''])]"

lemma table_handler:
  assumes "url_holds u s" and "table_of name = Some (p, verb, tab)" and "param_of p s = Some v" and "w_faults w = []"
  shows "\<exists>handler. map_of config_handlers name = Some handler \<and> handler u w =
    (if 0 \<le> atoi v \<and> atoi v < int (length tab)
     then Some (w\<lparr>w_cmds := w_cmds w @ [CRLF @ verb @ tab ! nat (atoi v) @ CRLF]\<rparr>) else None)"
proof -
  note eqs = with_param_eq [OF assms(1)] param_pos_read [OF assms(1)]
  have short: "length (tab ! i) < 20" if "i < length tab" for i
    using that assms(2) by (auto simp: table_of_def engine_types_def less_Suc_eq_0_disj split: if_splits)
  have "\<exists>handler. map_of config_handlers name = Some handler \<and> length verb \<le> 7 \<and>
    handler u w = Option.bind (rd_int tab (atoi v)) (\<lambda>x. send_last write_error_nl (CRLF @ verb @ x @ CRLF) w)"
    using assms(2,3)
    by (auto simp: table_of_def config_handlers_def engineset_def dirsyset_def rebootset_def eqs split: if_splits)
  then obtain handler where h: "map_of config_handlers name = Some handler" "length verb \<le> 7"
    "handler u w = Option.bind (rd_int tab (atoi v)) (\<lambda>x. send_last write_error_nl (CRLF @ verb @ x @ CRLF) w)" by blast
  have "handler u w =
    (if 0 \<le> atoi v \<and> atoi v < int (length tab)
     then Some (w\<lparr>w_cmds := w_cmds w @ [CRLF @ verb @ tab ! nat (atoi v) @ CRLF]\<rparr>) else None)"
  proof (cases "0 \<le> atoi v \<and> atoi v < int (length tab)")
    case True
    then have i: "nat (atoi v) < length tab" by linarith
    from short [OF i] h(2) have "length (CRLF @ verb @ tab ! nat (atoi v) @ CRLF) < CMDLEN"
      by (simp add: CRLF_def CMDLEN_def)
    with True i show ?thesis
      by (simp add: h(3) rd_int_def send_last_def send_cmd_def fd_write_def assms(4) del: length_append)
  next
    case False
    then show ?thesis by (auto simp: h(3) rd_int_def rd_def)
  qed
  with h(1) show ?thesis by blast
qed

text \<open>C11. Three handlers take a word from a table by a number of the request: the engine type, the
  positioning mode and the kind of restart. They are defined exactly when the number is an index of
  the table, and then they write the one command with that word.\<close>

theorem config_table_bounds:
  assumes "req ''QUERY_STRING'' = Some q" and "nul_free q" and "length q < URL_BUF_MAX_LEN"
    and "query_param q ''config'' = Some name" and "table_of name = Some (p, verb, tab)" and "query_param q p = Some v"
    and "w_faults w = []"
  shows "pro_config req w =
    (if 0 \<le> atoi v \<and> atoi v < int (length tab)
     then Some (w\<lparr>w_cmds := w_cmds w @ [CRLF @ verb @ tab ! nat (atoi v) @ CRLF]\<rparr>) else None)"
proof -
  obtain u where u: "url_holds u (url_decode_ref q)" "pro_config req w =
      (case map_of config_handlers name of None \<Rightarrow> Some w | Some handler \<Rightarrow> handler u w)"
    using pro_config_named [of req q name w] assms(1-4) by blast
  show ?thesis using table_handler [OF u(1) assms(5) _ assms(7)] assms(6) u(2) by (auto simp: query_param_eq)
qed

theorem config_table_bounds_witness:
  "pro_config [''QUERY_STRING'' \<mapsto> ''config=rebootset&type=1''] world_start =
     Some (world_start\<lparr>w_cmds := [CRLF @ ''freset'' @ CRLF]\<rparr>)"
proof -
  let ?q = "''config=rebootset&type=1''"
  have "query_param ?q ''config'' = Some ''rebootset''" "query_param ?q ''type'' = Some ''1''" "atoi ''1'' = 1"
    by code_simp+
  then show ?thesis
    using config_table_bounds [of "[''QUERY_STRING'' \<mapsto> ?q]" ?q "''rebootset''" "''type''" "''''" "[''reboot'', ''freset'']" "''1''" world_start]
    by (simp add: URL_BUF_MAX_LEN_def table_of_def world_start_def)
qed

lemma send_cmd_good: "send_cmd err s w = Some (w', ok) \<Longrightarrow> w_faults w = [] \<Longrightarrow> ok \<and> w_faults w' = []"
  by (auto simp: send_cmd_def fd_write_def c_mem)

lemma sat_loop_good: "w_faults w = [] \<Longrightarrow> wlp (sat_loop sys prn i n w) (\<lambda>r. snd r \<and> w_faults (fst r) = [])"
  by (induction n arbitrary: i w) (auto dest: send_cmd_good intro!: wlp_intros)

lemma sat_loop_unset: "0 < n \<Longrightarrow> sat_loop sys (replicate m None) i n w = None"
  by (cases n) (auto simp: rd_set_def rd_def)

text \<open>C12. A request to lock satellites cannot be carried out: as long as the receiver takes the commands,
  \<open>satset\<close> goes on to the satellites of the third system, which no parameter sets, and acts on
  indeterminate values.\<close>

theorem satset_indeterminate:
  assumes "w_faults w = []"
  shows "satset u w = None"
proof -
  have "sats_loop [gps, glo, replicate MAXPRN None, bds, sbas] 0 5 w = None" for gps glo bds sbas
  proof -
    have third: "sats_loop [gps, glo, replicate MAXPRN None, bds, sbas] 2 3 v = None" for v
      by (simp add: numeral_3_eq_3 numeral_2_eq_2 rd_def sat_loop_unset MAXPRN_def)
    have "sats_loop [gps, glo, replicate MAXPRN None, bds, sbas] 1 4 v = None" if "w_faults v = []" for v
      using third that
      by (cases "sat_loop (system_types ! 1) glo 0 MAXPRN v")
        (auto simp: numeral_eq_Suc rd_def dest: wlpD [OF sat_loop_good])
    then show ?thesis using assms
      by (cases "sat_loop (system_types ! 0) gps 0 MAXPRN w")
        (auto simp: numeral_eq_Suc rd_def dest: wlpD [OF sat_loop_good])
  qed
  then show ?thesis by (simp add: satset_def bind_undefined)
qed

theorem satset_indeterminate_witness:
  "pro_config [''QUERY_STRING'' \<mapsto> ''config=satset&sys=1''] world_start = None"
proof -
  have q: "query_param ''config=satset&sys=1'' ''config'' = Some ''satset''" by code_simp
  obtain u where "pro_config [''QUERY_STRING'' \<mapsto> ''config=satset&sys=1''] world_start = satset u world_start"
    using pro_config_named [OF _ _ _ q, of "[''QUERY_STRING'' \<mapsto> ''config=satset&sys=1'']" world_start]
    by (auto simp: URL_BUF_MAX_LEN_def config_handlers_def)
  then show ?thesis using satset_indeterminate [of world_start u] by (simp add: world_start_def)
qed

end
