(* ===== verification/Web_Server.thy ===== *)
theory Web_Server
  imports Web_Guide Web_Config
begin

text \<open>
  The entry point \<open>web_pro\<close> of \<^verbatim>\<open>src/web_pro.c\<close>, which sends a request to the pages or to the
  configuration handlers, and what one request can do to the world.
\<close>

definition GUIDE_CMD :: string where "GUIDE_CMD = ''/get_receiver_guide.cmd''"
definition CONFIG_CMD :: string where "CONFIG_CMD = ''/get_receiver_config.cmd''"

definition web_pro :: "request \<Rightarrow> world \<Rightarrow> world option" where
  "web_pro req w = (case req ''SCRIPT_NAME'' of
     None \<Rightarrow> Some (myerror (''fcgx getparam error'' @ [LF]) w)
   | Some scname \<Rightarrow>
       if scname = GUIDE_CMD then pro_guide req w
       else if scname = CONFIG_CMD then pro_config req w
       else Some (myerror (''script name error'' @ [LF]) w))"

section \<open>What a page may do\<close>

text \<open>A page asks the receiver for messages, may write to the log, and may cut the text of the
  address; everything else stays.\<close>

definition displays :: "world \<Rightarrow> world \<Rightarrow> bool" where
  "displays w w' \<longleftrightarrow> w_files w' = w_files w \<and> w_saves w' = w_saves w \<and> w_out w' = w_out w
     \<and> (\<exists>cs. w_cmds w' = w_cmds w @ cs \<and> set cs \<subseteq> set log_cmds)
     \<and> (\<exists>b. length b = length (nt_ip (g_net (w_guide w))) \<and>
          w_guide w' = (w_guide w)\<lparr>g_net := (g_net (w_guide w))\<lparr>nt_ip := b\<rparr>\<rparr>)"

lemma displays_refl: "displays w w"
  unfolding displays_def by (intro conjI exI [of _ "[]"] exI [of _ "nt_ip (g_net (w_guide w))"]) simp_all

lemma displays_trans: "displays w w1 \<Longrightarrow> displays w1 w2 \<Longrightarrow> displays w w2"
  unfolding displays_def by fastforce

lemma displays_myerror: "displays w w1 \<Longrightarrow> displays w (myerror s w1)"
  by (simp add: displays_def myerror_def)

lemma sendcmd_displays: "sendcmd cn w = Some (w', n) \<Longrightarrow> displays w w'"
  using displays_refl [of w]
  by (auto simp: sendcmd_def c_mem fd_write_def displays_def Let_def split: list.splits bool.splits)

lemma cut_displays:
  "displays w w1 \<Longrightarrow> wr (nt_ip (g_net (w_guide w1))) p v = Some b \<Longrightarrow>
    displays w (w1\<lparr>w_guide := (w_guide w1)\<lparr>g_net := (g_net (w_guide w1))\<lparr>nt_ip := b\<rparr>\<rparr>\<rparr>)"
  unfolding displays_def by (fastforce dest: wr_length)

lemma requesting_displays:
  assumes "displays w0 w" and "\<And>w1. displays w0 w1 \<Longrightarrow> wlp (page w1) (\<lambda>r. displays w0 (fst r))"
  shows "wlp (requesting cn w page) (\<lambda>r. displays w0 (fst r))"
  unfolding requesting_def
  by (intro wlp_intros)
    (auto intro: assms(2) displays_trans [OF assms(1)] displays_myerror dest!: sendcmd_displays)

lemma respond_displays: "displays w w1 \<Longrightarrow> wlp (respond w1 ob) (\<lambda>r. displays w (fst r))"
  by (auto simp: respond_def wlp_def c_mem)

lemma inter_rows_displays: "displays w0 w \<Longrightarrow> wlp (inter_rows jo xs i n w ob) (\<lambda>r. displays w0 (fst r))"
proof (induction n arbitrary: i w ob)
  case (Suc n)
  then show ?case by (auto intro!: wlp_intros Suc.IH displays_myerror split: option.split)
qed (simp add: wlp_Some)

lemmas page_intros = requesting_displays respond_displays displays_refl wlp_intros

lemma simple_pages_display:
  "wlp (state w) (\<lambda>r. displays w (fst r))" "wlp (action w) (\<lambda>r. displays w (fst r))"
  "wlp (position w) (\<lambda>r. displays w (fst r))" "wlp (tracetable w) (\<lambda>r. displays w (fst r))"
  "wlp (getpos w) (\<lambda>r. displays w (fst r))" "wlp (getdir w) (\<lambda>r. displays w (fst r))"
  "wlp (getengine w) (\<lambda>r. displays w (fst r))" "wlp (getchansta w) (\<lambda>r. displays w (fst r))"
  "wlp (getserclient w) (\<lambda>r. displays w (fst r))"
  unfolding state_def action_def position_def tracetable_def getpos_def getdir_def getengine_def getchansta_def
    getserclient_def Let_def
  by (intro page_intros; assumption)+

lemma getpassword_displays: "wlp (getpassword w) (\<lambda>r. displays w (fst r))"
  unfolding getpassword_def by (intro wlp_intros) (simp add: displays_refl)

lemma getip_displays: "wlp (getip w) (\<lambda>r. displays w (fst r))"
  unfolding getip_def Let_def
  by (intro page_intros; (assumption | auto split: option.split intro!: page_intros cut_displays))

lemma getinter_displays: "wlp (getinter w) (\<lambda>r. displays w (fst r))"
  unfolding getinter_def Let_def
  by (intro page_intros; (assumption | auto split: option.split intro!: page_intros displays_myerror
      dest: wlpD [OF inter_rows_displays]))

lemma guide_page_displays:
  assumes "map_of guide_pages name = Some page"
  shows "wlp (page w) (\<lambda>r. displays w (fst r))"
  using assms
  by (auto simp: guide_pages_def simple_pages_display getpassword_displays getip_displays getinter_displays split: if_splits)

definition answers :: "world \<Rightarrow> world \<Rightarrow> bool" where
  "answers w w' \<longleftrightarrow> (\<exists>w1. displays w w1 \<and> (w' = w1 \<or> (\<exists>s. w' = w1\<lparr>w_out := w_out w1 @ HTTP_CONENT_HEAD @ s\<rparr>)))"

lemma answers_displays: "displays w w1 \<Longrightarrow> answers w w1"
  by (auto simp: answers_def)

lemma answers_out: "displays w w1 \<Longrightarrow> answers w (w1\<lparr>w_out := w_out w1 @ HTTP_CONENT_HEAD @ s\<rparr>)"
  by (auto simp: answers_def)

lemma show_page_answers:
  assumes "map_of guide_pages name = Some page"
  shows "wlp (show_page page w) (answers w)"
  using wlpD [OF guide_page_displays [OF assms, of w]] unfolding show_page_def
  by (auto intro!: wlp_intros answers_out split: option.split) (auto intro: answers_displays displays_myerror)

lemma answers_myerror: "answers w (myerror s w)"
  by (intro answers_displays displays_myerror displays_refl)

lemma pro_guide_answers: "wlp (pro_guide req w) (answers w)"
  unfolding pro_guide_def
  by (auto simp: answers_myerror split: option.splits intro!: wlp_intros) (erule show_page_answers)

lemma pro_guide_named:
  assumes "req ''QUERY_STRING'' = Some q" and "nul_free q" and "length q < URL_BUF_MAX_LEN"
    and "query_param q ''guide'' = Some name"
  shows "pro_guide req w = Option.bind (map_of guide_pages name) (\<lambda>page. show_page page w)"
proof -
  obtain u where u: "url_parse url_zero q = Some u" "url_holds u (url_decode_ref q)"
    using url_parse_holds [OF assms(2,3)] by blast
  obtain p where "get_param_value u ''guide'' = Some (Some p)" "cstr_at (buf u) p = Some name"
    using query.get_present [OF u(2), of "''guide''" name] assms(4) by (auto simp: query_param_eq)
  with u show ?thesis by (simp add: pro_guide_def assms(1))
qed

section \<open>Properties\<close>

text \<open>C8. Asking for a page keeps the files and every byte of the shared state but the text of the
  address, whose buffer keeps its length, and sends the receiver nothing but requests for messages;
  what is written to the response is appended behind the HTTP head.\<close>

theorem guide_page_effects:
  assumes "pro_guide req w = Some w'" and "guide_ok (w_guide w)"
  shows "guide_ok (w_guide w') \<and> w_files w' = w_files w
    \<and> (w_guide w')\<lparr>g_net := (g_net (w_guide w'))\<lparr>nt_ip := ip\<rparr>\<rparr> = (w_guide w)\<lparr>g_net := (g_net (w_guide w))\<lparr>nt_ip := ip\<rparr>\<rparr>
    \<and> (\<exists>cs. w_cmds w' = w_cmds w @ cs \<and> set cs \<subseteq> set log_cmds)
    \<and> (w_out w' = w_out w \<or> (\<exists>s. w_out w' = w_out w @ HTTP_CONENT_HEAD @ s))"
  using wlpD [OF pro_guide_answers assms(1)] assms(2) by (auto simp: answers_def displays_def guide_ok_def net_ok_def)

theorem guide_page_effects_witness:
  "\<exists>w'. pro_guide [''QUERY_STRING'' \<mapsto> ''guide=getengine''] world_start = Some w' \<and> guide_ok (w_guide w')"
proof -
  have q: "query_param ''guide=getengine'' ''guide'' = Some ''getengine''" by code_simp
  have "wf_json (of_object (set_fields new_object [(''engine'', byte_num 0)]))"
    by code_simp
  from json_serialize_to_string_text [OF this, of False NUL] obtain t where
    "respond (world_start\<lparr>w_cmds := [log_cmds ! 0]\<rparr>) (set_fields new_object [(''engine'', byte_num 0)]) =
      Some (world_start\<lparr>w_cmds := [log_cmds ! 0]\<rparr>, Some t)"
    by (auto simp: respond_def world_start_def)
  then obtain w' where w': "pro_guide [''QUERY_STRING'' \<mapsto> ''guide=getengine''] world_start = Some w'"
    using pro_guide_named [OF _ _ _ q, of "[''QUERY_STRING'' \<mapsto> ''guide=getengine'']" world_start]
    by (auto simp: URL_BUF_MAX_LEN_def guide_pages_def show_page_def getengine_def requesting_def sendcmd_def fd_write_def
        world_start_def guide_zero_def log_cmds_def)
  then show ?thesis using guide_page_effects [OF w'] guide_zero_ok by (auto simp: world_start_def)
qed

section \<open>The password file\<close>

lemma ascii_valid: "list_all (\<lambda>c. of_char c \<in> {1..<(128::nat)}) s \<Longrightarrow> is_valid_utf8 s"
proof (induction s)
  case (Cons c s)
  then have "verify_utf8_sequence (c # s) = Some 1"
    by (auto simp: verify_utf8_sequence_def num_bytes_in_utf8_sequence_def byte_at_def IS_CONT_def Let_def)
  with Cons show ?case by (simp add: is_valid_utf8.simps [of "c # s"])
qed (simp add: is_valid_utf8.simps)

lemma account_json:
  assumes "is_valid_utf8 a" and "is_valid_utf8 p"
  shows "of_object (set_fields new_object [(''account'', Str a), (''password'', Str p)]) =
    JObject [(''account'', JString a), (''password'', JString p)] STARTING_CAPACITY"
  using assms
  by (simp add: set_fields_def new_object_def json_object_set_string_def json_value_init_string_def json_object_set_value_def
      json_object_add_def grow_capacity_def STARTING_CAPACITY_def OBJECT_MAX_CAPACITY_def of_object_def)

text \<open>The text does not depend on the capacity, so what was read back prints as it stood.\<close>

lemma serialize_trimmed:
  assumes "json_serialize_to_string b fill (Some (JObject kvs cap)) = Some (Some t)"
    and "wf_json (JObject kvs cap)" and "length kvs \<le> cap'" and "cap' \<le> OBJECT_MAX_CAPACITY"
  shows "json_serialize_to_string b fill (Some (JObject kvs cap')) = Some (Some t)"
proof -
  have "wf_json (JObject kvs cap')" using assms(2-4) by simp
  moreover have "ser_text (JObject kvs cap') 0 b = ser_text (JObject kvs cap) 0 b" by simp
  ultimately show ?thesis
    using json_serialize_to_string_text [of "JObject kvs cap'" b fill] json_serialize_to_string_text [OF assms(2), of b fill] assms(1)
    by auto
qed

lemma setpassword_written:
  assumes "url_holds u s" and "param_of ''account'' s = Some a" and "param_of ''password'' s = Some p"
    and "is_valid_utf8 a" and "is_valid_utf8 p" and "pop_save w = Written"
  shows "\<exists>content. setpassword u w = Some (w\<lparr>w_files := (w_files w)(JPASSWORD \<mapsto> content), w_saves := tl (w_saves w)\<rparr>) \<and> nul_free content \<and>
    json_serialize_to_string False (w_fill w) (Some (JObject [(''account'', JString a), (''password'', JString p)] STARTING_CAPACITY)) =
      Some (Some content)"
proof -
  let ?v = "JObject [(''account'', JString a), (''password'', JString p)] STARTING_CAPACITY"
  note read = param_pos_read [OF assms(1)]
  have "nul_free a" "nul_free p"
    using read [OF _ assms(2)] read [OF _ assms(3)] by (auto dest: cstr_at_SomeD(1))
  then have "wf_json ?v" by (simp add: STARTING_CAPACITY_def OBJECT_MAX_CAPACITY_def)
  from json_serialize_to_string_text [OF this] obtain t where
    "json_serialize_to_string False (w_fill w) (Some ?v) = Some (Some t)" "nul_free t" by blast
  then show ?thesis using assms(2-6) read
    by (simp add: setpassword_def with_param_eq [OF assms(1)] Let_def account_json json_serialize_to_file_def)
qed

text \<open>C6. The password survives the way through the URL, the file and the page: after a request
  \<open>setpassword\<close> whose file could be written, the file parses to the account and the password that the decoded
  query carries, and the page \<open>getpassword\<close> answers with exactly the text of the file.\<close>

theorem password_roundtrip:
  assumes "req ''QUERY_STRING'' = Some q" and "nul_free q" and "length q < URL_BUF_MAX_LEN"
    and "query_param q ''config'' = Some ''setpassword''"
    and "query_param q ''account'' = Some a" and "query_param q ''password'' = Some p"
    and "is_valid_utf8 a" and "is_valid_utf8 p" and "printable_string a" and "printable_string p"
    and "pop_save w = Written" and "req' ''QUERY_STRING'' = Some ''guide=getpassword''"
  shows "\<exists>w' content. pro_config req w = Some w' \<and> w_files w' = (w_files w)(JPASSWORD \<mapsto> content)
    \<and> json_parse_file (w_files w') JPASSWORD = Some (Some (JObject [(''account'', JString a), (''password'', JString p)] 2))
    \<and> pro_guide req' w' = Some (w'\<lparr>w_out := w_out w' @ HTTP_CONENT_HEAD @ content\<rparr>)"
proof -
  let ?v = "\<lambda>cap. JObject [(''account'', JString a), (''password'', JString p)] cap"
  obtain u where u: "url_holds u (url_decode_ref q)" "pro_config req w = setpassword u w"
    using pro_config_named [of req q "''setpassword''" w] assms(1-4) by (auto simp: config_handlers_def)
  obtain content where w': "setpassword u w = Some (w\<lparr>w_files := (w_files w)(JPASSWORD \<mapsto> content), w_saves := tl (w_saves w)\<rparr>)"
      (is "_ = Some ?w'")
    and content: "nul_free content" "json_serialize_to_string False (w_fill w) (Some (?v STARTING_CAPACITY)) = Some (Some content)"
    using setpassword_written [OF u(1) _ _ assms(7,8,11)] assms(5,6) by (auto simp: query_param_eq)
  note read = param_pos_read [OF u(1)]
  have "nul_free a" "nul_free p"
    using read [of "''account''" a] read [of "''password''" p] assms(5,6) by (auto simp: query_param_eq dest: cstr_at_SomeD(1))
  then have wf: "wf_json (?v STARTING_CAPACITY)" by (simp add: STARTING_CAPACITY_def OBJECT_MAX_CAPACITY_def)
  moreover have "printable (?v STARTING_CAPACITY)" "nested_within 0 (?v STARTING_CAPACITY)"
    using assms(9,10) by (simp_all add: printable_string_def printable_char_def OBJECT_MAX_CAPACITY_def MAX_NESTING_def)
  ultimately have parsed: "json_parse_string (Some content) = Some (Some (?v 2))"
    using json_text_roundtrip [OF wf, of False "w_fill w"] content(2) by (simp add: numeral_2_eq_2)
  have again: "json_serialize_to_string False (w_fill w) (Some (?v 2)) = Some (Some content)"
    using serialize_trimmed [OF content(2) wf, of 2] by (simp add: OBJECT_MAX_CAPACITY_def)
  have q: "query_param ''guide=getpassword'' ''guide'' = Some ''getpassword''" by code_simp
  have "takeWhile (\<lambda>c. c \<noteq> NUL) content = content" using content(1) by (auto simp: nul_free_def takeWhile_eq_all_conv)
  then have saved: "json_parse_file (w_files ?w') JPASSWORD = Some (Some (?v 2))"
    using parsed by (simp add: json_parse_file_def read_file_def del: takeWhile_eq_all_conv)
  then have "pro_guide req' ?w' = Some (?w'\<lparr>w_out := w_out ?w' @ HTTP_CONENT_HEAD @ content\<rparr>)"
    using again pro_guide_named [of req' "''guide=getpassword''" "''getpassword''", OF assms(12) _ _ q]
    by (simp add: URL_BUF_MAX_LEN_def guide_pages_def show_page_def getpassword_def)
  then show ?thesis using u(2) w' saved by (intro exI [of _ ?w'] exI [of _ content]) simp
qed

theorem password_roundtrip_witness:
  "\<exists>w' content. pro_config [''QUERY_STRING'' \<mapsto> ''config=setpassword&account=%61dmin&password=a+b''] world_start = Some w'
    \<and> json_parse_file (w_files w') JPASSWORD = Some (Some (JObject [(''account'', JString ''admin''), (''password'', JString ''a b'')] 2))
    \<and> pro_guide [''QUERY_STRING'' \<mapsto> ''guide=getpassword''] w' = Some (w'\<lparr>w_out := w_out w' @ HTTP_CONENT_HEAD @ content\<rparr>)"
proof -
  let ?q = "''config=setpassword&account=%61dmin&password=a+b''"
  have "query_param ?q ''config'' = Some ''setpassword''" "query_param ?q ''account'' = Some ''admin''"
    "query_param ?q ''password'' = Some ''a b''" "printable_string ''admin''" "printable_string ''a b''" by code_simp+
  moreover have "is_valid_utf8 ''admin''" "is_valid_utf8 ''a b''" by (rule ascii_valid; code_simp)+
  ultimately obtain w' content where "pro_config [''QUERY_STRING'' \<mapsto> ?q] world_start = Some w'"
    "json_parse_file (w_files w') JPASSWORD = Some (Some (JObject [(''account'', JString ''admin''), (''password'', JString ''a b'')] 2))"
    "pro_guide [''QUERY_STRING'' \<mapsto> ''guide=getpassword''] w' = Some (w'\<lparr>w_out := w_out w' @ HTTP_CONENT_HEAD @ content\<rparr>)"
    using password_roundtrip [of "[''QUERY_STRING'' \<mapsto> ?q]" ?q "''admin''" "''a b''" world_start "[''QUERY_STRING'' \<mapsto> ''guide=getpassword'']"]
    by (auto simp: URL_BUF_MAX_LEN_def world_start_def pop_save_def)
  then show ?thesis by blast
qed

end
