(* ===== verification/Web_Pages.thy ===== *)
theory Web_Pages
  imports Web_Server
begin

text \<open>
  What a client reads in the pages of \<^verbatim>\<open>src/web_pro.c\<close>: the text that a page answers with is parsed
  back, with the parser of the same program, to the members that stand for the shared state.
\<close>

section \<open>Objects built by a run of setters\<close>

fun field_json :: "field \<Rightarrow> json" where
  "field_json (Num d) = JNumber d"
| "field_json (Str s) = JString s"

fun field_ok :: "field \<Rightarrow> bool" where
  "field_ok (Num d) \<longleftrightarrow> printable_number d"
| "field_ok (Str s) \<longleftrightarrow> is_valid_utf8 s \<and> printable_string s \<and> nul_free s"

lemma set_field_fresh:
  assumes "map_of kvs n = None" and "field_ok f" and "(kvs = [] \<and> cap = 0) \<or> (cap = 15 \<and> length kvs < 15)"
  shows "set_field (kvs, cap) (n, f) = (kvs @ [(n, field_json f)], 15)"
proof -
  have "json_object_set_value (kvs, cap) n (Some v) = (JSONSuccess, (kvs @ [(n, v)], 15))" for v
    using assms(1,3)
    by (auto simp: json_object_set_value_def json_object_add_def grow_capacity_def STARTING_CAPACITY_def OBJECT_MAX_CAPACITY_def)
  then show ?thesis using assms(2)
    by (cases f) (simp_all add: json_object_set_number_def json_object_set_string_def json_value_init_number_def json_value_init_string_def)
qed

lemma set_fields_fresh:
  assumes "distinct (map fst kvs @ map fst fs)" and "\<forall>nf \<in> set fs. field_ok (snd nf)" and "fs \<noteq> []"
    and "(kvs = [] \<and> cap = 0) \<or> cap = 15" and "length kvs + length fs \<le> 15"
  shows "set_fields (kvs, cap) fs = (kvs @ map (\<lambda>(n, f). (n, field_json f)) fs, 15)"
  using assms
proof (induction fs arbitrary: kvs cap)
  case (Cons nf fs)
  obtain n f where nf: "nf = (n, f)" by (cases nf)
  have "map_of kvs n = None" using Cons.prems(1) by (auto simp: nf map_of_eq_None_iff)
  then have one: "set_field (kvs, cap) nf = (kvs @ [(n, field_json f)], 15)"
    using Cons.prems by (intro set_field_fresh [of kvs n f cap, folded nf]) (auto simp: nf)
  show ?case
  proof (cases "fs = []")
    case True
    then show ?thesis using one by (simp add: set_fields_def nf)
  next
    case False
    then show ?thesis
      using Cons.IH [of "kvs @ [(n, field_json f)]" 15] Cons.prems one by (simp add: set_fields_def nf)
  qed
qed simp

definition object_of :: "(string \<times> field) list \<Rightarrow> json" where
  "object_of fs = JObject (map (\<lambda>(n, f). (n, field_json f)) fs) (length fs)"

text \<open>The text of a small object reads back as its members.\<close>

lemma respond_reads:
  assumes "distinct (map fst fs)" and "\<forall>nf \<in> set fs. field_ok (snd nf) \<and> printable_string (fst nf) \<and> nul_free (fst nf)"
    and "fs \<noteq> []" and "length fs \<le> 15"
  shows "\<exists>t. respond w (set_fields new_object fs) = Some (w, Some t) \<and> nul_free t \<and>
    json_parse_string (Some t) = Some (Some (object_of fs))"
proof -
  let ?kvs = "map (\<lambda>(n, f). (n, field_json f)) fs"
  have ob: "of_object (set_fields new_object fs) = JObject ?kvs 15"
    using set_fields_fresh [of "[]" fs 0] assms by (simp add: new_object_def of_object_def)
  have ok: "wf_json (field_json f)" "printable (field_json f)" "nested_within (Suc 0) (field_json f)" "json_trim (field_json f) = field_json f"
    if "field_ok f" for f using that by (cases f; simp add: MAX_NESTING_def)+
  have names: "map fst ?kvs = map fst fs" by (induction fs) auto
  have "wf_json (JObject ?kvs 15)" "printable (JObject ?kvs 15)" "nested_within 0 (JObject ?kvs 15)"
    unfolding wf_json.simps printable.simps nested_within.simps names
    using assms ok by (auto simp: OBJECT_MAX_CAPACITY_def MAX_NESTING_def)
  from json_text_roundtrip [OF this, of False "w_fill w"] obtain t where
    t: "json_serialize_to_string False (w_fill w) (Some (JObject ?kvs 15)) = Some (Some t)" "nul_free t"
    "json_parse_string (Some t) = Some (Some (json_trim (JObject ?kvs 15)))" by auto
  moreover have "json_trim (JObject ?kvs 15) = object_of fs"
    using assms(2) ok by (auto simp: object_of_def)
  ultimately show ?thesis by (auto simp: respond_def ob)
qed

lemma byte_num_ok [simp]: "field_ok (byte_num b)"
proof -
  have "uint b < 2 ^ LENGTH(8)" by (rule uint_bounded)
  then have "uint b < 2 ^ 31" by simp
  moreover have "- (2 ^ 31) \<le> uint b" by (rule order_trans [of _ 0]) simp_all
  ultimately have "d_to_int (d_of_int (uint b)) = uint b" by (intro d_to_int_of_int)
  then show ?thesis by (simp add: byte_num_def printable_number_def)
qed

text \<open>Texts of printable ASCII characters, such as the receiver state holds.\<close>

definition plain_text :: "string \<Rightarrow> bool" where
  "plain_text s \<longleftrightarrow> list_all (\<lambda>c. of_char c \<in> {32..<(128::nat)}) s"

lemma plain_text_ok: "plain_text s \<Longrightarrow> field_ok (Str s)"
proof -
  assume s: "plain_text s"
  then have "is_valid_utf8 s" by (intro ascii_valid) (auto simp: plain_text_def list_all_iff)
  moreover have "nul_free s" using s by (auto simp: plain_text_def nul_free_def list_all_iff dest!: bspec)
  moreover have "printable_string s" using s by (auto simp: plain_text_def printable_string_def printable_char_def list_all_iff)
  ultimately show ?thesis by simp
qed


lemma plain_text_simps [simp]:
  "plain_text []" "plain_text (c # s) \<longleftrightarrow> of_char c \<in> {32..<(128::nat)} \<and> plain_text s"
  "plain_text (s @ t) \<longleftrightarrow> plain_text s \<and> plain_text t"
  by (simp_all add: plain_text_def)

lemma digits_plain: "list_all isdigit s \<Longrightarrow> plain_text s"
  by (auto simp: plain_text_def list_all_iff isdigit_def less_eq_char_def)

lemma show_nat_plain [simp]: "plain_text (show_nat n)"
  using show_nat_digits [of n] by (intro digits_plain) (simp add: list_all_iff)

lemma dotted_plain: "dotted a = Some s \<Longrightarrow> plain_text s"
  by (auto simp: dotted_def c_mem)

section \<open>The page of the board state\<close>

definition state_fields :: "string \<Rightarrow> state_t \<Rightarrow> (string \<times> field) list" where
  "state_fields utc st = [(''utc'', Str utc),
     (''mainantnworksta'', byte_num (an_mainantnworksta (st_antn st))),
     (''mainantnrfsta'', byte_num (an_mainantnrfsta (st_antn st))),
     (''aantnworksta'', byte_num (an_aantnworksta (st_antn st))),
     (''aantnrfstan'', byte_num (an_aantnrfsta (st_antn st))),
     (''acpuload'', byte_num (cpu_acpuload (st_cpu st))),
     (''dcpuload'', byte_num (cpu_dcpuload (st_cpu st))),
     (''astatus'', byte_num (cpu_astatus (st_cpu st))),
     (''dstatus'', byte_num (cpu_dstatus (st_cpu st)))]"

lemma sendcmd_good:
  "w_faults w = [] \<Longrightarrow> cn < 5 \<Longrightarrow> sendcmd cn w = Some (w\<lparr>w_cmds := w_cmds w @ [log_cmds ! cn]\<rparr>, int (length (log_cmds ! cn)))"
  by (simp add: sendcmd_def fd_write_def log_cmds_def)

lemma requesting_good:
  "w_faults w = [] \<Longrightarrow> cn < 5 \<Longrightarrow> requesting cn w page = page (w\<lparr>w_cmds := w_cmds w @ [log_cmds ! cn]\<rparr>)"
proof -
  assume w: "w_faults w = []" and cn: "cn < 5"
  have "log_cmds ! cn \<noteq> []" using cn by (auto simp: log_cmds_def CRLF_def less_Suc_eq_0_disj numeral_eq_Suc)
  with w cn show ?thesis by (simp add: requesting_def sendcmd_good)
qed

lemma state_page:
  assumes "w_faults w = []" and "cstr_at (st_utctime (g_state (w_guide w))) 0 = Some utc" and "plain_text utc"
  shows "\<exists>t. state w = Some (w\<lparr>w_cmds := w_cmds w @ [log_cmds ! 0]\<rparr>, Some t) \<and>
    json_parse_string (Some t) = Some (Some (object_of (state_fields utc (g_state (w_guide w)))))"
proof -
  let ?fs = "state_fields utc (g_state (w_guide w))"
  have "distinct (map fst ?fs)" "\<forall>nf \<in> set ?fs. printable_string (fst nf) \<and> nul_free (fst nf)" "?fs \<noteq> []" "length ?fs \<le> 15"
    by (simp_all add: state_fields_def printable_string_def printable_char_def)
  moreover have "\<forall>nf \<in> set ?fs. field_ok (snd nf)"
    using plain_text_ok [OF assms(3)] by (simp add: state_fields_def del: field_ok.simps(2))
  ultimately have "\<exists>t. respond w' (set_fields new_object ?fs) = Some (w', Some t) \<and>
    json_parse_string (Some t) = Some (Some (object_of ?fs))" for w'
    using respond_reads [of ?fs w'] by blast
  then show ?thesis
    by (simp add: state_def requesting_good [OF assms(1)] assms(2) Let_def flip: state_fields_def)
qed

lemma plain_text_iff: "plain_text s \<longleftrightarrow> (\<forall>c \<in> set s. of_char c \<in> {32..<(128::nat)})"
  by (simp add: plain_text_def list_all_iff)

lemma fmt_fixed_plain [simp]: "plain_text (fmt_fixed n d)"
proof -
  have "plain_text (replicate k (CHR ''0'') @ show_nat m)" for k m
    by (simp add: plain_text_iff [of "replicate k _"])
  then have "plain_text (take i (replicate k (CHR ''0'') @ show_nat m))" "plain_text (drop i (replicate k (CHR ''0'') @ show_nat m))"
    for i k m by (meson plain_text_iff in_set_takeD in_set_dropD)+
  then have "plain_text (fixed_digits n m)" for m
    by (simp add: fixed_digits_def Let_def)
  then show ?thesis by (simp add: fmt_fixed_def Let_def split: fpval.split)
qed

lemma utc_text_plain: "utc_text t = Some s \<Longrightarrow> plain_text s"
proof -
  have "plain_text (map (fmt_fixed 0) (time2epoch u) ! i)" if "i < 6" for u i
  proof -
    have "length (time2epoch u) = 6" by (simp add: time2epoch_def Let_def split_def)
    then show ?thesis using that by simp
  qed
  then show "utc_text t = Some s \<Longrightarrow> plain_text s" by (auto simp: utc_text_def Let_def c_mem)
qed

section \<open>The page of the addresses\<close>

definition net_fields :: "string \<Rightarrow> string \<Rightarrow> string \<Rightarrow> string \<Rightarrow> string \<Rightarrow> string \<Rightarrow> byte \<Rightarrow> (string \<times> field) list" where
  "net_fields ip port gateway netmask dns serverip client = [(''ip'', Str ip), (''port'', Str port), (''gateway'', Str gateway),
     (''netmask'', Str netmask), (''dns'', Str dns), (''serverip'', Str serverip), (''serclient'', byte_num client)]"

text \<open>The texts of the addresses in the state, all plain.\<close>

definition net_texts :: "net_t \<Rightarrow> string \<Rightarrow> string \<Rightarrow> string \<Rightarrow> string \<Rightarrow> string \<Rightarrow> bool" where
  "net_texts n ip gateway netmask dns serverip \<longleftrightarrow> cstr_at (nt_ip n) 0 = Some ip \<and> cstr_at (nt_gateway n) 0 = Some gateway \<and>
     cstr_at (nt_netmask n) 0 = Some netmask \<and> cstr_at (nt_dns n) 0 = Some dns \<and> cstr_at (nt_serverip n) 0 = Some serverip \<and>
     plain_text ip \<and> plain_text gateway \<and> plain_text netmask \<and> plain_text dns \<and> plain_text serverip"

lemma last_dot_append: "CHR ''.'' \<notin> set b \<Longrightarrow> last_dot (a @ CHR ''.'' # b) = Some (length a)"
proof -
  assume "CHR ''.'' \<notin> set b"
  then have "takeWhile (\<lambda>c. c \<noteq> CHR ''.'') (rev b @ CHR ''.'' # rev a) = rev b"
    by (subst takeWhile_append2) auto
  then show ?thesis by (simp add: last_dot_def)
qed

lemma cut_text:
  assumes "cstr_at m 0 = Some (a @ CHR ''.'' # b)"
  shows "\<exists>m'. wr m (length a) NUL = Some m' \<and> cstr_at m' 0 = Some a \<and> cstr_at m' (length a + 1) = Some b"
proof -
  note d = cstr_at_SomeD [OF assms]
  let ?n = "Suc (length a + length b)"
  have n: "?n < length m" "m ! ?n = NUL" using d(2,3) by simp_all
  have "m = take ?n m @ m ! ?n # drop (Suc ?n) m" using n(1) by (rule id_take_nth_drop)
  then have m: "m = a @ CHR ''.'' # b @ NUL # drop (Suc ?n) m" using d(4) n(2) by simp
  define post where "post = drop (Suc ?n) m"
  have "m[length a := NUL] = a @ NUL # b @ NUL # post" by (subst m) (simp add: post_def)
  moreover have "length a < length m" using n(1) by simp
  moreover have "cstr_at ([] @ a @ NUL # b @ NUL # post) (length ([] :: string)) = Some a"
    using d(1) by (intro cstr_at_append) simp
  moreover have "cstr_at ((a @ [NUL]) @ b @ NUL # post) (length (a @ [NUL])) = Some b"
    using d(1) by (intro cstr_at_append) simp
  ultimately show ?thesis by simp
qed

lemma getip_page:
  assumes "w_faults w = []" and "net_texts (g_net (w_guide w)) (ip @ CHR ''.'' # port) gateway netmask dns serverip"
    and "CHR ''.'' \<notin> set port"
  shows "\<exists>w' t. getip w = Some (w', Some t) \<and> w_faults w' = [] \<and> net_texts (g_net (w_guide w')) ip gateway netmask dns serverip \<and>
    g_serclient (w_guide w') = g_serclient (w_guide w) \<and>
    json_parse_string (Some t) = Some (Some (object_of (net_fields ip port gateway netmask dns serverip (g_serclient (w_guide w)))))"
proof -
  let ?fs = "net_fields ip port gateway netmask dns serverip (g_serclient (w_guide w))"
  let ?w = "w\<lparr>w_cmds := w_cmds w @ [log_cmds ! 2, log_cmds ! 0]\<rparr>"
  obtain b where b: "wr (nt_ip (g_net (w_guide w))) (length ip) NUL = Some b" "cstr_at b 0 = Some ip" "cstr_at b (length ip + 1) = Some port"
    using cut_text [of "nt_ip (g_net (w_guide w))" ip port] assms(2) by (auto simp: net_texts_def)
  let ?w' = "?w\<lparr>w_guide := (w_guide w)\<lparr>g_net := (g_net (w_guide w))\<lparr>nt_ip := b\<rparr>\<rparr>\<rparr>"
  have "distinct (map fst ?fs)" "\<forall>nf \<in> set ?fs. printable_string (fst nf) \<and> nul_free (fst nf)" "?fs \<noteq> []" "length ?fs \<le> 15"
    by (simp_all add: net_fields_def printable_string_def printable_char_def)
  moreover have "\<forall>nf \<in> set ?fs. field_ok (snd nf)"
    using assms(2) by (auto simp: net_fields_def net_texts_def intro: plain_text_ok simp del: field_ok.simps(2))
  ultimately obtain t where t: "respond ?w' (set_fields new_object ?fs) = Some (?w', Some t)"
    "json_parse_string (Some t) = Some (Some (object_of ?fs))"
    using respond_reads [of ?fs ?w'] by blast
  have "getip w = Some (?w', Some t)"
    using assms(1,2) b t(1) last_dot_append [OF assms(3), of ip]
    by (simp add: getip_def requesting_good Let_def net_texts_def net_fields_def)
  then show ?thesis using assms(1,2) b(2) t(2)
    by (intro exI [of _ ?w'] exI [of _ t]) (simp add: net_texts_def)
qed

section \<open>Properties\<close>

text \<open>C4. A board message ends on the page: after a valid board frame behind any junk on the pipe, a
  request for \<open>state\<close> is answered with a JSON text that reads back as exactly the UTC time and the
  antenna and processor bytes of that frame.\<close>

theorem board_on_state_page:
  assumes "junk xs" and "framed fr n" and "71 \<le> n" and "crc_ok fr (int n)" and "frame_format fr = 0"
    and "unat (frame_type fr) = ID_HCNBOARD" and "frame_time now fr = Some t"
    and "gpst2utc t = Some u" and "0 \<le> gt_time u" and "gt_time u < 2 ^ 31" and "guide_ok (w_guide w)"
    and "w_faults w = []" and "req ''QUERY_STRING'' = Some q" and "nul_free q" and "length q < URL_BUF_MAX_LEN"
    and "query_param q ''guide'' = Some ''state''"
  shows "\<exists>g s w' body. deal_pro m now (w_guide w) ((xs @ fr @ rest) # cs) = Some (g, [], if rest = [] then cs else rest # cs)
    \<and> utc_text t = Some s \<and> pro_guide req (w\<lparr>w_guide := g\<rparr>) = Some w'
    \<and> w_out w' = w_out w @ HTTP_CONENT_HEAD @ body
    \<and> json_parse_string (Some body) = Some (Some (object_of [(''utc'', Str s),
        (''mainantnworksta'', byte_num (fr ! 34)), (''mainantnrfsta'', byte_num (fr ! 35)),
        (''aantnworksta'', byte_num (fr ! 36)), (''aantnrfstan'', byte_num (fr ! 37)),
        (''acpuload'', byte_num (fr ! 28)), (''dcpuload'', byte_num (fr ! 29)),
        (''astatus'', byte_num (fr ! 30)), (''dstatus'', byte_num (fr ! 31))]))"
proof -
  obtain b k where deal: "deal_pro m now (w_guide w) ((xs @ fr @ rest) # cs) =
      Some ((w_guide w)\<lparr>g_state := board_state (frame_board fr) b, g_entype := fr ! 33, g_net := k, g_serclient := fr ! 64\<rparr>, [],
        if rest = [] then cs else rest # cs)" (is "_ = Some (?g, _)")
    and b: "cstr_at b 0 = utc_text t"
    using board_delivered [OF assms(1-11), of m rest cs] by (elim exE conjE) (rule that)
  obtain s where s: "utc_text t = Some s" using utc_text_defined [OF assms(8-10)] by blast
  let ?w = "w\<lparr>w_guide := ?g\<rparr>"
  obtain body where page: "state ?w = Some (?w\<lparr>w_cmds := w_cmds ?w @ [log_cmds ! 0]\<rparr>, Some body)"
    and body: "json_parse_string (Some body) = Some (Some (object_of (state_fields s (board_state (frame_board fr) b))))"
    using state_page [of ?w s] assms(12) b s utc_text_plain [OF s] by (auto simp: board_state_def)
  have "pro_guide req ?w = Some (?w\<lparr>w_cmds := w_cmds ?w @ [log_cmds ! 0], w_out := w_out w @ HTTP_CONENT_HEAD @ body\<rparr>)"
    using pro_guide_named [of req q "''state''" ?w] assms(13-16) page by (simp add: guide_pages_def show_page_def)
  then show ?thesis using deal s body
    by (intro exI [of _ ?g] exI [of _ s] exI [of _ "?w\<lparr>w_cmds := w_cmds ?w @ [log_cmds ! 0], w_out := w_out w @ HTTP_CONENT_HEAD @ body\<rparr>"]
        exI [of _ body]) (simp add: state_fields_def board_state_def frame_board_def)
qed

theorem board_on_state_page_witness:
  "\<exists>g s w' body. deal_pro plain_libm year_2016 guide_zero [[0, 0xAA, 0x44] @ board_frame] = Some (g, [], [])
    \<and> pro_guide [''QUERY_STRING'' \<mapsto> ''guide=state''] (world_start\<lparr>w_guide := g\<rparr>) = Some w'
    \<and> w_out w' = HTTP_CONENT_HEAD @ body
    \<and> json_object_get_number (json_value_get_object (the (json_parse_string (Some body)))) ''acpuload'' = d_of_int (uint (board_frame ! 28))"
proof -
  have utc: "gpst2utc (gtime 1451174400 0) = Some (gtime 1451174384 0)"
    using gpst2utc_loop_int [OF leaps_row_times _ _ leap_times_rows(2), of 1451174400]
    by (simp add: gpst2utc_def leap_times_def)
  have q: "query_param ''guide=state'' ''guide'' = Some ''state''" by code_simp
  show ?thesis
    using board_on_state_page [OF junk_example board_frame(1) _ _ board_frame(3,4) board_frame_time utc _ _ _ _ _ _ _ q,
      of world_start "[''QUERY_STRING'' \<mapsto> ''guide=state'']" plain_libm "[]" "[]"] board_frame(2) guide_zero_ok
    by (auto simp: world_start_def gtime_def URL_BUF_MAX_LEN_def object_of_def json_value_get_object_def json_object_get_number_def
        json_value_get_number_def byte_num_def)
qed

text \<open>C10. The page \<open>getip\<close> changes what it shows: it cuts the port off the shared text of the address,
  so the next request, unless a board message comes in between, cuts again and answers with the last
  octet as the port.\<close>

theorem getip_twice:
  assumes "w_faults w = []"
    and "net_texts (g_net (w_guide w)) (a @ ''.'' @ b @ ''.'' @ port) gateway netmask dns serverip"
    and "CHR ''.'' \<notin> set b" and "CHR ''.'' \<notin> set port"
  shows "\<exists>w1 w2 t1 t2. getip w = Some (w1, Some t1) \<and> getip w1 = Some (w2, Some t2)
    \<and> json_parse_string (Some t1) = Some (Some (object_of (net_fields (a @ ''.'' @ b) port gateway netmask dns serverip (g_serclient (w_guide w)))))
    \<and> json_parse_string (Some t2) = Some (Some (object_of (net_fields a b gateway netmask dns serverip (g_serclient (w_guide w)))))"
proof -
  obtain w1 t1 where 1: "getip w = Some (w1, Some t1)" "w_faults w1 = []"
    "net_texts (g_net (w_guide w1)) (a @ ''.'' @ b) gateway netmask dns serverip" "g_serclient (w_guide w1) = g_serclient (w_guide w)"
    "json_parse_string (Some t1) = Some (Some (object_of (net_fields (a @ ''.'' @ b) port gateway netmask dns serverip (g_serclient (w_guide w)))))"
    using getip_page [OF assms(1), of "a @ ''.'' @ b" port gateway netmask dns serverip] assms(2,4) by auto
  obtain w2 t2 where "getip w1 = Some (w2, Some t2)"
    "json_parse_string (Some t2) = Some (Some (object_of (net_fields a b gateway netmask dns serverip (g_serclient (w_guide w)))))"
    using getip_page [OF 1(2), of a b gateway netmask dns serverip] 1(3,4) assms(3) by auto
  with 1 show ?thesis by blast
qed

theorem getip_twice_witness:
  "\<exists>w1 w2 t1 t2. getip (world_start\<lparr>w_guide := guide_zero\<lparr>g_net := (g_net guide_zero)\<lparr>nt_ip := ''192.168.1.2.80'' @ replicate 36 NUL\<rparr>\<rparr>\<rparr>) =
      Some (w1, Some t1) \<and> getip w1 = Some (w2, Some t2)
    \<and> json_parse_string (Some t1) = Some (Some (object_of (net_fields ''192.168.1.2'' ''80'' '''' '''' '''' '''' 0)))
    \<and> json_parse_string (Some t2) = Some (Some (object_of (net_fields ''192.168.1'' ''2'' '''' '''' '''' '''' 0)))"
proof -
  let ?g = "guide_zero\<lparr>g_net := (g_net guide_zero)\<lparr>nt_ip := ''192.168.1.2.80'' @ replicate 36 NUL\<rparr>\<rparr>"
  have "cstr_at (''192.168.1.2.80'' @ NUL # replicate 35 NUL) 0 = Some ''192.168.1.2.80''"
    using cstr_at_append [of "''192.168.1.2.80''" "[]" "replicate 35 NUL"] by simp
  moreover have "replicate 36 NUL = NUL # replicate 35 NUL" by (simp flip: replicate_Suc)
  ultimately have "cstr_at (''192.168.1.2.80'' @ replicate 36 NUL) 0 = Some ''192.168.1.2.80''" by (simp only:)
  moreover have "cstr_at (replicate MAXIP NUL) 0 = Some ''''" by (simp add: cstr_at_def MAXIP_def)
  ultimately have "net_texts (g_net ?g) ''192.168.1.2.80'' '''' '''' '''' ''''"
    by (simp add: net_texts_def guide_zero_def)
  then show ?thesis
    using getip_twice [of "world_start\<lparr>w_guide := ?g\<rparr>" "''192.168.1''" "''2''" "''80''" "''''" "''''" "''''" "''''"]
    by (simp add: world_start_def guide_zero_def)
qed

end
