(* ===== verification/Event_System.thy ===== *)
theory Event_System
  imports Prelude
begin

text \<open>
  Systems that react to events: runs of a transition relation, and the two interfaces that the event
  loop of the program is shown to meet, an invariant kept by every step, and events that only use up
  a stock.
\<close>

inductive run :: "('s \<Rightarrow> 'e \<Rightarrow> 's \<Rightarrow> bool) \<Rightarrow> 's \<Rightarrow> 'e list \<Rightarrow> 's \<Rightarrow> bool" for tr where
  run_nil: "run tr s [] s"
| run_cons: "tr s e s' \<Longrightarrow> run tr s' es s'' \<Longrightarrow> run tr s (e # es) s''"

inductive_simps run_Nil_iff: "run tr s [] s'"
inductive_cases run_ConsE: "run tr s (e # es) s'"

lemma run_append: "run tr s es s' \<Longrightarrow> run tr s' es' s'' \<Longrightarrow> run tr s (es @ es') s''"
  by (induction rule: run.induct) (auto intro: run_cons)

locale event_system =
  fixes tr :: "'s \<Rightarrow> 'e \<Rightarrow> 's \<Rightarrow> bool"
    and inv :: "'s \<Rightarrow> bool"
  assumes inv_step: "tr s e s' \<Longrightarrow> inv s \<Longrightarrow> inv s'"
begin

lemma inv_run: "run tr s es s' \<Longrightarrow> inv s \<Longrightarrow> inv s'"
  by (induction rule: run.induct) (auto intro: inv_step)

end

text \<open>Each of the events \<open>work\<close> takes something from the stock \<open>load\<close>.\<close>

locale draining_system =
  fixes tr :: "'s \<Rightarrow> 'e \<Rightarrow> 's \<Rightarrow> bool"
    and work :: "'e \<Rightarrow> bool"
    and load :: "'s \<Rightarrow> nat"
  assumes work_less: "tr s e s' \<Longrightarrow> work e \<Longrightarrow> load s' < load s"
begin

lemma run_bounded: "run tr s es s' \<Longrightarrow> list_all work es \<Longrightarrow> length es + load s' \<le> load s"
proof (induction rule: run.induct)
  case (run_cons s e s' es s'')
  then show ?case using work_less [of s e s'] by simp
qed simp

lemma run_replicate:
  assumes "\<And>es s'. run tr s es s' \<Longrightarrow> list_all work es \<Longrightarrow> load s' \<noteq> 0 \<Longrightarrow> \<exists>s''. tr s' e s''" and "work e"
  shows "\<exists>n s'. run tr s (replicate n e) s' \<and> load s' = 0"
  using assms(1)
proof (induction "load s" arbitrary: s rule: less_induct)
  case less
  show ?case
  proof (cases "load s = 0")
    case True
    then show ?thesis by (intro exI [of _ 0] exI [of _ s]) (simp add: run_nil)
  next
    case False
    then obtain s1 where step: "tr s e s1" using less.prems [of "[]" s] by (auto intro: run_nil)
    have goes_on: "\<exists>s''. tr s' e s''" if "run tr s1 es s'" "list_all work es" "load s' \<noteq> 0" for es s'
      using less.prems [of "e # es" s'] run_cons [of tr, OF step that(1)] that(2,3) assms(2) by simp
    have "\<exists>n s'. run tr s1 (replicate n e) s' \<and> load s' = 0"
      by (rule less.hyps [OF work_less [OF step assms(2)]]) (rule goes_on)
    then obtain n s' where "run tr s1 (replicate n e) s'" "load s' = 0" by blast
    then show ?thesis using run_cons [of tr, OF step] by (intro exI [of _ "Suc n"] exI [of _ s']) simp
  qed
qed

lemma drains:
  assumes "\<And>es s'. run tr s es s' \<Longrightarrow> list_all work es \<Longrightarrow> load s' \<noteq> 0 \<Longrightarrow> \<exists>s''. tr s' e s''" and "work e"
  shows "\<exists>n s'. n \<le> load s \<and> run tr s (replicate n e) s' \<and> load s' = 0"
proof -
  obtain n s' where "run tr s (replicate n e) s'" "load s' = 0" using run_replicate assms by blast
  moreover from this have "n \<le> load s" using run_bounded [of s "replicate n e" s'] assms(2) by (simp add: list_all_iff)
  ultimately show ?thesis by blast
qed

end

end
