(* ===== verification/Logger.thy ===== *)
theory Logger
  imports Gps_Time
begin

text \<open>
  \<^verbatim>\<open>src/logger.c\<close>: the log file, its mutex and the time text that is kept between calls. \<open>None\<close> is undefined
  behaviour or a call that never returns. The clock and the text that \<open>vfprintf\<close> makes are arguments; the calls of
  the C library that the code relies on are written out below.
\<close>

section \<open>The library calls\<close>

text \<open>\<open>gmtime_r\<close> from 1970 on: the Gregorian calendar.\<close>

record tm =
  tm_year :: int
  tm_mon :: int
  tm_mday :: int
  tm_hour :: int
  tm_min :: int
  tm_sec :: int

definition leap_year :: "int \<Rightarrow> bool" where
  "leap_year y \<longleftrightarrow> y mod 4 = 0 \<and> y mod 100 \<noteq> 0 \<or> y mod 400 = 0"

definition month_days :: "int \<Rightarrow> int list" where
  "month_days y = [31, if leap_year y then 29 else 28, 31, 30, 31, 30, 31, 31, 30, 31, 30, 31]"

definition year_days :: "int \<Rightarrow> int" where
  "year_days y = (if leap_year y then 366 else 365)"

function year_loop :: "int \<Rightarrow> int \<Rightarrow> int \<times> int" where
  "year_loop y d = (if d < year_days y then (y, d) else year_loop (y + 1) (d - year_days y))"
  by auto
termination by (relation "measure (\<lambda>(y, d). nat d)") (auto simp: year_days_def split: if_splits)

declare year_loop.simps [simp del]

definition gmtime_r :: "int \<Rightarrow> tm" where
  "gmtime_r t =
     (let (y, d) = year_loop 1970 (t div 86400); (day, mon) = month_loop (month_days y) d 0; s = t mod 86400
      in \<lparr>tm_year = y, tm_mon = mon, tm_mday = day + 1, tm_hour = s div 3600, tm_min = s mod 3600 div 60, tm_sec = s mod 60\<rparr>)"

text \<open>\<open>strftime\<close> for the format \<open>%F %T\<close>.\<close>

definition two_digits :: "int \<Rightarrow> string" where
  "two_digits i = (let s = show_int i in replicate (2 - length s) (CHR ''0'') @ s)"

definition strftime_FT :: "tm \<Rightarrow> string" where
  "strftime_FT tm = show_int (tm_year tm) @ ''-'' @ two_digits (tm_mon tm + 1) @ ''-'' @ two_digits (tm_mday tm) @ '' ''
     @ two_digits (tm_hour tm) @ '':'' @ two_digits (tm_min tm) @ '':'' @ two_digits (tm_sec tm)"

section \<open>State\<close>

record logger =
  s_mutex :: bool                        \<comment> \<open>held\<close>
  s_logger_fp :: "string option"         \<comment> \<open>the path that the stream is open on\<close>
  lg_text :: "string \<Rightarrow> string"     \<comment> \<open>what each file holds\<close>
  time_last :: int
  time_str_buf :: cbuf

definition DEFAUT_LOG_FILE_PATH :: string where "DEFAUT_LOG_FILE_PATH = ''./cm.log''"

definition logger_zero :: "(string \<Rightarrow> string) \<Rightarrow> logger" where
  "logger_zero files = \<lparr>s_mutex = False, s_logger_fp = None, lg_text = files, time_last = 0, time_str_buf = replicate 64 NUL\<rparr>"

text \<open>Locking a held mutex never returns, and unlocking a free one is undefined, for a mutex of the
  default kind; a write to the null stream is undefined.\<close>

definition pthread_mutex_lock :: "logger \<Rightarrow> logger option" where
  "pthread_mutex_lock lg = (if s_mutex lg then None else Some (lg\<lparr>s_mutex := True\<rparr>))"

definition pthread_mutex_unlock :: "logger \<Rightarrow> logger option" where
  "pthread_mutex_unlock lg = (if s_mutex lg then Some (lg\<lparr>s_mutex := False\<rparr>) else None)"

definition log_put :: "string \<Rightarrow> logger \<Rightarrow> logger option" where
  "log_put s lg = (case s_logger_fp lg of
       None \<Rightarrow> None
     | Some p \<Rightarrow> Some (lg\<lparr>lg_text := (lg_text lg)(p := lg_text lg p @ s)\<rparr>))"

section \<open>Operations\<close>

text \<open>\<open>can p\<close>: whether \<open>fopen(p, "a+")\<close> succeeds. The second result is what goes to \<open>stderr\<close>.\<close>

definition logger_init :: "(string \<Rightarrow> bool) \<Rightarrow> string option \<Rightarrow> logger \<Rightarrow> logger \<times> string" where
  "logger_init can path lg =
     (let p = (case path of None \<Rightarrow> DEFAUT_LOG_FILE_PATH | Some p \<Rightarrow> p) in
      if can p then (lg\<lparr>s_logger_fp := Some p\<rparr>, '''')
      else (lg\<lparr>s_logger_fp := None\<rparr>, ''open logger file failure :'' @ DEFAUT_LOG_FILE_PATH @ [LF]))"

definition LOG_LEVEL_ERROR :: int where "LOG_LEVEL_ERROR = 7"
definition LOG_LEVEL_WARN :: int where "LOG_LEVEL_WARN = 6"
definition LOG_LEVEL_INFO :: int where "LOG_LEVEL_INFO = 5"
definition LOG_LEVEL_DEBUG :: int where "LOG_LEVEL_DEBUG = 4"

text \<open>The time text is made anew when the clock \<open>now\<close> has moved on.\<close>

definition stamp_time :: "int \<Rightarrow> logger \<Rightarrow> logger option" where
  "stamp_time now lg =
     (if time_last lg < now then
        let s = strftime_FT (gmtime_r now) in do {
          ub_unless (length s < 64);
          Some (lg\<lparr>time_last := now, time_str_buf := s @ replicate (64 - length s) NUL\<rparr>) }
      else Some lg)"

definition log_prefix :: "string \<Rightarrow> logger \<Rightarrow> logger option" where
  "log_prefix tag lg = do {
     t \<leftarrow> cstr_at (time_str_buf lg) 0;
     log_put (tag @ t @ '' '') lg }"

text \<open>\<open>txt\<close> is what \<open>vfprintf\<close> makes of the format and the arguments. The branch for other levels
  unlocks the mutex and goes on to the common end, which unlocks it again.\<close>

definition debug :: "int \<Rightarrow> int \<Rightarrow> string \<Rightarrow> logger \<Rightarrow> logger option" where
  "debug now level txt lg = do {
     lg \<leftarrow> pthread_mutex_lock lg;
     lg \<leftarrow> stamp_time now lg;
     lg \<leftarrow> (if level = LOG_LEVEL_DEBUG then log_prefix ''[ DEBUG ] '' lg
       else if level = LOG_LEVEL_INFO then log_prefix ''[ INFO  ] '' lg
       else if level = LOG_LEVEL_WARN then log_prefix ''[ WARN  ] '' lg
       else if level = LOG_LEVEL_ERROR then log_prefix ''[ ERROR ] '' lg
       else pthread_mutex_unlock lg);
     lg \<leftarrow> log_put txt lg;
     pthread_mutex_unlock lg }"

text \<open>\<open>myerror\<close>, on the stream. Without \<open>LOGFLAG\<close> the macros \<open>loge\<close> to \<open>logi\<close> are empty.\<close>

definition myerror_put :: "string \<Rightarrow> logger \<Rightarrow> logger option" where
  "myerror_put s lg = log_put s lg"

section \<open>The two calendars agree\<close>

lemma leap_year_iff: "1970 \<le> y \<Longrightarrow> y \<le> 2099 \<Longrightarrow> leap_year y \<longleftrightarrow> y mod 4 = 0"
proof -
  assume y: "1970 \<le> y" "y \<le> 2099"
  have "y = 2000" if "y mod 100 = 0"
  proof -
    have "y div 100 = 19 \<or> y div 100 = 20" using y by linarith
    moreover have "y = 100 * (y div 100)" using that mult_div_mod_eq [of 100 y] by simp
    ultimately show ?thesis using y by linarith
  qed
  moreover have "y = 2000" if "y mod 400 = 0"
  proof -
    have "y div 400 = 4 \<or> y div 400 = 5" using y by linarith
    moreover have "y = 400 * (y div 400)" using that mult_div_mod_eq [of 400 y] by simp
    ultimately show ?thesis using y by linarith
  qed
  ultimately show ?thesis by (auto simp: leap_year_def)
qed

lemma month_loop_append:
  assumes "\<forall>m \<in> set ms. 0 \<le> m" and "0 \<le> d"
  shows "month_loop (ms @ ms') d k =
    (if d < sum_list ms then month_loop ms d k else month_loop ms' (d - sum_list ms) (k + int (length ms)))"
  using assms
proof (induction ms arbitrary: d k)
  case (Cons m ms)
  have "0 \<le> sum_list ms" using Cons.prems by (intro sum_list_nonneg) simp
  with Cons show ?case by (auto simp: algebra_simps)
qed simp

lemma month_loop_shift: "month_loop ms d (k + j) = (let (day, mon) = month_loop ms d j in (day, k + mon))"
  by (induction ms arbitrary: d j) (auto simp: add.assoc)

lemma month_days_sum [simp]: "sum_list (month_days y) = year_days y" "length (month_days y) = 12" "\<forall>m \<in> set (month_days y). 0 \<le> m"
  by (simp_all add: month_days_def year_days_def)

text \<open>The date of day \<open>d\<close> after the start of year \<open>y\<close>, in either calendar.\<close>

definition date :: "int \<Rightarrow> int \<Rightarrow> int \<times> int \<times> int" where
  "date y d = (let (y, d) = year_loop y d; (day, mon) = month_loop (month_days y) d 0 in (y, mon, day))"

definition cycle_date :: "int \<Rightarrow> int list \<Rightarrow> int \<Rightarrow> int \<Rightarrow> int \<times> int \<times> int" where
  "cycle_date y ms d k = (let (day, mon) = month_loop ms d k in (y + mon div 12, mon mod 12, day))"

lemma date_next: "year_days y \<le> d \<Longrightarrow> date y d = date (y + 1) (d - year_days y)"
  by (simp add: date_def year_loop.simps [of y d])

lemma cycle_date_year:
  assumes "0 \<le> d"
  shows "cycle_date y0 (month_days y @ ms) d (12 * (y - y0)) =
    (if d < year_days y then date y d else cycle_date y0 ms (d - year_days y) (12 * (y + 1 - y0)))"
proof (cases "d < year_days y")
  case True
  obtain day mon where ml: "month_loop (month_days y) d 0 = (day, mon)" by fastforce
  have mon: "0 \<le> mon" "mon < 12" using month_loop_spec [OF ml assms] True by auto
  then have k: "(12 * (y - y0) + mon) div 12 = y - y0" "(12 * (y - y0) + mon) mod 12 = mon"
    using div_mult_self2 [of 12 mon "y - y0"] mod_mult_self2 [of mon 12 "y - y0"] by (simp_all only: add.commute) simp_all
  have "month_loop (month_days y @ ms) d (12 * (y - y0)) = (day, 12 * (y - y0) + mon)"
    using True month_loop_shift [of "month_days y" d "12 * (y - y0)" 0] assms by (simp add: month_loop_append ml)
  then show ?thesis using True unfolding cycle_date_def
    by (simp add: k mon date_def year_loop.simps [of y d] ml del: right_diff_distrib_numeral)
next
  case False
  then show ?thesis using assms by (simp add: cycle_date_def month_loop_append algebra_simps)
qed

fun years :: "int \<Rightarrow> nat \<Rightarrow> int list" where
  "years y 0 = []"
| "years y (Suc n) = month_days y @ years (y + 1) n"

lemma date_years:
  "0 \<le> d \<Longrightarrow> if d < sum_list (years y n) then cycle_date y0 (years y n) d (12 * (y - y0)) = date y d
    else date y d = date (y + int n) (d - sum_list (years y n))"
proof (induction n arbitrary: y d)
  case (Suc n)
  have pos: "0 \<le> sum_list (years z k)" for z k
    by (induction k arbitrary: z) (auto simp: year_days_def)
  show ?case
  proof (cases "d < year_days y")
    case True
    then show ?thesis using cycle_date_year [OF Suc.prems, of y0 y] pos [of "y + 1" n] by simp
  next
    case False
    then show ?thesis
      using Suc.IH [of "d - year_days y" "y + 1"] cycle_date_year [OF Suc.prems, of y0 y] date_next [of y d]
      by (auto simp: algebra_simps split: if_splits)
  qed
qed simp

text \<open>The table of the receiver's calendar is four years from a year like 1970 on, up to 2099.\<close>

lemma mday_years:
  assumes "y mod 4 = 2" and "1970 \<le> y" and "y + 3 \<le> 2099"
  shows "mday = years y 4"
proof -
  have "y mod 4 \<noteq> 0" "(y + 1) mod 4 \<noteq> 0" "(y + 2) mod 4 = 0" "(y + 3) mod 4 \<noteq> 0" using assms(1) by presburger+
  then have "\<not> leap_year y" "\<not> leap_year (y + 1)" "leap_year (y + 2)" "\<not> leap_year (y + 3)"
    using assms(2,3) leap_year_iff [of y] leap_year_iff [of "y + 1"] leap_year_iff [of "y + 2"] leap_year_iff [of "y + 3"] by auto
  then show ?thesis by (simp add: month_days_def mday_def numeral_eq_Suc add.commute)
qed

lemma date_cycle:
  assumes "y mod 4 = 2" and "1970 \<le> y" and "y + 3 \<le> 2099" and "0 \<le> d"
  shows "date y d = (if d < 1461 then cycle_date y mday d 0 else date (y + 4) (d - 1461))"
  using date_years [OF assms(4), where y = y and n = 4 and ?y0.0 = y, folded mday_years [OF assms(1-3)]]
  by (simp add: mday_total(1) split: if_splits)

lemma date_cycles:
  "y mod 4 = 2 \<Longrightarrow> 1970 \<le> y \<Longrightarrow> y + 4 * int q + 3 \<le> 2099 \<Longrightarrow> 0 \<le> d \<Longrightarrow> d < 1461 * (int q + 1) \<Longrightarrow>
    date y d = cycle_date (y + d div 1461 * 4) mday (d mod 1461) 0"
proof (induction q arbitrary: y d)
  case 0
  then show ?case using date_cycle [of y d] by simp
next
  case (Suc q)
  show ?case
  proof (cases "d < 1461")
    case True
    then show ?thesis using date_cycle [of y d] Suc.prems by simp
  next
    case False
    have q: "d div 1461 = (d - 1461) div 1461 + 1" "d mod 1461 = (d - 1461) mod 1461"
      using div_pos_geq [of 1461 d] mod_pos_geq [of 1461 d] False by simp_all
    have "date y d = date (y + 4) (d - 1461)" using False date_cycle [of y d] Suc.prems by simp
    also have "\<dots> = cycle_date (y + 4 + (d - 1461) div 1461 * 4) mday ((d - 1461) mod 1461) 0"
      by (rule Suc.IH) (use Suc.prems False in simp_all)
    also have "y + 4 + (d - 1461) div 1461 * 4 = y + d div 1461 * 4" unfolding q(1) by (simp only: distrib_right)
    finally show ?thesis unfolding q(2) .
  qed
qed

lemma date_agree: "0 \<le> d \<Longrightarrow> d \<le> 24855 \<Longrightarrow> date 1970 d = cycle_date (1970 + d div 1461 * 4) mday (d mod 1461) 0"
  using date_cycles [of 1970 17 d] by simp

text \<open>Up to the end of the 32-bit time, \<open>gmtime_r\<close> gives the fields of the receiver's \<open>time2epoch\<close>.\<close>

lemma gmtime_time2epoch:
  assumes "0 \<le> t" and "t < 2 ^ 31"
  defines "u \<equiv> gmtime_r t"
  shows "time2epoch (gtime t 0) = map d_of_int [tm_year u, tm_mon u + 1, tm_mday u, tm_hour u, tm_min u, tm_sec u]"
    and "1970 \<le> tm_year u" "tm_year u \<le> 2099" "0 \<le> tm_mon u" "tm_mon u < 12" "0 < tm_mday u" "tm_mday u \<le> 31"
    and "0 \<le> tm_hour u" "tm_hour u < 24" "0 \<le> tm_min u" "tm_min u < 60" "0 \<le> tm_sec u" "tm_sec u < 60"
proof -
  let ?d = "t div 86400"
  have d: "0 \<le> ?d" "?d \<le> 24855" using assms(1,2) by simp_all
  obtain day mon where ml: "month_loop mday (?d mod 1461) 0 = (day, mon)" by fastforce
  note md = month_loop_date [OF d ml]
  have "date 1970 ?d = (1970 + ?d div 1461 * 4 + mon div 12, mon mod 12, day)"
    using date_agree [OF d] by (simp add: cycle_date_def ml)
  then have u: "tm_year u = 1970 + ?d div 1461 * 4 + mon div 12" "tm_mon u = mon mod 12" "tm_mday u = day + 1"
    "tm_hour u = t mod 86400 div 3600" "tm_min u = t mod 86400 mod 3600 div 60" "tm_sec u = t mod 86400 mod 60"
    by (simp_all add: u_def gmtime_r_def date_def Let_def split: prod.splits)
  show "time2epoch (gtime t 0) = map d_of_int [tm_year u, tm_mon u + 1, tm_mday u, tm_hour u, tm_min u, tm_sec u]"
    unfolding u by (rule time2epoch_int [OF assms(1,2) ml])
  have "0 \<le> ?d div 1461" "?d div 1461 \<le> 17" "0 \<le> mon div 12" "mon div 12 \<le> 3" using d md by linarith+
  then show "1970 \<le> tm_year u" "tm_year u \<le> 2099" by (simp_all add: u)
  show "0 \<le> tm_mon u" "tm_mon u < 12" "0 < tm_mday u" "tm_mday u \<le> 31" "0 \<le> tm_sec u" "tm_sec u < 60"
    using md by (simp_all add: u)
  have "0 \<le> t mod 86400" "t mod 86400 < 86400" "0 \<le> t mod 86400 mod 3600" "t mod 86400 mod 3600 < 3600" by simp_all
  then show "0 \<le> tm_hour u" "tm_hour u < 24" "0 \<le> tm_min u" "tm_min u < 60" unfolding u by linarith+
qed

section \<open>The time text\<close>

text \<open>The text of a time as \<open>time_str\<close> of the receiver makes it, with dashes in the date.\<close>

definition dashed :: "string \<Rightarrow> string" where
  "dashed = map (\<lambda>c. if c = CHR ''/'' then CHR ''-'' else c)"

lemma dashed_show_nat [simp]: "dashed (show_nat n) = show_nat n"
  using show_nat_digits [of n] unfolding dashed_def
  by (intro map_idI) (auto simp: isdigit_def less_eq_char_def dest!: bspec)

lemma dashed_simps [simp]: "dashed [] = []" "dashed (c # s) = (if c = CHR ''/'' then CHR ''-'' else c) # dashed s"
  "dashed (s @ t) = dashed s @ dashed t"
  by (simp_all add: dashed_def)

lemma two_digits_fmt:
  assumes "0 \<le> i" and "i < 100"
  shows "two_digits i = fmt_zero 2 0 (d_of_int i)" and "dashed (two_digits i) = two_digits i" and "length (two_digits i) = 2"
proof -
  have f: "fmt_fixed 0 (d_of_int i) = show_nat (nat i)" using assms by (intro fmt_fixed_of_int) simp_all
  note no = show_nat_no_sign [of "nat i"]
  show "two_digits i = fmt_zero 2 0 (d_of_int i)"
    using assms no by (simp add: two_digits_def fmt_zero_def f Let_def show_int_def)
  show "dashed (two_digits i) = two_digits i"
    using assms by (simp add: two_digits_def Let_def show_int_def) (simp add: dashed_def)
  show "length (two_digits i) = 2"
    using assms show_nat_length [of "nat i" 2] by (simp add: two_digits_def Let_def show_int_def)
qed

lemma year_fmt:
  assumes "1970 \<le> y" and "y \<le> 2099"
  shows "show_int y = fmt_zero 4 0 (d_of_int y)" and "dashed (show_int y) = show_int y" and "length (show_int y) = 4"
proof -
  have f: "fmt_fixed 0 (d_of_int y) = show_nat (nat y)" using assms by (intro fmt_fixed_of_int) simp_all
  have len: "length (show_nat (nat y)) = 4"
  proof -
    have "(10 :: nat) ^ 3 \<le> nat y" "nat y < 10 ^ 4" using assms by simp_all
    then show ?thesis using show_nat_long [of 3 "nat y"] show_nat_length [of "nat y" 4] by linarith
  qed
  have no: "take 1 (show_nat (nat y)) \<noteq> ''-''" by (rule show_nat_no_sign)
  show "show_int y = fmt_zero 4 0 (d_of_int y)" using assms no by (simp add: fmt_zero_def f Let_def show_int_def len)
  show "dashed (show_int y) = show_int y" "length (show_int y) = 4" using assms by (simp_all add: show_int_def len)
qed

lemma nul_free_two_digits [simp]: "nul_free (two_digits i)"
  using show_nat_nul_free by (auto simp: two_digits_def Let_def show_int_def nul_free_def)

text \<open>With no places, \<open>time2str\<close> rounds a fraction up from one half on; a whole second has none.\<close>

lemma half_bits: "d_round False 1 2 = 0x3FE0000000000000"
  by (simp add: d_round_def round_mag_def ulp_exp_def div_rne_def dfmt_def Let_def bitlen_pos)

lemma one_bits: "d_of_int 1 = 0x3FF0000000000000"
  by (simp add: d_of_int_def d_round_def round_mag_def ulp_exp_def div_rne_def dfmt_def Let_def bitlen_pos)

lemma whole_second: "\<not> d_lt (d_sub (d_of_int 1) 0) (d_div 0x3FE0000000000000 (d_of_int 1))"
proof -
  have "d_div 0x3FE0000000000000 (d_of_int 1) = d_round False (1 * 2 ^ 52) (2 * 2 ^ 52)"
    unfolding one_bits by (simp add: d_div_def d_val_def dfmt_def mag_val_def Let_def scale_n_def scale_d_def)
  also have "\<dots> = 0x3FE0000000000000" using round_mag_cancel [of 2 dfmt 1 52] half_bits by (simp add: d_round_def)
  finally have "d_div 0x3FE0000000000000 (d_of_int 1) = 0x3FE0000000000000" .
  moreover have "d_sub (d_of_int 1) 0 = 0x3FF0000000000000" using d_sub_of_int [of 1 0] by (simp add: zero_double one_bits [symmetric])
  ultimately show ?thesis
    by (simp only:) (simp add: d_lt_def d_val_def dfmt_def mag_val_def Let_def fp_cmp_def signed_int_def)
qed

lemma strftime_time_str:
  assumes "0 \<le> t" and "t < 2 ^ 31"
  shows "\<exists>s. time_str (gtime t 0) 0 = Some s \<and> strftime_FT (gmtime_r t) = dashed s"
    and "length (strftime_FT (gmtime_r t)) = 19" and "nul_free (strftime_FT (gmtime_r t))"
proof -
  let ?u = "gmtime_r t"
  note g = gmtime_time2epoch [OF assms]
  have two: "two_digits i = fmt_zero 2 0 (d_of_int i)" "dashed (two_digits i) = two_digits i" "length (two_digits i) = 2"
    if "i \<in> {tm_mon ?u + 1, tm_mday ?u, tm_hour ?u, tm_min ?u, tm_sec ?u}" for i
  proof -
    have "0 \<le> i" "i < 100" using that g(4-13) by auto
    then show "two_digits i = fmt_zero 2 0 (d_of_int i)" "dashed (two_digits i) = two_digits i" "length (two_digits i) = 2"
      using two_digits_fmt [of i] by simp_all
  qed
  note year = year_fmt [OF g(2,3)]
  show len: "length (strftime_FT ?u) = 19" using two(3) year(3) by (simp add: strftime_FT_def)
  show "nul_free (strftime_FT ?u)" using show_nat_nul_free nul_free_two_digits
    by (auto simp: strftime_FT_def show_int_def nul_free_def)
  let ?s = "show_int (tm_year ?u) @ ''/'' @ two_digits (tm_mon ?u + 1) @ ''/'' @ two_digits (tm_mday ?u) @ '' ''
    @ two_digits (tm_hour ?u) @ '':'' @ two_digits (tm_min ?u) @ '':'' @ two_digits (tm_sec ?u)"
  have half: "\<not> d_lt (d_sub (d_of_int 1) 0) (d_div 0x3FE0000000000000 (d_of_int (10 ^ nat 0)))"
    using whole_second by (simp only: nat_zero_as_int [symmetric] power_0) simp
  have ep: "time2epoch \<lparr>gt_time = t, gt_sec = 0\<rparr> = map d_of_int [tm_year ?u, tm_mon ?u + 1, tm_mday ?u, tm_hour ?u, tm_min ?u, tm_sec ?u]"
    using g(1) by (simp add: gtime_def)
  have "time2str (gtime t 0) 0 = Some ?s"
    using half two(1) year(1) by (simp add: time2str_def gtime_def ep)
  moreover have "length ?s < 64" using two(3) year(3) by simp
  moreover have "dashed ?s = strftime_FT ?u" using two(2) year(2) by (simp add: strftime_FT_def)
  ultimately show "\<exists>s. time_str (gtime t 0) 0 = Some s \<and> strftime_FT ?u = dashed s"
    by (intro exI [of _ ?s]) (simp add: time_str_def)
qed

section \<open>Lines\<close>

text \<open>The time in a line, by the receiver's own calendar; before the first one it is empty.\<close>

definition stamp :: "int \<Rightarrow> string" where
  "stamp t = (if t = 0 then '''' else dashed (the (time_str (gtime t 0) 0)))"

definition logger_ok :: "logger \<Rightarrow> bool" where
  "logger_ok lg \<longleftrightarrow> \<not> s_mutex lg \<and> 0 \<le> time_last lg \<and> time_last lg < 2 ^ 31
     \<and> cstr_at (time_str_buf lg) 0 = Some (stamp (time_last lg))"

definition log_tag :: "int \<Rightarrow> string option" where
  "log_tag = map_of [(LOG_LEVEL_DEBUG, ''[ DEBUG ] ''), (LOG_LEVEL_INFO, ''[ INFO  ] ''), (LOG_LEVEL_WARN, ''[ WARN  ] ''),
     (LOG_LEVEL_ERROR, ''[ ERROR ] '')]"

lemma logger_zero_ok: "logger_ok (logger_zero files)"
  by (simp add: logger_ok_def logger_zero_def cstr_at_def stamp_def)

lemma logger_init_ok: "logger_ok lg \<Longrightarrow> logger_ok (fst (logger_init can path lg))"
  by (simp add: logger_ok_def logger_init_def Let_def)

lemma stamp_time_spec:
  assumes "logger_ok lg" and "now < 2 ^ 31"
  shows "\<exists>b. stamp_time now (lg\<lparr>s_mutex := m\<rparr>) = Some (lg\<lparr>s_mutex := m, time_last := max (time_last lg) now, time_str_buf := b\<rparr>)
    \<and> cstr_at b 0 = Some (stamp (max (time_last lg) now))"
proof (cases "time_last lg < now")
  case True
  let ?s = "strftime_FT (gmtime_r now)"
  have now: "0 \<le> now" "now \<noteq> 0" using assms(1) True by (auto simp: logger_ok_def)
  note s = strftime_time_str [OF now(1) assms(2)]
  have "replicate (64 - length ?s) NUL = NUL # replicate 44 NUL" using s(2) by (simp flip: replicate_Suc)
  then have "cstr_at (?s @ replicate (64 - length ?s) NUL) 0 = Some ?s"
    using cstr_at_append [OF s(3), of "[]" "replicate 44 NUL"] by simp
  moreover have "?s = stamp now" using s(1) now(2) by (auto simp: stamp_def)
  ultimately show ?thesis using True s(2) by (auto simp: stamp_time_def max_def)
next
  case False
  then show ?thesis using assms(1)
    by (intro exI [of _ "time_str_buf lg"]) (auto simp: stamp_time_def logger_ok_def max_def)
qed

lemma debug_spec:
  assumes "logger_ok lg" and "now < 2 ^ 31"
  shows "case (s_logger_fp lg, log_tag level) of
      (Some p, Some tag) \<Rightarrow> \<exists>lg'. debug now level txt lg = Some lg' \<and> logger_ok lg' \<and> s_logger_fp lg' = Some p
        \<and> time_last lg' = max (time_last lg) now
        \<and> lg_text lg' = (lg_text lg)(p := lg_text lg p @ tag @ stamp (max (time_last lg) now) @ '' '' @ txt)
    | _ \<Rightarrow> debug now level txt lg = None"
proof -
  obtain b where b: "stamp_time now (lg\<lparr>s_mutex := True\<rparr>) =
      Some (lg\<lparr>s_mutex := True, time_last := max (time_last lg) now, time_str_buf := b\<rparr>)"
    "cstr_at b 0 = Some (stamp (max (time_last lg) now))" using stamp_time_spec [OF assms] by blast
  have free: "\<not> s_mutex lg" and last: "0 \<le> time_last lg" "time_last lg < 2 ^ 31" using assms(1) by (simp_all add: logger_ok_def)
  show ?thesis
    using assms(2) last
    by (auto simp: debug_def pthread_mutex_lock_def pthread_mutex_unlock_def free b log_prefix_def log_put_def log_tag_def
        LOG_LEVEL_DEBUG_def LOG_LEVEL_INFO_def LOG_LEVEL_WARN_def LOG_LEVEL_ERROR_def logger_ok_def max_def split: option.splits)
qed

lemma myerror_put_spec:
  "logger_ok lg \<Longrightarrow> s_logger_fp lg = Some p \<Longrightarrow>
    \<exists>lg'. myerror_put s lg = Some lg' \<and> logger_ok lg' \<and> s_logger_fp lg' = Some p \<and> time_last lg' = time_last lg
      \<and> lg_text lg' = (lg_text lg)(p := lg_text lg p @ s)"
  by (auto simp: myerror_put_def log_put_def logger_ok_def)

section \<open>Sequences of calls\<close>

datatype log_call = Debug int int string | Myerror string

fun do_call :: "log_call \<Rightarrow> logger \<Rightarrow> logger option" where
  "do_call (Debug now level txt) lg = debug now level txt lg"
| "do_call (Myerror s) lg = myerror_put s lg"

fun log_calls :: "log_call list \<Rightarrow> logger \<Rightarrow> logger option" where
  "log_calls [] lg = Some lg"
| "log_calls (c # cs) lg = do { lg \<leftarrow> do_call c lg; log_calls cs lg }"

fun known_level :: "log_call \<Rightarrow> bool" where
  "known_level (Debug now level txt) \<longleftrightarrow> level \<in> {4..7}"
| "known_level (Myerror s) \<longleftrightarrow> True"

fun clock_ok :: "log_call \<Rightarrow> bool" where
  "clock_ok (Debug now level txt) \<longleftrightarrow> now < 2 ^ 31"
| "clock_ok (Myerror s) \<longleftrightarrow> True"

text \<open>What the calls write, when the last time was \<open>t\<close>.\<close>

fun log_lines :: "int \<Rightarrow> log_call list \<Rightarrow> string" where
  "log_lines t [] = ''''"
| "log_lines t (Debug now level txt # cs) = the (log_tag level) @ stamp (max t now) @ '' '' @ txt @ log_lines (max t now) cs"
| "log_lines t (Myerror s # cs) = s @ log_lines t cs"

lemma known_level_tag: "log_tag level \<noteq> None \<longleftrightarrow> level \<in> {4..7}"
  by (auto simp: log_tag_def LOG_LEVEL_DEBUG_def LOG_LEVEL_INFO_def LOG_LEVEL_WARN_def LOG_LEVEL_ERROR_def)

lemma log_calls_closed: "s_logger_fp lg = None \<Longrightarrow> logger_ok lg \<Longrightarrow> list_all clock_ok cs \<Longrightarrow> cs \<noteq> [] \<Longrightarrow> log_calls cs lg = None"
proof (cases cs)
  case (Cons c cs')
  assume "s_logger_fp lg = None" "logger_ok lg" "list_all clock_ok cs"
  then show ?thesis using debug_spec [of lg] by (cases c) (auto simp: Cons myerror_put_def log_put_def)
qed simp

lemma log_calls_spec:
  assumes "logger_ok lg" and "s_logger_fp lg = Some p" and "list_all clock_ok cs"
  shows "case log_calls cs lg of
      None \<Rightarrow> \<not> list_all known_level cs
    | Some lg' \<Rightarrow> list_all known_level cs \<and> logger_ok lg'
        \<and> lg_text lg' = (lg_text lg)(p := lg_text lg p @ log_lines (time_last lg) cs)"
  using assms
proof (induction cs arbitrary: lg)
  case (Cons c cs)
  show ?case
  proof (cases "known_level c")
    case True
    then obtain lg1 t out where one: "do_call c lg = Some lg1" "logger_ok lg1" "s_logger_fp lg1 = Some p" "time_last lg1 = t"
      "lg_text lg1 = (lg_text lg)(p := lg_text lg p @ out)" "log_lines (time_last lg) (c # cs) = out @ log_lines t cs"
    proof (cases c)
      case (Debug now level msg)
      then obtain tag where tag: "log_tag level = Some tag" using True known_level_tag [of level] by auto
      from debug_spec [OF Cons.prems(1), of now level msg] Cons.prems(2,3) show ?thesis
        by (auto simp: Debug tag intro: that)
    next
      case (Myerror s)
      from myerror_put_spec [OF Cons.prems(1,2), of s] show ?thesis by (auto simp: Myerror intro: that)
    qed
    then show ?thesis using Cons.IH [of lg1] Cons.prems(3) True by (simp add: fun_upd_def cong: if_cong split: option.splits)
  next
    case False
    then obtain now level msg where c: "c = Debug now level msg" "log_tag level = None"
      using known_level_tag by (cases c) auto
    then have "debug now level msg lg = None"
      using debug_spec [OF Cons.prems(1), of now level msg] Cons.prems(2,3) by simp
    then show ?thesis using False by (auto simp: c(1))
  qed
qed simp

section \<open>Properties\<close>

text \<open>C13. The log file: after \<open>logger_init\<close>, when the file could be opened and every level is one of the four, any
  sequence of log calls leaves the mutex free and appends exactly its lines to that file, each with the time of the
  receiver's own calendar and no time going back; with a closed file no call is defined, and with another level the
  second unlock is not.\<close>

theorem log_file:
  assumes "list_all clock_ok cs"
  shows "case log_calls cs (fst (logger_init can path (logger_zero files))) of
      None \<Rightarrow> \<not> (can (case path of None \<Rightarrow> DEFAUT_LOG_FILE_PATH | Some p \<Rightarrow> p) \<and> list_all known_level cs)
    | Some lg \<Rightarrow> cs = [] \<or> \<not> s_mutex lg \<and> list_all known_level cs \<and>
        (\<exists>p. can p \<and> p = (case path of None \<Rightarrow> DEFAUT_LOG_FILE_PATH | Some p \<Rightarrow> p)
          \<and> lg_text lg = files(p := files p @ log_lines 0 cs))"
proof -
  let ?lg = "fst (logger_init can path (logger_zero files))"
  have ok: "logger_ok ?lg" by (rule logger_init_ok [OF logger_zero_ok])
  have init: "time_last ?lg = 0" "lg_text ?lg = files" by (simp_all add: logger_init_def logger_zero_def Let_def)
  show ?thesis
  proof (cases "s_logger_fp ?lg")
    case None
    then have "\<not> can (case path of None \<Rightarrow> DEFAUT_LOG_FILE_PATH | Some p \<Rightarrow> p)"
      by (auto simp: logger_init_def Let_def split: if_splits)
    then show ?thesis using log_calls_closed [OF None ok assms] by (cases "cs = []") auto
  next
    case (Some p)
    then have "can p" "p = (case path of None \<Rightarrow> DEFAUT_LOG_FILE_PATH | Some p \<Rightarrow> p)"
      by (auto simp: logger_init_def logger_zero_def Let_def split: if_splits)
    then show ?thesis using log_calls_spec [OF ok Some assms] init by (auto simp: logger_ok_def split: option.splits)
  qed
qed

theorem log_file_witness:
  "case log_calls [Debug 1456704000 7 ''late'', Myerror ''x''] (fst (logger_init (\<lambda>p. True) None (logger_zero (\<lambda>p. '''')))) of
     None \<Rightarrow> False | Some lg \<Rightarrow> lg_text lg ''./cm.log'' = ''[ ERROR ] 2016-02-29 00:00:00 latex''"
proof -
  have "strftime_FT (gmtime_r 1456704000) = ''2016-02-29 00:00:00''"
    by code_simp
  then have "stamp 1456704000 = ''2016-02-29 00:00:00''"
    using strftime_time_str(1) [of 1456704000] by (auto simp: stamp_def)
  then show ?thesis
    using log_file [of "[Debug 1456704000 7 ''late'', Myerror ''x'']" "\<lambda>p. True" None "\<lambda>p. ''''"]
    by (auto simp: DEFAUT_LOG_FILE_PATH_def log_tag_def LOG_LEVEL_DEBUG_def LOG_LEVEL_INFO_def LOG_LEVEL_WARN_def
        LOG_LEVEL_ERROR_def split: option.splits)
qed

end
