(* ===== verification/Mycgi.thy ===== *)
theory Mycgi
  imports Web_Pages Event_System Logger
begin

text \<open>
  The program itself, \<^verbatim>\<open>src/mycgi.c\<close>: what \<open>main\<close> sets up, and the event loop. The loop of
  libevent is a step relation: the two handlers \<open>main\<close> registers run one at a time, when the pipe of the
  receiver has something to read and when a request arrives; in between the receiver may write.
\<close>

section \<open>Start\<close>

definition DEFD :: string where "DEFD = ''/tmp/fifo_web_decode''"
definition CGI_LOG :: string where "CGI_LOG = ''./cgi.log''"
definition PROFD :: string where "PROFD = ''/tmp/fifo_web_decode_protocol''"

text \<open>The answers of the system to the calls of the start: \<open>calloc\<close>, \<open>fopen\<close>, \<open>mkfifo\<close> and \<open>open\<close> by path;
  \<open>access\<close> answers by the paths that exist. \<open>loge\<close> is empty: the build does not define \<open>LOGFLAG\<close>.\<close>

record env =
  e_calloc :: bool
  e_fopen :: "string \<Rightarrow> bool"
  e_mkfifo :: "string \<Rightarrow> bool"
  e_open :: "string \<Rightarrow> bool"

record start =
  su_world :: world
  su_logger :: logger
  su_paths :: "string list"    \<comment> \<open>the paths that exist\<close>
  su_fds :: "string list"      \<comment> \<open>what \<open>fd[0]\<close>, \<open>fd[1]\<close> are open on\<close>
  su_events :: "string list"   \<comment> \<open>the handlers registered\<close>

text \<open>Initialising the request library and registering \<open>web_accept\<close>; it always returns 1.\<close>

definition wconnect :: "start \<Rightarrow> start \<times> bool" where
  "wconnect s = (s\<lparr>su_events := su_events s @ [''web_accept'']\<rparr>, True)"

fun open_loop :: "env \<Rightarrow> string list \<Rightarrow> start \<Rightarrow> start \<times> bool" where
  "open_loop e [] s = (s, True)"
| "open_loop e (p # ps) s =
     (if p \<notin> set (su_paths s) \<and> \<not> e_mkfifo e p then (s, False)
      else let s = (if p \<in> set (su_paths s) then s else s\<lparr>su_paths := p # su_paths s\<rparr>) in
        if \<not> e_open e p then (s, False)
        else open_loop e ps (s\<lparr>su_fds := su_fds s @ [p]\<rparr>))"

fun write_loop :: "string list \<Rightarrow> world \<Rightarrow> world \<times> bool" where
  "write_loop [] w = (w, True)"
| "write_loop (c # cs) w = (let (w, ok) = fd_write c w in if ok then write_loop cs w else (w, False))"

definition start_cmds :: "string list" where
  "start_cmds = map (\<lambda>s. CRLF @ s @ CRLF)
     [''log oemstatus ontime 1'', ''log satinfo ontime 1'', ''log interfaceinfo ontime 1'', ''log channelinfo ontime 1'']"

definition deconnect :: "env \<Rightarrow> start \<Rightarrow> start \<times> bool" where
  "deconnect e s =
     (let (s, ok) = open_loop e [DEFD, PROFD] s in
      if \<not> ok then (s, False)
      else let (w, ok) = write_loop start_cmds (su_world s); s = s\<lparr>su_world := w\<rparr> in
        if \<not> ok then (s, False) else (s\<lparr>su_events := su_events s @ [''deal_pro'']\<rparr>, True))"

text \<open>\<open>main\<close> up to the event loop: it returns, or goes on to dispatch events.\<close>

datatype outcome = Exited start | Dispatching start

definition main :: "env \<Rightarrow> start \<Rightarrow> outcome" where
  "main e s =
     (if \<not> e_calloc e then Exited s
      else let s = s\<lparr>su_world := (su_world s)\<lparr>w_guide := guide_zero\<rparr>,
          su_logger := fst (logger_init (e_fopen e) (Some CGI_LOG) (su_logger s))\<rparr>; (s, ok) = wconnect s in
        if \<not> ok then Exited s
        else let (s, ok) = deconnect e s in if ok then Dispatching s else Exited s)"

section \<open>The event loop\<close>

text \<open>\<open>FCGX_Accept_r\<close> gives a request or fails; the response starts empty.\<close>

definition web_accept :: "request option \<Rightarrow> world \<Rightarrow> world option" where
  "web_accept r w = (case r of None \<Rightarrow> Some w | Some req \<Rightarrow> web_pro req (w\<lparr>w_out := []\<rparr>))"

record machine =
  m_world :: world
  m_fifo :: fifo

datatype event =
    Arrive "byte list"          \<comment> \<open>the receiver writes to its pipe\<close>
  | Readable "double list"      \<comment> \<open>\<open>deal_pro\<close> runs; the argument is the clock\<close>
  | Accept "request option"     \<comment> \<open>\<open>web_accept\<close> runs\<close>

definition logged :: "message list \<Rightarrow> string list" where
  "logged out = concat (map (\<lambda>x. case x of Logged s \<Rightarrow> [s] | Printed s \<Rightarrow> []) out)"

inductive step :: "libm \<Rightarrow> machine \<Rightarrow> event \<Rightarrow> machine \<Rightarrow> bool" for m where
  arrive: "step m s (Arrive bs) (s\<lparr>m_fifo := m_fifo s @ [bs]\<rparr>)"
| readable: "m_fifo s \<noteq> [] \<Longrightarrow> deal_pro m now (w_guide (m_world s)) (m_fifo s) = Some (g, out, fd) \<Longrightarrow>
    step m s (Readable now)
      (s\<lparr>m_world := (m_world s)\<lparr>w_guide := g, w_log := w_log (m_world s) @ logged out\<rparr>, m_fifo := fd\<rparr>)"
| accept: "web_accept r (m_world s) = Some w \<Longrightarrow> step m s (Accept r) (s\<lparr>m_world := w\<rparr>)"

inductive_cases stepE: "step m s e s'"
inductive_cases readableE: "step m s (Readable now) s'"

text \<open>What the loop starts with. When the log file cannot be opened, \<open>main\<close> goes on all the same, and the first
  call of \<open>myerror\<close> is undefined (\<open>log_calls_closed\<close>); the loop is modelled with an open log, to which
  \<open>world_log\<close> relates the list \<open>w_log\<close>.\<close>

definition started :: "env \<Rightarrow> world \<Rightarrow> string list \<Rightarrow> machine \<Rightarrow> bool" where
  "started e w paths s \<longleftrightarrow>
     (\<exists>su files. main e \<lparr>su_world = w, su_logger = logger_zero files, su_paths = paths, su_fds = [], su_events = []\<rparr> =
          Dispatching su \<and>
        s_logger_fp (su_logger su) = Some CGI_LOG \<and> s = \<lparr>m_world = su_world su, m_fifo = []\<rparr>)"

lemma world_log:
  assumes "logger_ok lg" and "s_logger_fp lg = Some p"
  shows "\<exists>lg'. log_calls (map Myerror ss) lg = Some lg' \<and> lg_text lg' = (lg_text lg)(p := lg_text lg p @ concat ss)"
proof -
  have "list_all clock_ok (map Myerror ss)" "list_all known_level (map Myerror ss)"
    "log_lines t (map Myerror ss) = concat ss" for t
    by (induction ss) simp_all
  then show ?thesis using log_calls_spec [OF assms, of "map Myerror ss"] by (auto split: option.splits)
qed

section \<open>The start, branch by branch\<close>

lemma write_loop_keeps: "write_loop cs w = (w', ok) \<Longrightarrow> w_guide w' = w_guide w \<and> w_files w' = w_files w \<and> w_out w' = w_out w"
  by (induction cs arbitrary: w)
    (auto simp: fd_write_def Let_def split: if_splits list.splits bool.splits prod.splits)

lemma write_loop_ok: "snd (write_loop cs w) \<longleftrightarrow> True \<notin> set (take (length cs) (w_faults w))"
  by (induction cs arbitrary: w) (auto simp: fd_write_def Let_def split: list.splits bool.splits)

lemma write_loop_cmds: "write_loop cs w = (w', True) \<Longrightarrow> w_cmds w' = w_cmds w @ cs"
  by (induction cs arbitrary: w)
    (auto simp: fd_write_def Let_def split: if_splits list.splits bool.splits prod.splits)

lemma open_loop_spec:
  "open_loop e ps s = (s', ok) \<Longrightarrow> distinct ps \<Longrightarrow>
    su_world s' = su_world s \<and> su_logger s' = su_logger s \<and> su_events s' = su_events s \<and>
    (ok \<longleftrightarrow> (\<forall>p \<in> set ps. (p \<in> set (su_paths s) \<or> e_mkfifo e p) \<and> e_open e p)) \<and>
    (ok \<longrightarrow> su_fds s' = su_fds s @ ps \<and> set (su_paths s') = set (su_paths s) \<union> set ps)"
proof (induction ps arbitrary: s)
  case (Cons p ps)
  let ?s = "if p \<in> set (su_paths s) then s else s\<lparr>su_paths := p # su_paths s\<rparr>"
  show ?case
  proof (cases "(p \<in> set (su_paths s) \<or> e_mkfifo e p) \<and> e_open e p")
    case True
    then have "open_loop e ps (?s\<lparr>su_fds := su_fds s @ [p]\<rparr>) = (s', ok)"
      using Cons.prems(1) by (auto simp: Let_def split: if_splits)
    from Cons.IH [OF this] Cons.prems(2) True show ?thesis by auto
  next
    case False
    then show ?thesis using Cons.prems(1) by (auto simp: Let_def split: if_splits)
  qed
qed simp


text \<open>\<open>main\<close> reaches the event loop exactly when all its calls succeed, and then has written the
  four first commands and registered both handlers.\<close>

lemma main_dispatches:
  assumes "main e s = Dispatching s'"
  shows "e_calloc e \<and> (\<forall>p \<in> {DEFD, PROFD}. (p \<in> set (su_paths s) \<or> e_mkfifo e p) \<and> e_open e p)
    \<and> True \<notin> set (take 4 (w_faults (su_world s)))
    \<and> w_guide (su_world s') = guide_zero \<and> w_cmds (su_world s') = w_cmds (su_world s) @ start_cmds
    \<and> w_out (su_world s') = w_out (su_world s)
    \<and> s_logger_fp (su_logger s') = (if e_fopen e CGI_LOG then Some CGI_LOG else None)
    \<and> su_fds s' = su_fds s @ [DEFD, PROFD] \<and> su_events s' = su_events s @ [''web_accept'', ''deal_pro'']"
proof -
  let ?s = "s\<lparr>su_world := (su_world s)\<lparr>w_guide := guide_zero\<rparr>,
    su_logger := fst (logger_init (e_fopen e) (Some CGI_LOG) (su_logger s)), su_events := su_events s @ [''web_accept'']\<rparr>"
  obtain s1 ok where o: "open_loop e [DEFD, PROFD] ?s = (s1, ok)" by fastforce
  obtain w1 ok' where w: "write_loop start_cmds (su_world s1) = (w1, ok')" by fastforce
  have d: "distinct [DEFD, PROFD]" by (simp add: DEFD_def PROFD_def)
  note spec = open_loop_spec [OF o d]
  have ok: "e_calloc e" "ok" "ok'" "s' = s1\<lparr>su_world := w1, su_events := su_events s1 @ [''deal_pro'']\<rparr>"
    using assms w by (auto simp: main_def wconnect_def deconnect_def Let_def o simp del: open_loop.simps split: if_splits prod.splits)
  have "length start_cmds = 4" by (simp add: start_cmds_def)
  with write_loop_ok [of start_cmds "su_world s1"] w ok(3) spec have "True \<notin> set (take 4 (w_faults (su_world s)))" by simp
  moreover have "s_logger_fp (su_logger s') = (if e_fopen e CGI_LOG then Some CGI_LOG else None)"
    using spec ok(4) by (simp add: logger_init_def)
  ultimately show ?thesis using spec ok write_loop_keeps [OF w] write_loop_cmds [of start_cmds "su_world s1" w1] w by simp
qed

lemma main_completes:
  assumes "e_calloc e" and "\<forall>p \<in> {DEFD, PROFD}. (p \<in> set (su_paths s) \<or> e_mkfifo e p) \<and> e_open e p"
    and "True \<notin> set (take 4 (w_faults (su_world s)))"
  shows "\<exists>s'. main e s = Dispatching s'"
proof -
  let ?s = "s\<lparr>su_world := (su_world s)\<lparr>w_guide := guide_zero\<rparr>,
    su_logger := fst (logger_init (e_fopen e) (Some CGI_LOG) (su_logger s)), su_events := su_events s @ [''web_accept'']\<rparr>"
  obtain s1 ok where o: "open_loop e [DEFD, PROFD] ?s = (s1, ok)" by fastforce
  obtain w1 ok' where w: "write_loop start_cmds (su_world s1) = (w1, ok')" by fastforce
  have d: "distinct [DEFD, PROFD]" by (simp add: DEFD_def PROFD_def)
  have "ok" using open_loop_spec [OF o d] assms(2) by simp
  moreover have "ok'"
  proof -
    have "length start_cmds = 4" by (simp add: start_cmds_def)
    then show ?thesis using write_loop_ok [of start_cmds "su_world s1"] w open_loop_spec [OF o d] assms(3) by simp
  qed
  ultimately show ?thesis using assms(1) o w by (simp add: main_def wconnect_def deconnect_def Let_def del: open_loop.simps)
qed

section \<open>Invariants of the loop\<close>

text \<open>What holds between two events: the shape of the shared state, what was sent to the receiver,
  and the form of the last response.\<close>

definition sent_ok :: "string list \<Rightarrow> bool" where
  "sent_ok cmds \<longleftrightarrow> take 4 cmds = start_cmds \<and> (\<forall>c \<in> set cmds. length c < 100)"

definition response_ok :: "string \<Rightarrow> bool" where
  "response_ok r \<longleftrightarrow> r = '''' \<or> (\<exists>s. r = HTTP_CONENT_HEAD @ s)"

definition machine_ok :: "machine \<Rightarrow> bool" where
  "machine_ok s \<longleftrightarrow> guide_ok (w_guide (m_world s)) \<and> sent_ok (w_cmds (m_world s)) \<and> response_ok (w_out (m_world s))"

lemma sent_ok_append: "sent_ok cmds \<Longrightarrow> \<forall>c \<in> set cs. length c < 100 \<Longrightarrow> sent_ok (cmds @ cs)"
proof -
  assume s: "sent_ok cmds" and c: "\<forall>c \<in> set cs. length c < 100"
  have "length (take 4 cmds) = 4" using s by (simp only: sent_ok_def) (simp add: start_cmds_def)
  then have "4 \<le> length cmds" by simp
  with s c show ?thesis by (auto simp: sent_ok_def)
qed

lemma log_cmds_short: "c \<in> set log_cmds \<Longrightarrow> length c < 100"
  by (auto simp: log_cmds_def CRLF_def)

lemma web_pro_keeps:
  assumes "guide_ok (w_guide w)" and "sent_ok (w_cmds w)" and "w_out w = []"
  shows "wlp (web_pro req w) (\<lambda>w'. guide_ok (w_guide w') \<and> sent_ok (w_cmds w') \<and> response_ok (w_out w'))"
proof -
  have guide: "wlp (pro_guide req w) (\<lambda>w'. guide_ok (w_guide w') \<and> sent_ok (w_cmds w') \<and> response_ok (w_out w'))"
  proof (rule wlpI)
    fix w' assume "pro_guide req w = Some w'"
    from wlpD [OF pro_guide_answers this] obtain w1 where w1: "displays w w1"
      "w' = w1 \<or> (\<exists>s. w' = w1\<lparr>w_out := w_out w1 @ HTTP_CONENT_HEAD @ s\<rparr>)" by (auto simp: answers_def)
    then have "guide_ok (w_guide w1)" using assms(1) by (auto simp: displays_def guide_ok_def net_ok_def)
    moreover have "sent_ok (w_cmds w1)"
      using w1(1) assms(2) by (auto simp: displays_def intro!: sent_ok_append log_cmds_short)
    ultimately show "guide_ok (w_guide w') \<and> sent_ok (w_cmds w') \<and> response_ok (w_out w')"
      using w1 assms(3) by (auto simp: displays_def response_ok_def)
  qed
  have config: "wlp (pro_config req w) (\<lambda>w'. guide_ok (w_guide w') \<and> sent_ok (w_cmds w') \<and> response_ok (w_out w'))"
    using wlpD [OF pro_config_sends [of req w]] assms
    by (intro wlpI) (auto simp: sends_def CMDLEN_def response_ok_def intro!: sent_ok_append)
  show ?thesis
    using guide config assms
    by (auto simp: web_pro_def wlp_Some myerror_def response_ok_def split: option.split)
qed

lemma step_machine_ok: "step m s e s' \<Longrightarrow> machine_ok s \<Longrightarrow> machine_ok s'"
proof (induction rule: step.induct)
  case (arrive s bs)
  then show ?case by (simp add: machine_ok_def)
next
  case (readable s now g out fd)
  then show ?case using deal_pro_ok [of "w_guide (m_world s)" m now "m_fifo s" g out fd] by (simp add: machine_ok_def)
next
  case (accept r s w)
  then show ?case
    using web_pro_keeps [of "(m_world s)\<lparr>w_out := []\<rparr>"]
    by (auto simp: machine_ok_def web_accept_def split: option.splits dest: wlpD)
qed

interpretation cgi: event_system "step m" machine_ok for m
  by unfold_locales (rule step_machine_ok)

section \<open>The pipe drains\<close>

text \<open>Bytes and chunks that are left in the pipe. Every call of \<open>read\<close> on a pipe that is not empty
  takes at least one of them.\<close>

definition pending :: "fifo \<Rightarrow> nat" where
  "pending fd = length (concat fd) + length fd"

lemma fd_read_pending:
  "fd_read n fd = (bs, fd') \<Longrightarrow> pending fd' \<le> pending fd"
  "fd_read n fd = (bs, fd') \<Longrightarrow> 0 < n \<Longrightarrow> fd \<noteq> [] \<Longrightarrow> pending fd' < pending fd"
  by (cases fd; auto simp: pending_def split: if_splits)+

lemma sync_loop_pending:
  "sync_loop i buff fd = Some (res, buff', fd') \<Longrightarrow> pending fd' \<le> pending fd \<and> (fd \<noteq> [] \<longrightarrow> pending fd' < pending fd)"
proof (induction i buff fd rule: sync_loop.induct)
  case (1 i buff fd)
  obtain bs fd1 where rd: "fd_read 1 fd = (bs, fd1)" by fastforce
  note p = fd_read_pending [OF rd]
  show ?case
  proof (cases bs)
    case Nil
    then show ?thesis using 1(2) rd p by (subst (asm) sync_loop.simps) auto
  next
    case (Cons d ds)
    from 1(2) obtain b1 found where s: "sync_oem4 buff d = Some (b1, found)"
      by (subst (asm) sync_loop.simps) (use rd in \<open>auto simp: Cons c_mem\<close>)
    show ?thesis
    proof (cases "found \<or> i \<ge> 4096")
      case True
      then show ?thesis using 1(2) rd p s Cons by (subst (asm) sync_loop.simps) (auto split: if_splits)
    next
      case False
      then have "sync_loop (Suc i) b1 fd1 = Some (res, buff', fd')"
        using 1(2) rd s Cons by (subst (asm) sync_loop.simps) simp
      from 1(1) [OF rd [symmetric] _ s] this False p Cons show ?thesis by fastforce
    qed
  qed
qed

lemma input_frame_pending: "wlp (input_frame now raw fd) (\<lambda>r. pending (snd (snd (snd (snd r)))) \<le> pending fd)"
  unfolding input_frame_def Let_def
  by (intro wlp_intros) (auto dest!: fd_read_pending(1) intro: order_trans)

lemma deal_pro_pending:
  assumes "deal_pro m now g fd = Some (g', out, fd')" and "fd \<noteq> []"
  shows "pending fd' < pending fd"
proof -
  from assms(1) obtain raw ty o1 res where i: "input_hcnoem4p now hcnraw_zero fd = Some (raw, ty, o1, res, fd')"
    by (auto simp: deal_pro_def c_mem split: if_splits)
  then obtain r b fd1 where s: "sync_loop 0 (raw_buff hcnraw_zero) fd = Some (r, b, fd1)"
    by (auto simp: input_hcnoem4p_def hcnraw_zero_start(2) c_mem simp del: hcnraw_zero_start(1))
  have "pending fd' \<le> pending fd1"
  proof (cases "r = Synced")
    case True
    with i s have "input_frame now (hcnraw_zero\<lparr>raw_buff := b\<rparr>) fd1 = Some (raw, ty, o1, res, fd')"
      by (simp add: input_hcnoem4p_def hcnraw_zero_start(2))
    from wlpD [OF input_frame_pending this] show ?thesis by simp
  next
    case False
    with i s show ?thesis by (cases r) (auto simp: input_hcnoem4p_def hcnraw_zero_start(2))
  qed
  with sync_loop_pending [OF s] assms(2) show ?thesis by linarith
qed

lemma pending_0_iff: "pending fd = 0 \<longleftrightarrow> fd = []"
  by (cases fd) (auto simp: pending_def)

definition is_readable :: "event \<Rightarrow> bool" where
  "is_readable e \<longleftrightarrow> (case e of Readable _ \<Rightarrow> True | _ \<Rightarrow> False)"

lemma readable_less: "step m s e s' \<Longrightarrow> is_readable e \<Longrightarrow> pending (m_fifo s') < pending (m_fifo s)"
  by (auto simp: is_readable_def split: event.splits elim!: readableE dest: deal_pro_pending)

interpretation pipe: draining_system "step m" is_readable "\<lambda>s. pending (m_fifo s)" for m
  by unfold_locales (rule readable_less)

lemma readable_goes_on:
  assumes "deal_pro m now (w_guide (m_world s)) (m_fifo s) \<noteq> None" and "pending (m_fifo s) \<noteq> 0"
  shows "\<exists>s'. step m s (Readable now) s'"
proof -
  obtain g out fd where "deal_pro m now (w_guide (m_world s)) (m_fifo s) = Some (g, out, fd)" using assms(1) by auto
  from readable [OF _ this] assms(2) show ?thesis by (auto simp: pending_0_iff)
qed

section \<open>Properties\<close>

text \<open>C9. The start reaches the event loop exactly when memory is there, both pipes exist or can be made,
  both can be opened and the first four commands can be written; then the shared state is cleared, these
  commands are the last that were sent, and both handlers are registered. A log file that cannot be opened does not
  stop the start, and leaves the log closed. Otherwise \<open>main\<close> returns.\<close>

theorem main_starts:
  "case main e s of
     Exited _ \<Rightarrow> \<not> (e_calloc e \<and> list_all (\<lambda>p. (p \<in> set (su_paths s) \<or> e_mkfifo e p) \<and> e_open e p) [DEFD, PROFD]
       \<and> True \<notin> set (take 4 (w_faults (su_world s))))
   | Dispatching s' \<Rightarrow> e_calloc e \<and> list_all (\<lambda>p. (p \<in> set (su_paths s) \<or> e_mkfifo e p) \<and> e_open e p) [DEFD, PROFD]
       \<and> True \<notin> set (take 4 (w_faults (su_world s)))
       \<and> w_guide (su_world s') = guide_zero \<and> w_cmds (su_world s') = w_cmds (su_world s) @ start_cmds
       \<and> su_fds s' = su_fds s @ [DEFD, PROFD] \<and> su_events s' = su_events s @ [''web_accept'', ''deal_pro'']
       \<and> s_logger_fp (su_logger s') = (if e_fopen e CGI_LOG then Some CGI_LOG else None)"
  by (cases "main e s") (auto dest: main_dispatches main_completes)

text \<open>C3. In every state the event loop can reach, whatever the receiver and the clients send, in any
  order, and whichever writes fail: the shared state keeps its shape, the four first commands were sent
  before all others, no command exceeds 99 characters, and the last response is empty or starts with the
  HTTP head.\<close>

theorem loop_invariant:
  assumes "started e w paths s" and "w_cmds w = []" and "w_out w = []" and "run (step m) s es s'"
  shows "guide_ok (w_guide (m_world s')) \<and> take 4 (w_cmds (m_world s')) = start_cmds
    \<and> (\<forall>c \<in> set (w_cmds (m_world s')). length c < 100)
    \<and> (w_out (m_world s') = [] \<or> (\<exists>body. w_out (m_world s') = HTTP_CONENT_HEAD @ body))"
proof -
  obtain su files where su: "main e \<lparr>su_world = w, su_logger = logger_zero files, su_paths = paths, su_fds = [], su_events = []\<rparr> = Dispatching su"
    "s = \<lparr>m_world = su_world su, m_fifo = []\<rparr>" using assms(1) by (auto simp: started_def)
  have "machine_ok s"
    using main_dispatches [OF su(1)] assms(2,3) guide_zero_ok
    by (simp add: su(2) machine_ok_def sent_ok_def response_ok_def start_cmds_def CRLF_def)
  from cgi.inv_run [OF assms(4) this] show ?thesis by (auto simp: machine_ok_def sent_ok_def response_ok_def)
qed

text \<open>The system at its best: everything succeeds.\<close>

definition good_env :: env where
  "good_env = \<lparr>e_calloc = True, e_fopen = (\<lambda>p. True), e_mkfifo = (\<lambda>p. True), e_open = (\<lambda>p. True)\<rparr>"

definition world_running :: world where
  "world_running = world_start\<lparr>w_cmds := start_cmds\<rparr>"

lemma good_start: "started good_env world_start [] \<lparr>m_world = world_running, m_fifo = []\<rparr>"
proof -
  have "\<exists>su. main good_env \<lparr>su_world = world_start, su_logger = logger_zero files, su_paths = [], su_fds = [], su_events = []\<rparr> =
      Dispatching su \<and> s_logger_fp (su_logger su) = Some CGI_LOG \<and> su_world su = world_running" for files
    by (simp add: main_def wconnect_def deconnect_def good_env_def start_cmds_def fd_write_def world_start_def
        world_running_def logger_init_def Let_def)
  then show ?thesis unfolding started_def by fastforce
qed

lemma deal_pro_one: "deal_pro m now g [[1]] = Some (g, [], [])"
  unfolding deal_pro_def input_hcnoem4p_def hcnraw_zero_start
  by (subst sync_loop.simps, subst sync_loop.simps) (simp add: sync_oem4_Cons OEM4SYNC1_def)

theorem loop_invariant_witness:
  "\<exists>s'. run (step plain_libm) \<lparr>m_world = world_running, m_fifo = []\<rparr>
      [Arrive [1], Accept (Some (\<lambda>_. Some ''config=setrov'')), Readable []] s' \<and> guide_ok (w_guide (m_world s'))"
proof -
  let ?w = "myerror (''script name error'' @ [LF]) world_running"
  have web: "web_accept (Some (\<lambda>_. Some ''config=setrov'')) world_running = Some ?w"
    by (simp add: web_accept_def web_pro_def GUIDE_CMD_def CONFIG_CMD_def world_running_def world_start_def)
  have r: "run (step plain_libm) \<lparr>m_world = world_running, m_fifo = []\<rparr>
      [Arrive [1], Accept (Some (\<lambda>_. Some ''config=setrov'')), Readable []] \<lparr>m_world = ?w, m_fifo = []\<rparr>"
    using arrive [of plain_libm "\<lparr>m_world = world_running, m_fifo = []\<rparr>" "[1]"]
      accept [of "Some (\<lambda>_. Some ''config=setrov'')" "\<lparr>m_world = world_running, m_fifo = [[1]]\<rparr>" ?w plain_libm]
      readable [of "\<lparr>m_world = ?w, m_fifo = [[1]]\<rparr>" plain_libm "[]" "w_guide ?w" "[]" "[]"]
    by (auto simp: web deal_pro_one logged_def intro!: run.intros)
  with loop_invariant [OF good_start _ _ r] show ?thesis by (auto simp: world_start_def)
qed

text \<open>C7. The pipe does not starve: each call of the handler takes something from it, so between two
  writes of the receiver there are no more calls than bytes and chunks waiting; and when the handler
  returns in every state such calls lead to, that many calls empty the pipe.\<close>

theorem pipe_drains:
  assumes "\<And>es s'. run (step m) s es s' \<Longrightarrow> list_all is_readable es \<Longrightarrow> deal_pro m now (w_guide (m_world s')) (m_fifo s') \<noteq> None"
  shows "(\<exists>n s'. n \<le> pending (m_fifo s) \<and> run (step m) s (replicate n (Readable now)) s' \<and> m_fifo s' = [])
    \<and> (\<forall>es s'. run (step m) s es s' \<and> list_all is_readable es \<longrightarrow> length es + pending (m_fifo s') \<le> pending (m_fifo s))"
proof -
  have "\<exists>n s'. n \<le> pending (m_fifo s) \<and> run (step m) s (replicate n (Readable now)) s' \<and> pending (m_fifo s') = 0"
    by (rule pipe.drains [OF readable_goes_on [OF assms]]) (simp_all add: is_readable_def)
  then show ?thesis using pipe.run_bounded by (auto simp: pending_0_iff)
qed

theorem pipe_drains_witness:
  "\<exists>n s'. run (step plain_libm) \<lparr>m_world = world_start, m_fifo = [[1]]\<rparr> (replicate n (Readable [])) s' \<and> m_fifo s' = []"
proof -
  let ?s = "\<lparr>m_world = world_start, m_fifo = [[1]]\<rparr>"
  have empty: "deal_pro plain_libm [] g [] = Some (g, [], [])" for g
    unfolding deal_pro_def input_hcnoem4p_def hcnraw_zero_start by (subst sync_loop.simps) simp
  have "m_fifo s' = [[1]] \<or> m_fifo s' = []" if "run (step plain_libm) s es s'" "m_fifo s = [[1]] \<or> m_fifo s = []" "list_all is_readable es" for s s' es
    using that
  proof (induction rule: run.induct)
    case (run_cons s e s1 es s')
    then obtain now where e: "e = Readable now" by (auto simp: is_readable_def split: event.splits)
    from run_cons.hyps(1) run_cons.prems(1) have "m_fifo s1 = []" by (auto simp: e deal_pro_one elim!: readableE)
    then show ?case using run_cons by simp
  qed simp
  then have returns: "deal_pro plain_libm [] (w_guide (m_world s')) (m_fifo s') \<noteq> None" if "run (step plain_libm) ?s es s'" "list_all is_readable es" for es s'
    using that by (fastforce simp: deal_pro_one empty)
  have "(\<exists>n s'. n \<le> pending (m_fifo ?s) \<and> run (step plain_libm) ?s (replicate n (Readable [])) s' \<and> m_fifo s' = [])
    \<and> (\<forall>es s'. run (step plain_libm) ?s es s' \<and> list_all is_readable es \<longrightarrow> length es + pending (m_fifo s') \<le> pending (m_fifo ?s))"
    by (rule pipe_drains) (rule returns)
  then show ?thesis by blast
qed

end
