(* ===== verification/Web_Lists.thy ===== *)
theory Web_Lists
  imports Web_Pages
begin

text \<open>
  Pages that list satellites (\<^verbatim>\<open>src/web_pro.c\<close>, \<open>action\<close>): a refinement of the objects that the setters and
  the appends build, with their capacities, by the plain list of their members, and what a client reads.
\<close>

section \<open>Objects with arrays\<close>

text \<open>What is known of a value in an object that a page builds.\<close>

definition entry_ok :: "json \<Rightarrow> bool" where
  "entry_ok v \<longleftrightarrow> wf_json v \<and> printable v \<and> nested_within 1 v \<and> (case v of JArray xs cap \<Rightarrow> grown cap | _ \<Rightarrow> True)"

text \<open>The object stands for the list of its members without capacities.\<close>

definition stands_for :: "json_object \<Rightarrow> (string \<times> json) list \<Rightarrow> bool" where
  "stands_for ob fs \<longleftrightarrow> map trim_pair (fst ob) = fs \<and> distinct (map fst fs) \<and> length fs \<le> 15
     \<and> (fst ob = [] \<and> snd ob = 0 \<or> snd ob = 15)
     \<and> (\<forall>kv \<in> set (fst ob). printable_string (fst kv) \<and> nul_free (fst kv) \<and> entry_ok (snd kv))"

lemma stands_for_new: "stands_for new_object []"
  by (simp add: stands_for_def new_object_def)

lemma overwrite_trim: "map trim_pair (overwrite kvs n v) = overwrite (map trim_pair kvs) n (json_trim v)"
  by (induction kvs n v rule: overwrite.induct) auto

lemma stands_for_add:
  assumes "stands_for ob fs" and "n \<notin> fst ` set fs" and "length fs < 15"
    and "printable_string n" and "nul_free n" and "entry_ok v"
  shows "stands_for (snd (json_object_set_value ob n (Some v))) (fs @ [(n, json_trim v)])"
proof -
  obtain kvs cap where ob: "ob = (kvs, cap)" by (cases ob)
  have fs: "fs = map trim_pair kvs" "length kvs < 15" "kvs = [] \<and> cap = 0 \<or> cap = 15"
    using assms(1,3) by (auto simp: stands_for_def ob)
  have "map_of kvs n = None" using assms(2) by (auto simp: fs(1) map_of_eq_None_iff image_image)
  then have "json_object_set_value ob n (Some v) = (JSONSuccess, (kvs @ [(n, v)], 15))"
    using fs(2,3)
    by (auto simp: ob json_object_set_value_def json_object_add_def grow_capacity_def STARTING_CAPACITY_def OBJECT_MAX_CAPACITY_def)
  then show ?thesis using assms by (auto simp: stands_for_def ob)
qed

lemma stands_for_number:
  assumes "stands_for ob fs" and "n \<notin> fst ` set fs" and "length fs < 15" and "printable_string n" and "nul_free n"
  shows "stands_for (set_field ob (n, byte_num b)) (fs @ [(n, JNumber (d_of_int (uint b)))])"
proof -
  have "entry_ok (JNumber (d_of_int (uint b)))"
    using byte_num_ok [of b] by (simp add: entry_ok_def byte_num_def MAX_NESTING_def)
  from stands_for_add [OF assms this] show ?thesis
    by (simp add: byte_num_def json_object_set_number_def json_value_init_number_def)
qed

lemma stands_for_array:
  assumes "stands_for ob fs" and "n \<notin> fst ` set fs" and "length fs < 15" and "printable_string n" and "nul_free n"
  shows "stands_for (set_array ob n) (fs @ [(n, JArray [] 0)])"
proof -
  have "entry_ok (JArray [] 0)" by (simp add: entry_ok_def grown_def MAX_NESTING_def)
  from stands_for_add [OF assms this] show ?thesis by (simp add: set_array_def json_value_init_array_def)
qed

lemma stands_for_append:
  assumes ob: "stands_for ob fs" and xs: "map_of fs n = Some (JArray xs (length xs))" and room: "length xs < ARRAY_MAX_CAPACITY"
    and v: "wf_json v" "printable v" "nested_within 2 v"
  shows "stands_for (append_in ob n v) (overwrite fs n (JArray (xs @ [json_trim v]) (Suc (length xs))))"
proof -
  obtain kvs cap where kvs: "ob = (kvs, cap)" by (cases ob)
  have "map_option json_trim (map_of kvs n) = Some (JArray xs (length xs))"
    using ob xs map_of_trim [of kvs n] by (simp add: stands_for_def kvs)
  then obtain u where u: "map_of kvs n = Some u" "json_trim u = JArray xs (length xs)" by auto
  then obtain ys c where ys: "u = JArray ys c" "map json_trim ys = xs" by (cases u) auto
  have e: "entry_ok u" "printable_string n" "nul_free n"
    using ob map_of_SomeD [OF u(1)] by (auto simp: stands_for_def kvs)
  have len: "length ys = length xs" using arg_cong [OF ys(2), of length] by simp
  obtain c' where c': "json_array_add (ys, c) v = (JSONSuccess, (ys @ [v], c'))" "grown c'"
    "Suc (length ys) \<le> c'" "c' \<le> ARRAY_MAX_CAPACITY"
    using json_array_add_grown [of c ys v] e(1) room by (auto simp: entry_ok_def ys(1) len)
  then have a: "append_in ob n v = (overwrite kvs n (JArray (ys @ [v]) c'), cap)"
    by (simp add: append_in_def kvs json_object_get_array_def json_value_get_array_def u(1) ys(1)
        json_array_append_value_def of_array_def)
  have "entry_ok (JArray (ys @ [v]) c')"
    using e(1) v c'(2-4) room by (auto simp: entry_ok_def ys(1) len numeral_2_eq_2)
  then have "\<forall>kv \<in> set (overwrite kvs n (JArray (ys @ [v]) c')). printable_string (fst kv) \<and> nul_free (fst kv) \<and> entry_ok (snd kv)"
    using ob e(2,3) overwrite_set [of kvs n "JArray (ys @ [v]) c'"] by (auto simp: stands_for_def kvs)
  moreover have "cap = 15" "map trim_pair kvs = fs" "distinct (map fst fs)" "length fs \<le> 15"
    using ob u(1) by (auto simp: stands_for_def kvs)
  ultimately show ?thesis unfolding stands_for_def a by (simp add: overwrite_trim ys(2) len)
qed

text \<open>The text of such an object reads back as the list it stands for.\<close>

lemma respond_stands_for:
  assumes "stands_for ob fs"
  shows "\<exists>t. respond w ob = Some (w, Some t) \<and> json_parse_string (Some t) = Some (Some (JObject fs (length fs)))"
proof -
  obtain kvs cap where ob: "ob = (kvs, cap)" by (cases ob)
  have fs: "fs = map trim_pair kvs" using assms by (simp add: stands_for_def ob)
  then have names: "map fst fs = map fst kvs" by simp
  have "wf_json (JObject kvs cap)" "printable (JObject kvs cap)" "nested_within 0 (JObject kvs cap)"
    unfolding wf_json.simps printable.simps nested_within.simps names [symmetric]
    using assms arg_cong [OF names, of length] by (auto simp: stands_for_def ob entry_ok_def OBJECT_MAX_CAPACITY_def MAX_NESTING_def)
  from json_text_roundtrip [OF this, of False "w_fill w"] show ?thesis
    by (auto simp: respond_def ob of_object_def fs)
qed

section \<open>The loops of the satellite pages\<close>

text \<open>The members that show the list \<open>l\<close> of system \<open>k\<close>.\<close>

abbreviation prn_json :: "byte \<Rightarrow> json" where
  "prn_json x \<equiv> JNumber (d_of_int (uint x))"

definition count_fields :: "byte list \<Rightarrow> nat \<Rightarrow> (string \<times> json) list" where
  "count_fields satnu k = (num_names ! k, prn_json (satnu ! k)) # (if satnu ! k > 0 then [(prn_names ! k, JArray [] 0)] else [])"

lemma page_names:
  "k < 5 \<Longrightarrow> printable_string (num_names ! k) \<and> nul_free (num_names ! k) \<and> printable_string (prn_names ! k) \<and> nul_free (prn_names ! k)"
  by (auto simp: less_5 num_names_def prn_names_def printable_string_def printable_char_def)

lemma count_loop_stands_for:
  assumes "stands_for ob fs" and "length satnu = 5" and "i + n \<le> 5" and "length fs + 2 * n \<le> 15"
    and "distinct (map fst fs @ concat (map (\<lambda>k. [num_names ! k, prn_names ! k]) [i..<i + n]))"
  shows "\<exists>ob'. count_loop satnu i n ob = Some ob' \<and> stands_for ob' (fs @ concat (map (count_fields satnu) [i..<i + n]))"
  using assms
proof (induction n arbitrary: i ob fs)
  case (Suc n)
  have i: "i < 5" "[i..<i + Suc n] = i # [Suc i..<Suc i + n]" using Suc.prems(3) by (simp_all add: upt_conv_Cons)
  note names = page_names [OF i(1)]
  have d: "distinct (map fst fs @ [num_names ! i, prn_names ! i] @ concat (map (\<lambda>k. [num_names ! k, prn_names ! k]) [Suc i..<Suc i + n]))"
    using Suc.prems(5) unfolding i(2) by simp
  let ?fs1 = "fs @ [(num_names ! i, prn_json (satnu ! i))]"
  have one: "stands_for (set_field ob (num_names ! i, byte_num (satnu ! i))) ?fs1"
    by (rule stands_for_number [OF Suc.prems(1)]) (use Suc.prems(4) d names in auto)
  have two: "stands_for (set_array (set_field ob (num_names ! i, byte_num (satnu ! i))) (prn_names ! i)) (?fs1 @ [(prn_names ! i, JArray [] 0)])"
    by (rule stands_for_array [OF one]) (use Suc.prems(4) d names in auto)
  have "stands_for (if satnu ! i > 0 then set_array (set_field ob (num_names ! i, byte_num (satnu ! i))) (prn_names ! i)
      else set_field ob (num_names ! i, byte_num (satnu ! i))) (fs @ count_fields satnu i)" (is "stands_for ?ob _")
    using one two by (simp add: count_fields_def)
  from Suc.IH [OF this Suc.prems(2), of "Suc i"] show ?case
    using Suc.prems(2-4) d unfolding i(2) by (auto simp: count_fields_def Let_def i(1))
qed simp

lemma append_loop_stands_for:
  assumes "stands_for ob fs" and "map_of fs name = Some (JArray ys (length ys))" and "i + n \<le> length xs"
    and "length ys + n \<le> ARRAY_MAX_CAPACITY"
  shows "\<exists>ob'. append_loop xs i n name ob = Some ob' \<and>
    stands_for ob' (overwrite fs name (JArray (ys @ map prn_json (take n (drop i xs))) (length ys + n)))"
  using assms
proof (induction n arbitrary: i ob fs ys)
  case 0
  have "overwrite fs name v = fs" if "map_of fs name = Some v" for v
    using that by (induction fs name v rule: overwrite.induct) (auto split: if_splits)
  then show ?case using 0 by simp
next
  case (Suc n)
  let ?v = "prn_json (xs ! i)" and ?zs = "ys @ [prn_json (xs ! i)]"
  have i: "i < length xs" using Suc.prems(3) by simp
  have "stands_for (append_in ob name ?v) (overwrite fs name (JArray ?zs (length ?zs)))"
    using stands_for_append [OF Suc.prems(1,2), of ?v] byte_num_ok [of "xs ! i"] Suc.prems(4)
    by (simp add: byte_num_def MAX_NESTING_def)
  moreover have "map_of (overwrite fs name (JArray ?zs (length ?zs))) name = Some (JArray ?zs (length ?zs))"
    using Suc.prems(2) by (simp add: map_of_overwrite)
  moreover have "overwrite (overwrite fs name v) name v' = overwrite fs name v'" for v v'
    by (induction fs name v rule: overwrite.induct) auto
  moreover have "take (Suc n) (drop i xs) = xs ! i # take n (drop (Suc i) xs)" using i by (simp flip: Cons_nth_drop_Suc)
  ultimately show ?case
    using Suc.IH [of "append_in ob name ?v" "overwrite fs name (JArray ?zs (length ?zs))" ?zs "Suc i"] Suc.prems(3,4) i by simp
qed

text \<open>The members that show the list \<open>l\<close> of system \<open>k\<close>, and the object when the first \<open>m\<close> lists are filled.\<close>

definition list_fields :: "(nat \<Rightarrow> byte list) \<Rightarrow> nat \<Rightarrow> (string \<times> json) list" where
  "list_fields l k = (num_names ! k, JNumber (d_of_int (int (length (l k))))) #
     (if l k = [] then [] else [(prn_names ! k, JArray (map prn_json (l k)) (length (l k)))])"

definition filled :: "sateprn_t \<Rightarrow> nat \<Rightarrow> (string \<times> json) list" where
  "filled p m = concat (map (list_fields (listed p)) [0..<m]) @ concat (map (count_fields (sn_satnu p)) [m..<5])"

lemma overwrite_append:
  "n \<notin> fst ` set as \<Longrightarrow> overwrite (as @ bs) n v = as @ overwrite bs n v"
  by (induction "as") auto

lemma list_fields_count:
  assumes "prn_inv p" and "k < 5"
  shows "length (listed p k) = unat (sn_satnu p ! k)" and "unat (sn_satnu p ! k) \<le> length (prn_arrays p ! k)"
    and "sn_satnu p ! k = 0 \<Longrightarrow> list_fields (listed p) k = count_fields (sn_satnu p) k"
proof -
  have "\<forall>k < 5. length (prn_arrays p ! k) = 32"
    using assms(1) by (simp add: all_less_5 prn_inv_def sateprn_ok_def prn_arrays_def MAXPRNGPS_def MAXPRNGLO_def MAXPRNGAL_def MAXPRNCMP_def MAXPRNSBS_def)
  then show "unat (sn_satnu p ! k) \<le> length (prn_arrays p ! k)" using assms by (simp add: prn_inv_def)
  then show len: "length (listed p k) = unat (sn_satnu p ! k)" by (simp add: listed_def)
  then show "list_fields (listed p) k = count_fields (sn_satnu p) k" if "sn_satnu p ! k = 0"
    using that by (auto simp: list_fields_def count_fields_def)
qed

lemma names_differ: "j < 5 \<Longrightarrow> k < 5 \<Longrightarrow> j \<noteq> k \<Longrightarrow> prn_names ! k \<noteq> prn_names ! j" "j < 5 \<Longrightarrow> k < 5 \<Longrightarrow> prn_names ! k \<noteq> num_names ! j"
  by (auto simp: less_5 prn_names_def num_names_def)

lemma fill_stands_for:
  assumes "prn_inv p" and "k < 5" and "stands_for ob (filled p k)"
  shows "\<exists>ob'. append_loop (prn_arrays p ! k) 0 (unat (sn_satnu p ! k)) (prn_names ! k) ob = Some ob' \<and> stands_for ob' (filled p (Suc k))"
proof -
  let ?A = "concat (map (list_fields (listed p)) [0..<k])" and ?B = "concat (map (count_fields (sn_satnu p)) [Suc k..<5])"
  have k: "filled p k = ?A @ count_fields (sn_satnu p) k @ ?B" "filled p (Suc k) = ?A @ list_fields (listed p) k @ ?B"
    using assms(2) by (simp_all add: filled_def upt_conv_Cons)
  note c = list_fields_count [OF assms(1,2)]
  have room: "unat (sn_satnu p ! k) \<le> 32" using assms(1,2) by (simp add: prn_inv_def)
  show ?thesis
  proof (cases "sn_satnu p ! k = 0")
    case True
    then show ?thesis using assms(3) c(3) by (simp add: k)
  next
    case False
    have A: "prn_names ! k \<notin> fst ` set ?A"
    proof -
      have "\<forall>j < k. prn_names ! k \<noteq> prn_names ! j \<and> prn_names ! k \<noteq> num_names ! j"
        using names_differ [of _ k] assms(2) by simp
      then show ?thesis by (auto simp: list_fields_def split: if_splits)
    qed
    have "map_of (filled p k) (prn_names ! k) = Some (JArray [] (length ([] :: json list)))"
      using A names_differ(2) [OF assms(2,2)] False
      by (simp add: k(1) map_add_def map_of_eq_None_iff [THEN iffD2] count_fields_def word_gt_0)
    from append_loop_stands_for [OF assms(3) this, of 0 "unat (sn_satnu p ! k)" "prn_arrays p ! k"] c(2) room
    obtain ob' where ob': "append_loop (prn_arrays p ! k) 0 (unat (sn_satnu p ! k)) (prn_names ! k) ob = Some ob'"
      "stands_for ob' (overwrite (filled p k) (prn_names ! k) (JArray (map prn_json (listed p k)) (unat (sn_satnu p ! k))))"
      by (auto simp: ARRAY_MAX_CAPACITY_def listed_def)
    have "listed p k \<noteq> []" using c(1) False by (auto simp: unat_eq_0)
    then have "overwrite (filled p k) (prn_names ! k) (JArray (map prn_json (listed p k)) (unat (sn_satnu p ! k))) = filled p (Suc k)"
      using A names_differ(2) [OF assms(2,2)] False c(1)
      by (simp add: k overwrite_append count_fields_def list_fields_def word_gt_0)
    then show ?thesis using ob' by auto
  qed
qed

lemma append_prns_stands_for:
  assumes "prn_inv p" and "stands_for ob (filled p 0)"
  shows "\<exists>ob'. append_prns p ob = Some ob' \<and> stands_for ob' (concat (map (list_fields (listed p)) [0..<5]))"
proof -
  obtain o1 where 1: "append_loop (prn_arrays p ! 0) 0 (unat (sn_satnu p ! 0)) (prn_names ! 0) ob = Some o1" "stands_for o1 (filled p 1)"
    using fill_stands_for [OF assms(1) _ assms(2)] by auto
  obtain o2 where 2: "append_loop (prn_arrays p ! 1) 0 (unat (sn_satnu p ! 1)) (prn_names ! 1) o1 = Some o2" "stands_for o2 (filled p 2)"
    using fill_stands_for [OF assms(1) _ 1(2)] by (auto simp: numeral_2_eq_2)
  obtain o3 where 3: "append_loop (prn_arrays p ! 2) 0 (unat (sn_satnu p ! 2)) (prn_names ! 2) o2 = Some o3" "stands_for o3 (filled p 3)"
    using fill_stands_for [OF assms(1) _ 2(2)] by auto
  obtain o4 where 4: "append_loop (prn_arrays p ! 3) 0 (unat (sn_satnu p ! 3)) (prn_names ! 3) o3 = Some o4" "stands_for o4 (filled p 4)"
    using fill_stands_for [OF assms(1) _ 3(2)] by auto
  obtain o5 where 5: "append_loop (prn_arrays p ! 4) 0 (unat (sn_satnu p ! 4)) (prn_names ! 4) o4 = Some o5" "stands_for o5 (filled p 5)"
    using fill_stands_for [OF assms(1) _ 4(2)] by auto
  have "length (sn_satnu p) = 5" using assms(1) by (simp add: prn_inv_def sateprn_ok_def)
  then show ?thesis using 1(1) 2(1) 3(1) 4(1) 5 by (simp add: append_prns_def prn_arrays_def filled_def)
qed

text \<open>The object that the page of the lists \<open>l\<close> reads back as.\<close>

definition lists_object :: "(nat \<Rightarrow> byte list) \<Rightarrow> json" where
  "lists_object l = JObject (concat (map (list_fields l) [0..<5])) (length (concat (map (list_fields l) [0..<5])))"

lemma lists_object_cong: "(\<And>k. k < 5 \<Longrightarrow> l k = l' k) \<Longrightarrow> lists_object l = lists_object l'"
proof -
  assume "\<And>k. k < 5 \<Longrightarrow> l k = l' k"
  then have "map (list_fields l) [0..<5] = map (list_fields l') [0..<5]" by (simp add: list_fields_def)
  then show ?thesis by (simp only: lists_object_def)
qed

lemma action_page:
  assumes "w_faults w = []" and "prn_inv (g_sateprn (w_guide w))"
  shows "\<exists>t. action w = Some (w\<lparr>w_cmds := w_cmds w @ [log_cmds ! 1]\<rparr>, Some t)
    \<and> json_parse_string (Some t) = Some (Some (lists_object (listed (g_sateprn (w_guide w)))))"
proof -
  let ?p = "g_sateprn (w_guide w)" and ?w = "w\<lparr>w_cmds := w_cmds w @ [log_cmds ! 1]\<rparr>"
  have len: "length (sn_satnu ?p) = 5" using assms(2) by (simp add: prn_inv_def sateprn_ok_def)
  have "distinct (map fst ([] :: (string \<times> json) list) @ concat (map (\<lambda>k. [num_names ! k, prn_names ! k]) [0..<0 + 5]))"
    by code_simp
  from count_loop_stands_for [OF stands_for_new len _ _ this] obtain o1
    where o1: "count_loop (sn_satnu ?p) 0 5 new_object = Some o1" "stands_for o1 (filled ?p 0)"
    by (auto simp: filled_def)
  obtain o2 where o2: "append_prns ?p o1 = Some o2" "stands_for o2 (concat (map (list_fields (listed ?p)) [0..<5]))"
    using append_prns_stands_for [OF assms(2) o1(2)] by auto
  from respond_stands_for [OF o2(2), of ?w] o1 o2 assms(1) show ?thesis
    by (auto simp: action_def requesting_good Let_def lists_object_def)
qed

section \<open>Properties\<close>

text \<open>C5. From the receiver to the browser: when a satellite message with room in every system is stored, the page that
  \<open>guide=action\<close> asks for reads back, with the parser of the program, as exactly this object: for each system the number of
  its satellites in the message and, where there are any, their PRNs in the order of the message.\<close>

theorem satellites_on_action_page:
  assumes "guide_ok (w_guide w)" and "hcnraw_ok raw" and "sp_satnum (raw_satpro raw) \<noteq> 0" and "unat (sp_satnum (raw_satpro raw)) \<le> 75"
    and "ecef2pos m [sp_x (raw_satpro raw), sp_y (raw_satpro raw), sp_z (raw_satpro raw)] = Some e"
    and "time2gpst (raw_time raw) = Some wk" and "room_for (\<lambda>k. 32) (sats_of raw)"
    and "w_faults w = []" and "req ''QUERY_STRING'' = Some q" and "nul_free q" and "length q < URL_BUF_MAX_LEN"
    and "query_param q ''guide'' = Some ''action''"
  shows "\<exists>g w' body. rsat m raw (w_guide w) = Some (g, []) \<and> pro_guide req (w\<lparr>w_guide := g\<rparr>) = Some w'
    \<and> w_out w' = w_out w @ HTTP_CONENT_HEAD @ body
    \<and> json_parse_string (Some body) =
        Some (Some (lists_object (\<lambda>k. map (\<lambda>s. ucast (ss_svid s)) (of_system k (sats_of raw)))))"
proof -
  obtain g where g: "rsat m raw (w_guide w) = Some (g, [])" "prn_inv (g_sateprn g)"
    "\<forall>k < 5. listed (g_sateprn g) k = map (\<lambda>s. ucast (ss_svid s)) (of_system k (sats_of raw))"
    using rsat_lists [OF assms(1-6)] assms(7) by auto
  let ?w = "w\<lparr>w_guide := g\<rparr>"
  obtain body where page: "action ?w = Some (?w\<lparr>w_cmds := w_cmds ?w @ [log_cmds ! 1]\<rparr>, Some body)"
    "json_parse_string (Some body) = Some (Some (lists_object (listed (g_sateprn g))))"
    using action_page [of ?w] g(2) assms(8) by auto
  have "lists_object (listed (g_sateprn g)) = lists_object (\<lambda>k. map (\<lambda>s. ucast (ss_svid s)) (of_system k (sats_of raw)))"
    using g(3) by (intro lists_object_cong) simp
  moreover have "pro_guide req ?w = Some (?w\<lparr>w_cmds := w_cmds ?w @ [log_cmds ! 1], w_out := w_out w @ HTTP_CONENT_HEAD @ body\<rparr>)"
    using pro_guide_named [of req q "''action''" ?w] assms(9-12) page(1) by (simp add: guide_pages_def show_page_def)
  ultimately show ?thesis using g(1) page(2) by auto
qed

theorem satellites_on_action_page_witness:
  "\<exists>g w' body. rsat plain_libm two_sats guide_zero = Some (g, [])
    \<and> pro_guide [''QUERY_STRING'' \<mapsto> ''guide=action''] (world_start\<lparr>w_guide := g\<rparr>) = Some w'
    \<and> w_out w' = HTTP_CONENT_HEAD @ body
    \<and> json_object_get_array (json_value_get_object (the (json_parse_string (Some body)))) ''gps_prn'' = Some ([prn_json 7], 1)"
proof -
  obtain e where e: "ecef2pos plain_libm [0, 0, 0] = Some e" using ecef2pos_origin by blast
  have wk: "time2gpst (gtime 400000000 0) = Some (d_add (d_of_int (400000000 - 315964800 - 138 * 604800)) 0, 138)"
    by (simp add: time2gpst_def gpst0_time gtime_def Let_def)
  have room: "room_for (\<lambda>k. 32) (sats_of two_sats)"
    by (auto simp: room_for_def two_sats(7) of_system_def satprosat_zero_def)
  have sys: "of_system 0 (sats_of two_sats) = [satprosat_zero\<lparr>ss_svid := 7\<rparr>]"
    by (simp add: two_sats(7) of_system_def satprosat_zero_def systems_def sys_table_def sys_values)
  have q: "query_param ''guide=action'' ''guide'' = Some ''action''" by code_simp
  have list: "[0..<5] = [0, 1, 2, 3, 4 :: nat]" by code_simp
  have "json_object_get_array (json_value_get_object (Some (lists_object (\<lambda>k. map (\<lambda>s. ucast (ss_svid s)) (of_system k (sats_of two_sats))))))
      ''gps_prn'' = Some ([prn_json 7], 1)"
    by (simp add: lists_object_def list list_fields_def sys json_value_get_object_def json_object_get_array_def
        json_value_get_array_def num_names_def prn_names_def satprosat_zero_def)
  then show ?thesis
    using satellites_on_action_page [of world_start two_sats plain_libm e "(d_add (d_of_int (400000000 - 315964800 - 138 * 604800)) 0, 138)"
        "[''QUERY_STRING'' \<mapsto> ''guide=action'']" "''guide=action''", unfolded two_sats(2-6), OF _ two_sats(1) _ _ e wk room _ _ _ _ q]
      guide_zero_ok
    by (auto simp: world_start_def URL_BUF_MAX_LEN_def)
qed

end
