(* ===== verification/Spec2Isabelle.thy ===== *)
theory Spec2Isabelle
  imports Mycgi Web_Lists
begin

text \<open>
  A verification development for the web front end of a GNSS receiver: the FastCGI program that
  \<^verbatim>\<open>src/Makefile\<close> builds from \<^verbatim>\<open>src/mycgi.c\<close>, \<^verbatim>\<open>src/web_pro.c\<close>,
  \<^verbatim>\<open>src/deal_pro.c\<close>, \<^verbatim>\<open>src/logger.c\<close>, \<^verbatim>\<open>src/parson.c\<close>,
  \<^verbatim>\<open>src/url_parser.c\<close> and \<^verbatim>\<open>src/oem6/deco.c\<close> for a 32-bit ARM Linux.

  \<^bold>\<open>The program.\<close> \<open>main\<close> clears the shared state \<open>guide\<close>, opens a pipe to the receiver and one from
  it, writes four first commands and enters the event loop. When the second pipe has data, \<open>deal_pro\<close>
  reads one message with \<open>input_hcnoem4p\<close>, decodes it and stores what it says in \<open>guide\<close>. When a
  request arrives, \<open>web_accept\<close> hands it to \<open>web_pro\<close>, which by the script name either shows a page
  (\<open>pro_guide\<close>: the state as JSON text) or carries out a configuration request (\<open>pro_config\<close>: commands
  written to the first pipe, or a new password file). The two halves share only \<open>guide\<close>, the pipe to
  the receiver and the log.

  \<^bold>\<open>How C is modelled.\<close> Arrays are lists of fixed length and pointers into them are indices. The outer
  \<open>option\<close> of a definition is definedness: \<open>None\<close> stands for an access outside an object, a read of an
  indeterminate value, a signed overflow or any other undefined behaviour, and is never an error code;
  null pointers and error codes are values inside it. Bytes, shorts and \<open>unsigned\<close> are words of their
  width, \<open>int\<close> and \<open>time_t\<close> are integers with their 32-bit range checked where the code can leave it,
  plain \<open>char\<close> is unsigned as on ARM, \<open>double\<close> and \<open>float\<close> are IEEE bit patterns with executable
  arithmetic. State is passed explicitly.

  \<^bold>\<open>The theories.\<close>
  \<^item> \<open>Prelude\<close>: bounded arrays (\<open>rd\<close>, \<open>wr\<close>, the collection \<open>c_mem\<close>), C strings in buffers, definedness
    and the weakest liberal precondition \<open>wlp\<close> of straight-line code.
  \<^item> \<open>C_Float\<close>, \<open>C_Lib\<close>: IEEE numbers; \<open>isdigit\<close>, \<open>atoi\<close>, \<open>strtod\<close>, \<open>%d\<close> and \<open>%.nf\<close>. Of the mathematics
    library only \<open>sqrt\<close>, \<open>atan\<close> and \<open>atan2\<close> are left open: they are fields of the parameter
    \<open>libm\<close> of the coordinate conversion.
  \<^item> \<open>Url_Parser\<close> (\<^verbatim>\<open>url_parser.c\<close>): percent coding in place, the query buffer, the parameter searches;
    the locale \<open>param_store\<close> is what the request handlers rely on.
  \<^item> \<open>Json_Value\<close>, \<open>Json_Serialize\<close>, \<open>Json_Parse\<close>, \<open>Json_Ops\<close> (\<^verbatim>\<open>parson.c\<close>): values with their
    capacities, the two-pass serializer, the recursive-descent parser on the remaining text, dotted names,
    copies, comparison, validation, files. The parser takes fuel \<open>parse_depth\<close>, one per nesting level
    that the code allows, so it is always enough.
  \<^item> \<open>Crc_Frame\<close>, \<open>Gps_Time\<close>, \<open>Receiver_Types\<close>, \<open>Decode\<close> (\<^verbatim>\<open>oem6/deco.c\<close>, \<^verbatim>\<open>include/deco.h\<close>): byte
    fields, checksum and synchronisation; calendar, leap seconds and GPS weeks; the message structures; all
    decoders and the reading of a frame from the pipe.
  \<^item> \<open>Guide_State\<close>, \<open>Guide\<close> (\<^verbatim>\<open>pro.h\<close>, \<^verbatim>\<open>deal_pro.c\<close>): the shared state and the handler that fills it; the
    locale \<open>sat_lists\<close> is the contract of the loops that sort satellites by system, interpreted on the
    PRN arrays and on the trace tables.
  \<^item> \<open>Web_State\<close>, \<open>Web_Guide\<close>, \<open>Web_Config\<close>, \<open>Web_Server\<close> (\<^verbatim>\<open>web_pro.c\<close>): the world a request acts on, the
    twelve pages, the sixteen configuration handlers, and their entry point.
  \<^item> \<open>Web_Pages\<close>, \<open>Web_Lists\<close>: what a client reads in the pages; \<open>stands_for\<close> relates an object under
    construction, with its capacities, to the list of its members.
  \<^item> \<open>Logger\<close> (\<^verbatim>\<open>logger.c\<close>): the log file with its mutex and the time text kept between calls;
    \<open>gmtime_r\<close> and \<open>strftime\<close> are written out and shown to agree with the receiver's \<open>time2epoch\<close> and
    \<open>time_str\<close>.
  \<^item> \<open>Event_System\<close>: runs of a transition relation, with the locales \<open>event_system\<close> (an invariant) and
    \<open>draining_system\<close> (a stock that events use up). \<open>Mycgi\<close> (\<^verbatim>\<open>mycgi.c\<close>): the start, and the event
    loop as a step relation over arrivals, pipe events and requests.

  \<^bold>\<open>What the theorems show.\<close> The codecs are inverse to each other (URL, JSON text and files, calendar, leap
  seconds, GPS weeks) and agree with reference definitions; parsing ends and stays inside its text; the
  checksum catches every burst of up to four bytes; the receiver finds a frame behind any junk and a
  corrupted frame changes nothing; exactly which messages and requests keep to the buffers; satellite
  messages refine the lists of their satellites; a board message is read back byte for byte on its page, the
  satellites of a message in their order on theirs,
  and a password comes back through URL, file and page; requests change no state but the address text
  that \<open>getip\<close> cuts; and, by induction over the step relation, in every reachable state the shared
  state keeps its shape, commands are short and responses well formed, and the pipe drains.

  \<^bold>\<open>Bounds.\<close> Query buffer 4096 bytes, command buffer 100, message buffer 4096, 15 to 960 members of a JSON
  object, 19 nesting levels; 4097 bytes are searched for a frame per call. Other loops are structural or
  have a measure in their termination proof.

  \<^bold>\<open>Assumptions.\<close> Allocation inside the request handlers succeeds, a successful \<open>write\<close> of a command writes
  all of it, and in the event loop the log file is open: \<open>main\<close> goes on without it, and \<open>Logger\<close> shows that no
  call of \<open>myerror\<close> is defined then. Which writes, saves, \<open>fopen\<close>, \<open>mkfifo\<close> and \<open>open\<close> calls fail is a
  parameter.

  \<^bold>\<open>Not modelled.\<close> The libraries the program calls (FastCGI, libevent; headers and archives under
  \<^verbatim>\<open>src/include\<close> and \<^verbatim>\<open>src/lib\<close>) appear only as what they hand to the program. The log macros are empty,
  because \<open>LOGFLAG\<close> is not defined, so \<open>debug\<close> is modelled but has no caller. \<^verbatim>\<open>src/parson\<close> is a second copy of the JSON library
  with its tests, and \<^verbatim>\<open>src/record.c\<close> is not compiled. Memory leaks and the freeing of memory have no
  counterpart.
\<close>

end
